(* ===== verification/Kernel_Prelude.thy ===== *)
theory Kernel_Prelude
  imports Main "HOL-Library.Word"
begin

unbundle bit_operations_syntax

text \<open>
  Shared vocabulary of the development: the widths of the kernel's C types, the status codes of
  \<^verbatim>\<open>include/rorthox/status.h\<close>, the result type that stands for "negative status or value", and
  the generic facts about lists and machine words that the component theories use.

  The kernel is 32-bit code: \<^verbatim>\<open>size_t\<close>, \<^verbatim>\<open>uintptr_t\<close> and every pointer are \<open>u32\<close>. A C
  \<^verbatim>\<open>int\<close> is an \<open>int\<close> where the code keeps it in range, and the range is then a lemma.
\<close>

section \<open>Machine types\<close>

type_synonym u8 = "8 word"
type_synonym u16 = "16 word"
type_synonym u32 = "32 word"
type_synonym u64 = "64 word"

definition INT_MAX :: int where
  "INT_MAX = 2147483647"

definition UINT32_MAX :: u32 where
  "UINT32_MAX = 0xFFFFFFFF"

section \<open>Status codes\<close>

text \<open>
  \<^verbatim>\<open>include/rorthox/status.h\<close>: a failing function returns the negated code. \<open>ERROR\<close> and
  \<open>ERROR_I\<close> of \<^verbatim>\<open>kernel.h\<close> are casts between such an \<^verbatim>\<open>int\<close> and a pointer.
\<close>

datatype error = EIO | EINVARG | ENOMEM | EBADPATH | EFSNOTUS | ERDONLY | EUNIMP | EISTKN
  | EINFORMAT | ENOENT | EBADF | ENOSPC | EMFILE | EFBIG

fun errno :: "error \<Rightarrow> int" where
  "errno EIO = 1"
| "errno EINVARG = 2"
| "errno ENOMEM = 3"
| "errno EBADPATH = 4"
| "errno EFSNOTUS = 5"
| "errno ERDONLY = 6"
| "errno EUNIMP = 7"
| "errno EISTKN = 8"
| "errno EINFORMAT = 9"
| "errno ENOENT = 10"
| "errno EBADF = 11"
| "errno ENOSPC = 12"
| "errno EMFILE = 13"
| "errno EFBIG = 14"

type_synonym 'a result = "error + 'a"

text \<open>The \<^verbatim>\<open>int\<close> a function with a non-negative payload returns.\<close>

definition c_int :: "nat result \<Rightarrow> int" where
  "c_int r = (case r of Inl e \<Rightarrow> - errno e | Inr n \<Rightarrow> int n)"

definition ERROR :: "int \<Rightarrow> u32" where
  "ERROR v = word_of_int v"

definition ISERR :: "u32 \<Rightarrow> bool" where
  "ISERR v \<longleftrightarrow> sint v < 0"

lemma errno_bounds: "0 < errno e" "errno e < 15"
  by (cases e; simp)+

lemma errno_inject [simp]: "errno e = errno e' \<longleftrightarrow> e = e'"
  by (cases e; cases e'; simp)

section \<open>Words as numbers\<close>

lemma unat_u32_less: "unat (w :: u32) < 4294967296"
  using unsigned_less [of w] by simp

lemma sint_u32_small:
  assumes "unat (w :: u32) < 2147483648"
  shows "sint w = int (unat w)"
proof -
  from assms have "int (unat w) < int 2147483648" unfolding of_nat_less_iff .
  then have "uint w < 2147483648" by simp
  moreover have "- 2147483648 \<le> uint w" using uint_ge_0 [of w] by linarith
  ultimately show ?thesis
    using signed_take_bit_int_eq_self [of 31 "uint w"] by (simp add: sint_uint)
qed

lemma unat_add_u32: "unat a + unat b < 4294967296 \<Longrightarrow> unat (a + b :: u32) = unat a + unat b"
  by (subst unat_add_lem [THEN iffD1]) simp_all

lemma unat_mult_u32: "unat a * unat b < 4294967296 \<Longrightarrow> unat (a * b :: u32) = unat a * unat b"
  by (subst unat_mult_lem [THEN iffD1]) simp_all

lemma unat_sub_u32: "unat b \<le> unat a \<Longrightarrow> unat (a - b :: u32) = unat a - unat b"
  by (subst unat_sub) (simp_all add: word_le_nat_alt)

lemma unat_of_nat_u32: "n < 4294967296 \<Longrightarrow> unat (of_nat n :: u32) = n"
  by (simp add: unat_of_nat)

lemma unat_u8_less: "unat (w :: u8) < 256"
  using unsigned_less [of w] by simp

lemma unat_ucast_u8 [simp]: "unat (ucast (w :: u8) :: u32) = unat w"
proof -
  have "unat w < 2 ^ LENGTH(8)" by (rule unsigned_less)
  then have "unat w < 2 ^ 32" by simp
  then show ?thesis by (simp add: unsigned_ucast_eq take_bit_nat_eq_self)
qed

section \<open>Rounding to a block of 4096\<close>

lemma block_split:
  fixes a :: nat
  obtains q r where "a = 4096 * q + r" "r < 4096"
  using that [of "a div 4096" "a mod 4096"] by simp

lemma round_up_aligned: "(a :: nat) mod 4096 = 0 \<Longrightarrow> (a + 4095) div 4096 = a div 4096"
  by (rule block_split [of a]) auto

lemma round_up_unaligned:
  fixes a :: nat
  assumes "a mod 4096 \<noteq> 0"
  shows "(a + 4095) div 4096 = Suc (a div 4096)" and "a - a mod 4096 = 4096 * (a div 4096)"
proof -
  obtain q r where a: "a = 4096 * q + r" "r < 4096" by (rule block_split)
  with assms have "0 < r" by (cases r) auto
  with a have "(4096 * q + (r + 4095)) div 4096 = q + (r + 4095) div 4096" "(r + 4095) div 4096 = 1"
    by auto
  with a show "(a + 4095) div 4096 = Suc (a div 4096)" by (simp add: add.assoc)
  show "a - a mod 4096 = 4096 * (a div 4096)" by (simp add: minus_mod_eq_mult_div)
qed

end
