(* ===== verification/Allocator_Spec.thy ===== *)
theory Allocator_Spec
  imports Kernel_Prelude
begin

text \<open>
  What the users of the kernel heap rely on: \<^verbatim>\<open>malloc\<close> and \<^verbatim>\<open>free\<close> as operations on a set of
  live regions (address and size in bytes). Every component that allocates, and releases what it
  allocated on its error paths, is verified against this interface only.
\<close>

locale region_allocator =
  fixes malloc :: "'h \<Rightarrow> u32 \<Rightarrow> u32 \<times> 'h"
    and free :: "'h \<Rightarrow> u32 \<Rightarrow> 'h"
    and inv :: "'h \<Rightarrow> bool"
    and live :: "'h \<Rightarrow> (u32 \<times> nat) set"
  assumes malloc_fail: "inv h \<Longrightarrow> malloc h n = (0, h') \<Longrightarrow> h' = h"
    and malloc_inv: "inv h \<Longrightarrow> malloc h n = (p, h') \<Longrightarrow> inv h'"
    and malloc_fresh: "inv h \<Longrightarrow> malloc h n = (p, h') \<Longrightarrow> p \<noteq> 0 \<Longrightarrow> p \<notin> fst ` live h"
    and malloc_live: "inv h \<Longrightarrow> malloc h n = (p, h') \<Longrightarrow> p \<noteq> 0 \<Longrightarrow>
      \<exists>k. unat n \<le> k \<and> live h' = insert (p, k) (live h)"
    and free_inv: "inv h \<Longrightarrow> inv (free h p)"
    and free_live: "inv h \<Longrightarrow> live (free h p) = {r \<in> live h. fst r \<noteq> p}"
    and free_dead: "inv h \<Longrightarrow> p \<notin> fst ` live h \<Longrightarrow> free h p = h"
    and live_region: "inv h \<Longrightarrow> (p, k) \<in> live h \<Longrightarrow> p \<noteq> 0 \<and> 0 < k \<and> unat p + k \<le> 2 ^ 32"
    and live_disjoint: "inv h \<Longrightarrow> (p, k) \<in> live h \<Longrightarrow> (q, l) \<in> live h \<Longrightarrow>
      (p, k) = (q, l) \<or> unat p + k \<le> unat q \<or> unat q + l \<le> unat p"
begin

lemma live_size_unique:
  assumes "inv h" and "(p, k) \<in> live h" and "(p, l) \<in> live h"
  shows "k = l"
  using live_disjoint [OF assms] live_region [OF assms(1,2)] live_region [OF assms(1,3)] by auto

lemma null_not_live: "inv h \<Longrightarrow> 0 \<notin> fst ` live h"
  using live_region by fastforce

lemma addrs_malloc:
  "inv h \<Longrightarrow> malloc h n = (p, h') \<Longrightarrow> fst ` live h' = (if p = 0 then {} else {p}) \<union> fst ` live h"
  using malloc_live [of h n p h'] malloc_fail [of h n h'] by (cases "p = 0") auto

lemma addrs_free: "inv h \<Longrightarrow> fst ` live (free h p) = fst ` live h - {p}"
  by (auto simp: free_live)

lemma free_malloc_live:
  assumes "inv h" and "malloc h n = (p, h')"
  shows "live (free h' p) = live h"
proof (cases "p = 0")
  case True
  with assms have "h' = h" using malloc_fail by blast
  with True assms show ?thesis using free_dead [OF assms(1) null_not_live] by simp
next
  case False
  from malloc_live [OF assms False] obtain k where "live h' = insert (p, k) (live h)" by blast
  with malloc_fresh [OF assms False] show ?thesis
    by (force simp: free_live [OF malloc_inv [OF assms]])
qed

lemma free_free: "inv h \<Longrightarrow> free (free h p) p = free h p"
  by (rule free_dead) (auto simp: free_inv free_live)

text \<open>Releasing a list of addresses leaves exactly the regions that were not on it.\<close>

lemma free_list:
  "inv h \<Longrightarrow> inv (fold (\<lambda>p h. free h p) ps h)
     \<and> live (fold (\<lambda>p h. free h p) ps h) = {r \<in> live h. fst r \<notin> set ps}"
proof (induction ps arbitrary: h)
  case (Cons p ps)
  from Cons.IH [OF free_inv [OF Cons.prems], of p] show ?case
    by (auto simp: free_live [OF Cons.prems])
qed simp

end

end
