(* ===== verification/Kernel_Heap.thy ===== *)
theory Kernel_Heap
  imports Allocator_Spec
begin

text \<open>
  The block allocator of \<^verbatim>\<open>kernel/memory/heap/heap.c\<close>: a pool of 4 KiB blocks described by a
  table with one byte per block.
\<close>

section \<open>Data\<close>

definition RORTHOX_HEAP_BLOCK_SIZE :: u32 where
  "RORTHOX_HEAP_BLOCK_SIZE = 4096"

definition HEAP_BLOCK_TABLE_ENTRY_TAKEN :: u8 where
  "HEAP_BLOCK_TABLE_ENTRY_TAKEN = 0x01"

definition HEAP_BLOCK_TABLE_ENTRY_FREE :: u8 where
  "HEAP_BLOCK_TABLE_ENTRY_FREE = 0x00"

definition HEAP_BLOCK_HAS_NEXT :: u8 where
  "HEAP_BLOCK_HAS_NEXT = 0x80"

definition HEAP_BLOCK_IS_FIRST :: u8 where
  "HEAP_BLOCK_IS_FIRST = 0x40"

lemmas heap_consts = RORTHOX_HEAP_BLOCK_SIZE_def HEAP_BLOCK_TABLE_ENTRY_TAKEN_def
  HEAP_BLOCK_TABLE_ENTRY_FREE_def HEAP_BLOCK_HAS_NEXT_def HEAP_BLOCK_IS_FIRST_def

record heap_table =
  entries :: "u8 list"
  total :: u32

record heap =
  table :: heap_table
  saddr :: u32

section \<open>Operations\<close>

definition heap_validate_table :: "u32 \<Rightarrow> u32 \<Rightarrow> heap_table \<Rightarrow> unit result" where
  "heap_validate_table ptr end_ptr tab =
     (let table_size = end_ptr - ptr;
          total_blocks = table_size div RORTHOX_HEAP_BLOCK_SIZE
      in if total tab \<noteq> total_blocks then Inl EINVARG else Inr ())"

definition heap_validate_alignment :: "u32 \<Rightarrow> bool" where
  "heap_validate_alignment ptr \<longleftrightarrow> ptr mod RORTHOX_HEAP_BLOCK_SIZE = 0"

text \<open>
  \<^verbatim>\<open>memset(table->entries, FREE, total)\<close> clears the first \<open>total\<close> entries. The table pointer
  is shared with the heap structure, so the cleared table is the one the heap refers to.
\<close>

definition heap_create :: "heap \<Rightarrow> u32 \<Rightarrow> u32 \<Rightarrow> heap_table \<Rightarrow> unit result \<times> heap" where
  "heap_create h ptr end_ptr tab =
     (if \<not> heap_validate_alignment ptr \<or> \<not> heap_validate_alignment end_ptr
      then (Inl EINVARG, h)
      else let h1 = \<lparr>table = tab, saddr = ptr\<rparr>
           in case heap_validate_table ptr end_ptr tab of
                Inl e \<Rightarrow> (Inl e, h1)
              | Inr _ \<Rightarrow>
                  (let n = unat (total tab)
                   in (Inr (), h1\<lparr>table := tab\<lparr>entries :=
                         replicate n HEAP_BLOCK_TABLE_ENTRY_FREE @ drop n (entries tab)\<rparr>\<rparr>)))"

definition heap_align_value_to_upper :: "u32 \<Rightarrow> u32" where
  "heap_align_value_to_upper val =
     (if val mod RORTHOX_HEAP_BLOCK_SIZE = 0 then val
      else (val - val mod RORTHOX_HEAP_BLOCK_SIZE) + RORTHOX_HEAP_BLOCK_SIZE)"

definition heap_get_entry_type :: "u8 \<Rightarrow> u8" where
  "heap_get_entry_type entry = entry AND 0x0f"

text \<open>
  The scan of \<^verbatim>\<open>heap_get_start_block\<close> over the entries from index \<open>i\<close> on, with the run length
  \<open>bc\<close> and the run start \<open>bs\<close> (\<open>-1\<close> when no run is open). The counter is compared with an unsigned
  number, so it is kept as the unsigned value it is converted to.
\<close>

fun heap_scan :: "u8 list \<Rightarrow> nat \<Rightarrow> u32 \<Rightarrow> int \<Rightarrow> u32 \<Rightarrow> u32 \<times> int" where
  "heap_scan [] i bc bs total_blocks = (bc, bs)"
| "heap_scan (e # es) i bc bs total_blocks =
     (if heap_get_entry_type e \<noteq> HEAP_BLOCK_TABLE_ENTRY_FREE
      then heap_scan es (Suc i) 0 (-1) total_blocks
      else let bs' = (if bs = -1 then int i else bs);
               bc' = bc + 1
           in if bc' = total_blocks then (bc', bs')
              else heap_scan es (Suc i) bc' bs' total_blocks)"

definition heap_get_start_block :: "heap \<Rightarrow> u32 \<Rightarrow> nat result" where
  "heap_get_start_block h total_blocks =
     (let tab = table h;
          (bc, bs) = heap_scan (take (unat (total tab)) (entries tab)) 0 0 (-1) total_blocks
      in if bs = -1 \<or> bc \<noteq> total_blocks then Inl ENOMEM else Inr (nat bs))"

definition heap_block_to_address :: "heap \<Rightarrow> nat \<Rightarrow> u32" where
  "heap_block_to_address h block = saddr h + of_nat block * RORTHOX_HEAP_BLOCK_SIZE"

function heap_mark_taken_loop :: "u8 list \<Rightarrow> int \<Rightarrow> int \<Rightarrow> u8 \<Rightarrow> u8 list" where
  "heap_mark_taken_loop es i end_block entry =
     (if i \<le> end_block
      then heap_mark_taken_loop (es[nat i := entry]) (i + 1) end_block
             (if i \<noteq> end_block - 1
              then HEAP_BLOCK_TABLE_ENTRY_TAKEN OR HEAP_BLOCK_HAS_NEXT
              else HEAP_BLOCK_TABLE_ENTRY_TAKEN)
      else es)"
  by pat_completeness auto
termination
  by (relation "measure (\<lambda>(es, i, end_block, entry). nat (end_block + 1 - i))") auto

declare heap_mark_taken_loop.simps [simp del]

definition heap_mark_blocks_taken :: "heap \<Rightarrow> nat \<Rightarrow> u32 \<Rightarrow> heap" where
  "heap_mark_blocks_taken h start_block total_blocks =
     (let end_block = int start_block + sint total_blocks - 1;
          entry = HEAP_BLOCK_TABLE_ENTRY_TAKEN OR HEAP_BLOCK_IS_FIRST;
          entry = (if 1 < sint total_blocks then entry OR HEAP_BLOCK_HAS_NEXT else entry)
      in h\<lparr>table := (table h)\<lparr>entries :=
             heap_mark_taken_loop (entries (table h)) (int start_block) end_block entry\<rparr>\<rparr>)"

definition heap_malloc_blocks :: "heap \<Rightarrow> u32 \<Rightarrow> u32 \<times> heap" where
  "heap_malloc_blocks h total_blocks =
     (case heap_get_start_block h total_blocks of
        Inl _ \<Rightarrow> (0, h)
      | Inr start_block \<Rightarrow>
          (heap_block_to_address h start_block,
           heap_mark_blocks_taken h start_block total_blocks))"

function heap_mark_free_loop :: "u8 list \<Rightarrow> nat \<Rightarrow> nat \<Rightarrow> u8 list" where
  "heap_mark_free_loop es i n =
     (if i < n
      then let entry = es ! i; es' = es[i := HEAP_BLOCK_TABLE_ENTRY_FREE]
           in if entry AND HEAP_BLOCK_HAS_NEXT = 0 then es'
              else heap_mark_free_loop es' (Suc i) n
      else es)"
  by pat_completeness auto
termination
  by (relation "measure (\<lambda>(es, i, n). n - i)") auto

declare heap_mark_free_loop.simps [simp del]

definition heap_mark_blocks_free :: "heap \<Rightarrow> nat \<Rightarrow> heap" where
  "heap_mark_blocks_free h starting_block =
     h\<lparr>table := (table h)\<lparr>entries :=
         heap_mark_free_loop (entries (table h)) starting_block (unat (total (table h)))\<rparr>\<rparr>"

definition heap_malloc :: "heap \<Rightarrow> u32 \<Rightarrow> u32 \<times> heap" where
  "heap_malloc h sz =
     (if UINT32_MAX - (RORTHOX_HEAP_BLOCK_SIZE - 1) < sz then (0, h)
      else let aligned_size = heap_align_value_to_upper sz;
               total_blocks = aligned_size div RORTHOX_HEAP_BLOCK_SIZE
           in if total_blocks = 0 then (0, h) else heap_malloc_blocks h total_blocks)"

definition heap_free :: "heap \<Rightarrow> u32 \<Rightarrow> heap" where
  "heap_free h ptr =
     (if ptr = 0 \<or> \<not> heap_validate_alignment ptr then h
      else if ptr < saddr h then h
      else let block = (ptr - saddr h) div RORTHOX_HEAP_BLOCK_SIZE
           in if total (table h) \<le> block then h
              else let entry = entries (table h) ! unat block
                   in if heap_get_entry_type entry \<noteq> HEAP_BLOCK_TABLE_ENTRY_TAKEN
                         \<or> entry AND HEAP_BLOCK_IS_FIRST = 0
                      then h
                      else heap_mark_blocks_free h (unat block))"

section \<open>The table as a sequence of runs\<close>

text \<open>
  A well-formed table is a sequence of free entries and of runs: \<open>0x41\<close> alone, or \<open>0xC1\<close>, any
  number of \<open>0x81\<close>, and \<open>0x01\<close>. \<open>table_run\<close> is the automaton that reads it (the flag says
  "inside a run").
\<close>

fun table_run :: "bool \<Rightarrow> u8 list \<Rightarrow> bool option" where
  "table_run b [] = Some b"
| "table_run False (e # es) =
     (if e = 0x00 \<or> e = 0x41 then table_run False es
      else if e = 0xC1 then table_run True es else None)"
| "table_run True (e # es) =
     (if e = 0x81 then table_run True es
      else if e = 0x01 then table_run False es else None)"

definition table_ok :: "u8 list \<Rightarrow> bool" where
  "table_ok es \<longleftrightarrow> table_run False es = Some False"

definition run_entries :: "nat \<Rightarrow> u8 list" where
  "run_entries n = (if n \<le> 1 then [0x41] else 0xC1 # replicate (n - 2) 0x81 @ [0x01])"

text \<open>The length of the run at the head of a table, and the runs \<open>(start, length)\<close> of a table.\<close>

fun run_length :: "u8 list \<Rightarrow> nat" where
  "run_length [] = 0"
| "run_length (e # es) = (if e AND 0x80 = 0 then 1 else Suc (run_length es))"

fun runs :: "nat \<Rightarrow> u8 list \<Rightarrow> (nat \<times> nat) list" where
  "runs i [] = []"
| "runs i (e # es) =
     (if e AND 0x40 = 0 then runs (Suc i) es
      else (i, run_length (e # es)) # runs (Suc i) es)"

lemma table_run_append:
  "table_run b (xs @ ys) = Option.bind (table_run b xs) (\<lambda>b'. table_run b' ys)"
  by (induction b xs rule: table_run.induct) auto

lemma table_run_cases:
  "table_run b (e # es) = Some c \<longleftrightarrow>
     (\<not> b \<and> (e = 0x00 \<or> e = 0x41) \<and> table_run False es = Some c)
   \<or> (\<not> b \<and> e = 0xC1 \<and> table_run True es = Some c)
   \<or> (b \<and> e = 0x81 \<and> table_run True es = Some c)
   \<or> (b \<and> e = 0x01 \<and> table_run False es = Some c)"
  by (cases b) auto

lemma table_run_entry:
  "table_run b es = Some c \<Longrightarrow> e \<in> set es \<Longrightarrow> e \<in> {0x00, 0x41, 0xC1, 0x81, 0x01}"
  by (induction b es rule: table_run.induct) (auto split: if_splits)

lemma table_free_entry:
  assumes "table_ok es" and "e \<in> set es"
  shows "heap_get_entry_type e = HEAP_BLOCK_TABLE_ENTRY_FREE \<longleftrightarrow> e = 0"
  using table_run_entry [of False es False e] assms
  by (auto simp: table_ok_def heap_get_entry_type_def heap_consts)

lemma table_run_run_entries: "0 < n \<Longrightarrow> table_run False (run_entries n) = Some False"
proof -
  have "table_run True (replicate k 0x81 @ [0x01]) = Some False" for k
    by (induction k) auto
  then show "0 < n \<Longrightarrow> ?thesis"
    by (simp add: run_entries_def)
qed

lemma table_run_zeros: "table_run False (replicate n 0) = Some False"
  by (induction n) auto

lemma length_run_entries: "0 < n \<Longrightarrow> length (run_entries n) = n"
  by (auto simp: run_entries_def)

lemma table_ok_append:
  "table_ok xs \<Longrightarrow> table_ok (xs @ ys) \<longleftrightarrow> table_ok ys"
  by (simp add: table_ok_def table_run_append)

text \<open>Where a free entry follows, the automaton is between runs.\<close>

lemma table_ok_before_free: "table_ok (xs @ 0 # ys) \<Longrightarrow> table_ok xs"
  by (auto simp: table_ok_def table_run_append table_run_cases bind_eq_Some_conv)

lemma table_ok_replace:
  assumes "table_ok (pre @ xs @ post)" and "table_ok pre" and "table_ok xs" and "table_ok xs'"
  shows "table_ok (pre @ xs' @ post)"
  using assms by (simp add: table_ok_append)

lemma runs_append:
  "table_run b xs = Some False \<Longrightarrow> runs i (xs @ ys) = runs i xs @ runs (i + length xs) ys"
proof (induction b xs arbitrary: i rule: table_run.induct)
  case (1 b)
  then show ?case by simp
next
  case (2 e es)
  have "run_length (zs @ ys) = run_length zs" if "table_run True zs = Some False" for zs
    using that by (induction True zs rule: table_run.induct) (auto split: if_splits)
  with 2 show ?case
    by (auto split: if_splits)
next
  case (3 e es)
  then show ?case by (auto split: if_splits)
qed

lemma runs_zeros: "runs i (replicate n 0) = []"
  by (induction n arbitrary: i) auto

lemma runs_run_entries: "0 < n \<Longrightarrow> runs i (run_entries n) = [(i, n)]"
proof -
  have "run_length (replicate k 0x81 @ [0x01]) = Suc k" for k
    by (induction k) auto
  moreover have "runs j (replicate k 0x81 @ [0x01]) = []" for j k
    by (induction k arbitrary: j) auto
  ultimately show "0 < n \<Longrightarrow> ?thesis"
    by (auto simp: run_entries_def)
qed

lemma runs_replace:
  assumes "table_ok pre" and "0 < n"
  shows "set (runs i (pre @ run_entries n @ post))
    = insert (i + length pre, n) (set (runs i (pre @ replicate n 0 @ post)))"
  using assms table_run_run_entries [of n] table_run_zeros [of n]
  by (simp add: table_ok_def runs_append runs_zeros runs_run_entries length_run_entries)

text \<open>Every run of a well-formed table is a segment of it, and the runs do not overlap.\<close>

lemma table_run_inside:
  "table_run True es = Some False \<Longrightarrow>
     \<exists>m post. es = replicate m 0x81 @ 0x01 # post \<and> table_run False post = Some False"
proof (induction es)
  case Nil
  then show ?case by simp
next
  case (Cons e es)
  then consider "e = 0x81" "table_run True es = Some False"
    | "e = 0x01" "table_run False es = Some False"
    by (auto split: if_splits)
  then show ?case
  proof cases
    case 1
    with Cons.IH obtain m post where "es = replicate m 0x81 @ 0x01 # post"
      and "table_run False post = Some False" by blast
    with 1 show ?thesis by (intro exI [of _ "Suc m"] exI [of _ post]) simp
  next
    case 2
    then show ?thesis by (intro exI [of _ 0] exI [of _ es]) simp
  qed
qed

lemma run_length_inside: "run_length (replicate m 0x81 @ 0x01 # post) = Suc m"
  by (induction m) auto

definition run_at :: "bool \<Rightarrow> nat \<Rightarrow> u8 list \<Rightarrow> nat \<Rightarrow> nat \<Rightarrow> bool" where
  "run_at b k es i n \<longleftrightarrow> (\<exists>pre post. es = pre @ run_entries n @ post \<and> i = k + length pre \<and> 0 < n
     \<and> table_run b pre = Some False \<and> table_run False post = Some False)"

lemma run_at_Cons:
  assumes "run_at b' (Suc k) es i n" and step: "\<And>xs. table_run b (e # xs) = table_run b' xs"
  shows "run_at b k (e # es) i n"
proof -
  from assms(1) obtain pre post where es: "es = pre @ run_entries n @ post"
    and i: "i = Suc k + length pre" and n: "0 < n" and pre: "table_run b' pre = Some False"
    and post: "table_run False post = Some False"
    unfolding run_at_def by blast
  have "e # es = (e # pre) @ run_entries n @ post" "i = k + length (e # pre)"
    by (simp_all add: es i)
  moreover have "table_run b (e # pre) = Some False" by (simp only: step pre)
  ultimately show ?thesis using n post unfolding run_at_def by blast
qed

lemma run_at_here:
  assumes "table_run False post = Some False" and "0 < n"
  shows "run_at False k (run_entries n @ post) k n"
  unfolding run_at_def using assms by (rule_tac exI [of _ "[]"]) auto

lemma run_segment_gen:
  "table_run b es = Some False \<Longrightarrow> (i, n) \<in> set (runs k es) \<Longrightarrow> run_at b k es i n"
proof (induction b es arbitrary: k rule: table_run.induct)
  case (1 b)
  then show ?case by simp
next
  case (2 e es)
  from "2.prems"(1) consider "e = 0x00" "table_run False es = Some False"
    | "e = 0x41" "table_run False es = Some False" | "e = 0xC1" "table_run True es = Some False"
    by (auto split: if_splits)
  then show ?case
  proof cases
    case 1
    with 2 show ?thesis by (intro run_at_Cons [of False]) auto
  next
    case here: 2
    show ?thesis
    proof (cases "(i, n) \<in> set (runs (Suc k) es)")
      case True
      with here 2 show ?thesis by (intro run_at_Cons [of False]) auto
    next
      case False
      with here "2.prems"(2) have "i = k" "n = 1" by auto
      with here show ?thesis using run_at_here [of es 1 k] by (simp add: run_entries_def)
    qed
  next
    case here: 3
    show ?thesis
    proof (cases "(i, n) \<in> set (runs (Suc k) es)")
      case True
      with here 2 show ?thesis by (intro run_at_Cons [of True]) auto
    next
      case False
      obtain m post where es: "es = replicate m 0x81 @ 0x01 # post"
        and post: "table_run False post = Some False"
        using table_run_inside [OF here(2)] by blast
      from False here "2.prems"(2) es have "i = k" "n = Suc (Suc m)"
        by (auto simp: run_length_inside)
      with here es post show ?thesis using run_at_here [of post n k] by (simp add: run_entries_def)
    qed
  qed
next
  case (3 e es)
  from "3.prems" consider
      "e = 0x81" "table_run True es = Some False" "(i, n) \<in> set (runs (Suc k) es)"
    | "e = 0x01" "table_run False es = Some False" "(i, n) \<in> set (runs (Suc k) es)"
    by (auto split: if_splits)
  then show ?case
  proof cases
    case 1
    then have "run_at True (Suc k) es i n" using "3.IH"(1) by simp
    then show ?thesis by (rule run_at_Cons) (simp add: 1)
  next
    case 2
    then have "run_at False (Suc k) es i n" using "3.IH"(2) by simp
    then show ?thesis by (rule run_at_Cons) (simp add: 2)
  qed
qed

lemma run_segment:
  assumes "table_ok es" and "(i, n) \<in> set (runs 0 es)"
  obtains pre post where "es = pre @ run_entries n @ post" "length pre = i" "0 < n"
    "table_ok pre" "table_ok post"
  using run_segment_gen [of False es i n 0] assms by (auto simp: table_ok_def run_at_def)

lemma runs_start_ge: "(i, n) \<in> set (runs k es) \<Longrightarrow> k \<le> i \<and> i < k + length es"
proof (induction es arbitrary: k)
  case Nil
  then show ?case by simp
next
  case (Cons e es)
  show ?case
  proof (cases "(i, n) \<in> set (runs (Suc k) es)")
    case True
    with Cons.IH [of "Suc k"] show ?thesis by simp
  next
    case False
    with Cons.prems show ?thesis by (auto split: if_splits)
  qed
qed

lemma runs_start: "i < length es \<Longrightarrow> (\<exists>n. (k + i, n) \<in> set (runs k es)) \<longleftrightarrow> es ! i AND 0x40 \<noteq> 0"
proof (induction es arbitrary: i k)
  case Nil
  then show ?case by simp
next
  case (Cons e es)
  show ?case
  proof (cases i)
    case 0
    have "(k, n) \<notin> set (runs (Suc k) es)" for n
      using runs_start_ge [of k n "Suc k" es] by auto
    with 0 show ?thesis by simp
  next
    case (Suc j)
    with Cons.IH [of j "Suc k"] Cons.prems show ?thesis by auto
  qed
qed

lemma runs_bound: "table_ok es \<Longrightarrow> (i, n) \<in> set (runs 0 es) \<Longrightarrow> 0 < n \<and> i + n \<le> length es"
  by (erule (1) run_segment) (auto simp: length_run_entries)

lemma runs_split:
  assumes "table_ok pre" and "0 < n"
  shows "set (runs 0 (pre @ run_entries n @ post))
    = set (runs 0 pre) \<union> {(length pre, n)} \<union> set (runs (length pre + n) post)"
  using assms table_run_run_entries [of n]
  by (auto simp: table_ok_def runs_append runs_run_entries length_run_entries)

lemma runs_disjoint:
  assumes "table_ok es" and "(i, n) \<in> set (runs 0 es)" and "(j, m) \<in> set (runs 0 es)"
  shows "(i, n) = (j, m) \<or> i + n \<le> j \<or> j + m \<le> i"
proof -
  from assms(1,2) obtain pre post where es: "es = pre @ run_entries n @ post"
    "length pre = i" "0 < n" "table_ok pre" "table_ok post"
    by (rule run_segment)
  with assms(3) consider "(j, m) \<in> set (runs 0 pre)" | "(j, m) = (i, n)"
    | "(j, m) \<in> set (runs (i + n) post)"
    by (auto simp: runs_split)
  then show ?thesis
  proof cases
    case 1
    with es show ?thesis using runs_bound [of pre j m] by auto
  next
    case 3
    with es show ?thesis using runs_start_ge [of j m "i + n" post] by auto
  qed simp
qed

section \<open>First fit\<close>

text \<open>\<open>free_run es j n\<close>: the \<open>n\<close> entries from \<open>j\<close> on exist and are free.\<close>

definition entry_free :: "u8 \<Rightarrow> bool" where
  "entry_free e \<longleftrightarrow> heap_get_entry_type e = HEAP_BLOCK_TABLE_ENTRY_FREE"

definition free_run :: "u8 list \<Rightarrow> nat \<Rightarrow> nat \<Rightarrow> bool" where
  "free_run es j n \<longleftrightarrow> j + n \<le> length es \<and> (\<forall>k<n. entry_free (es ! (j + k)))"

lemma free_run_append: "j + n \<le> length es \<Longrightarrow> free_run (es @ fs) j n = free_run es j n"
  by (auto simp: free_run_def nth_append)

text \<open>
  What the scan knows before entry \<open>i\<close>: \<open>pre\<close> has been read, holds no free run of \<open>n\<close> blocks, and
  the open run (\<open>bc\<close> blocks from \<open>bs\<close>) is the longest free suffix of it.
\<close>

definition scan_inv :: "u8 list \<Rightarrow> u32 \<Rightarrow> int \<Rightarrow> u32 \<Rightarrow> bool" where
  "scan_inv pre bc bs n \<longleftrightarrow>
     unat bc \<le> length pre \<and> unat bc < unat n
     \<and> bs = (if bc = 0 then -1 else int (length pre - unat bc))
     \<and> (\<forall>k<unat bc. entry_free (pre ! (length pre - 1 - k)))
     \<and> (unat bc < length pre \<longrightarrow> \<not> entry_free (pre ! (length pre - 1 - unat bc)))
     \<and> (\<forall>j. \<not> free_run pre j (unat n))"

lemma scan_inv_taken:
  assumes inv: "scan_inv pre bc bs n" and e: "\<not> entry_free e"
  shows "scan_inv (pre @ [e]) 0 (-1) n"
proof -
  have "\<not> free_run (pre @ [e]) j (unat n)" for j
  proof
    assume run: "free_run (pre @ [e]) j (unat n)"
    have "\<not> j + unat n \<le> length pre"
      using inv run by (auto simp: scan_inv_def free_run_append)
    then have last: "j + (unat n - 1) = length pre" "unat n - 1 < unat n"
      using inv run by (auto simp: scan_inv_def free_run_def)
    then have "entry_free ((pre @ [e]) ! (j + (unat n - 1)))"
      using run by (auto simp: free_run_def)
    with last e show False by simp
  qed
  with inv e show ?thesis by (auto simp: scan_inv_def)
qed

lemma scan_inv_free_step:
  assumes inv: "scan_inv pre bc bs n" and e: "entry_free e"
    and len: "length pre < 2 ^ 32 - 1"
  shows "unat (bc + 1) = Suc (unat bc)"
    and "k < Suc (unat bc) \<Longrightarrow> entry_free ((pre @ [e]) ! (length pre - k))"
    and "unat bc < length pre \<Longrightarrow> \<not> entry_free ((pre @ [e]) ! (length pre - 1 - unat bc))"
    and "(if bs = -1 then int (length pre) else bs) = int (length pre - unat bc)"
proof -
  have bc: "unat bc \<le> length pre" using inv by (simp add: scan_inv_def)
  with len have "unat bc + 1 < 2 ^ LENGTH(32)" by simp
  then show "unat (bc + 1) = Suc (unat bc)" by (simp add: unat_add_lem [of bc 1, simplified])
  show "entry_free ((pre @ [e]) ! (length pre - k))" if "k < Suc (unat bc)"
  proof (cases k)
    case 0
    with e show ?thesis by simp
  next
    case (Suc k')
    with that bc inv have "entry_free (pre ! (length pre - 1 - k'))" "length pre - 1 - k' < length pre"
      by (auto simp: scan_inv_def)
    with Suc show ?thesis by (simp add: nth_append)
  qed
  show "unat bc < length pre \<Longrightarrow> \<not> entry_free ((pre @ [e]) ! (length pre - 1 - unat bc))"
    using inv by (auto simp: scan_inv_def nth_append)
  show "(if bs = -1 then int (length pre) else bs) = int (length pre - unat bc)"
    using inv bc by (cases "bc = 0") (simp_all add: scan_inv_def del: of_nat_diff)
qed

lemma scan_inv_free:
  assumes inv: "scan_inv pre bc bs n" and e: "entry_free e"
    and len: "length pre < 2 ^ 32 - 1" and more: "bc + 1 \<noteq> n"
  shows "scan_inv (pre @ [e]) (bc + 1) (if bs = -1 then int (length pre) else bs) n"
proof -
  note step = scan_inv_free_step [OF inv e len]
  have lt: "Suc (unat bc) < unat n"
    using inv more step(1) by (metis Suc_lessI scan_inv_def word_unat_eq_iff)
  have "\<not> free_run (pre @ [e]) j (unat n)" for j
  proof
    assume run: "free_run (pre @ [e]) j (unat n)"
    have "\<not> j + unat n \<le> length pre"
      using inv run by (auto simp: scan_inv_def free_run_append)
    with run have j: "j + unat n = Suc (length pre)" by (auto simp: free_run_def)
    with lt have gap: "unat bc < length pre" by simp
    have "length pre - 1 - unat bc = j + (unat n - 2 - unat bc)" "unat n - 2 - unat bc < unat n"
      using j lt by auto
    with run have "entry_free ((pre @ [e]) ! (length pre - 1 - unat bc))"
      by (auto simp: free_run_def)
    with step(3) [OF gap] show False by simp
  qed
  with step lt inv show ?thesis
    by (auto simp: scan_inv_def nth_append)
qed


lemma heap_scan_found:
  assumes inv: "scan_inv pre bc bs n" and e: "entry_free e"
    and len: "length pre < 2 ^ 32 - 1" and n: "bc + 1 = n"
  shows "free_run (pre @ e # es) (length pre - unat bc) (unat n)"
    and "j < length pre - unat bc \<Longrightarrow> \<not> free_run (pre @ e # es) j (unat n)"
proof -
  note step = scan_inv_free_step [OF inv e len]
  have bc: "unat bc \<le> length pre" using inv by (simp add: scan_inv_def)
  have un: "unat n = Suc (unat bc)" using step(1) n by simp
  have "entry_free ((pre @ [e]) ! (length pre - unat bc + k))" if "k < Suc (unat bc)" for k
    using step(2) [of "unat bc - k"] that bc by simp
  then have "free_run (pre @ [e]) (length pre - unat bc) (unat n)"
    using bc un by (simp add: free_run_def)
  then show "free_run (pre @ e # es) (length pre - unat bc) (unat n)"
    using free_run_append [of "length pre - unat bc" "unat n" "pre @ [e]" es] bc un by simp
  show "\<not> free_run (pre @ e # es) j (unat n)" if "j < length pre - unat bc"
    using inv that un free_run_append [of j "unat n" pre "e # es"] by (simp add: scan_inv_def)
qed

lemma heap_scan_spec:
  assumes "scan_inv pre bc bs n" and "length (pre @ es) < 2 ^ 32"
    and "heap_scan es (length pre) bc bs n = (bc', bs')"
  shows "if bs' = -1 \<or> bc' \<noteq> n then \<forall>j. \<not> free_run (pre @ es) j (unat n)
         else 0 \<le> bs' \<and> free_run (pre @ es) (nat bs') (unat n)
              \<and> (\<forall>j<nat bs'. \<not> free_run (pre @ es) j (unat n))"
  using assms
proof (induction es arbitrary: pre bc bs)
  case Nil
  then show ?case by (auto simp: scan_inv_def)
next
  case (Cons e es)
  have len: "length pre < 2 ^ 32 - 1" using Cons.prems(2) by simp
  have len': "length ((pre @ [e]) @ es) < 2 ^ 32" using Cons.prems(2) by simp
  consider "\<not> entry_free e" | "entry_free e" "bc + 1 = n" | "entry_free e" "bc + 1 \<noteq> n" by blast
  then show ?case
  proof cases
    case 1
    with Cons.prems(3) have "heap_scan es (length (pre @ [e])) 0 (-1) n = (bc', bs')"
      by (simp add: entry_free_def)
    from Cons.IH [OF scan_inv_taken [OF Cons.prems(1) 1] len' this] show ?thesis
      by (simp only: append_assoc append_Cons append_Nil)
  next
    case 2
    note start = scan_inv_free_step(4) [OF Cons.prems(1) 2(1) len]
    from 2 Cons.prems(3) have res: "bc' = n" "bs' = (if bs = -1 then int (length pre) else bs)"
      by (auto simp: entry_free_def Let_def split: if_splits)
    then have "bs' = int (length pre - unat bc)" using start by simp
    with res(1) heap_scan_found [OF Cons.prems(1) 2(1) len 2(2)] show ?thesis by simp
  next
    case 3
    with Cons.prems(3) have
      "heap_scan es (length (pre @ [e])) (bc + 1) (if bs = -1 then int (length pre) else bs) n = (bc', bs')"
      by (simp add: entry_free_def Let_def)
    from Cons.IH [OF scan_inv_free [OF Cons.prems(1) 3(1) len 3(2)] len' this] show ?thesis
      by (simp only: append_assoc append_Cons append_Nil)
  qed
qed

text \<open>The start block is the lowest one from which enough free blocks follow, if there is one.\<close>

lemma heap_get_start_block_spec:
  assumes "length (entries (table h)) = unat (total (table h))" and "n \<noteq> 0"
  shows "heap_get_start_block h n =
    (if \<exists>j. free_run (entries (table h)) j (unat n)
     then Inr (LEAST j. free_run (entries (table h)) j (unat n)) else Inl ENOMEM)"
proof -
  let ?es = "entries (table h)"
  obtain bc bs where scan: "heap_scan ?es 0 0 (-1) n = (bc, bs)" by fastforce
  have "0 < unat n" using assms(2) by (simp add: unat_gt_0)
  then have inv: "scan_inv [] 0 (-1) n" by (simp add: scan_inv_def free_run_def)
  have len: "length ([] @ ?es) < 2 ^ 32"
    using assms(1) unsigned_less [of "total (table h)"] by simp
  have scan': "heap_scan ?es (length []) 0 (-1) n = (bc, bs)" using scan by simp
  have spec: "if bs = -1 \<or> bc \<noteq> n then \<forall>j. \<not> free_run ?es j (unat n)
         else 0 \<le> bs \<and> free_run ?es (nat bs) (unat n) \<and> (\<forall>j<nat bs. \<not> free_run ?es j (unat n))"
    using heap_scan_spec [OF inv len scan'] by (simp only: append_Nil)
  have "heap_get_start_block h n = (if bs = -1 \<or> bc \<noteq> n then Inl ENOMEM else Inr (nat bs))"
    using scan assms(1) by (simp add: heap_get_start_block_def Let_def)
  moreover have "(LEAST j. free_run ?es j (unat n)) = nat bs" if "\<not> (bs = -1 \<or> bc \<noteq> n)"
  proof (rule Least_equality)
    show "free_run ?es (nat bs) (unat n)" using that spec by simp
    show "nat bs \<le> j" if "free_run ?es j (unat n)" for j
      using \<open>\<not> (bs = -1 \<or> bc \<noteq> n)\<close> spec that by (meson not_le_imp_less)
  qed
  ultimately show ?thesis using spec by (cases "bs = -1 \<or> bc \<noteq> n") auto
qed

section \<open>Marking blocks\<close>

fun marks :: "u8 \<Rightarrow> nat \<Rightarrow> u8 list" where
  "marks e 0 = []"
| "marks e (Suc n) = e # marks (if n = 1 then 0x01 else 0x81) n"

lemma marks_inner: "0 < n \<Longrightarrow> marks (if n = 1 then 0x01 else 0x81) n = replicate (n - 1) 0x81 @ [0x01]"
proof (induction n)
  case (Suc n)
  then show ?case by (cases n) auto
qed simp

lemma marks_run:
  "0 < n \<Longrightarrow> marks (if 1 < n then 0xC1 else 0x41) n = run_entries n"
proof (cases n)
  case (Suc m)
  then show ?thesis using marks_inner [of m] by (auto simp: run_entries_def)
qed simp

lemma heap_mark_taken_loop_marks:
  "heap_mark_taken_loop (pre @ xs @ post) (int (length pre)) (int (length pre) + int (length xs) - 1) e
    = pre @ marks e (length xs) @ post"
proof (induction xs arbitrary: pre e)
  case Nil
  then show ?case by (subst heap_mark_taken_loop.simps) simp
next
  case (Cons x xs)
  let ?E = "int (length pre) + int (length (x # xs)) - 1"
  have "heap_mark_taken_loop (pre @ (x # xs) @ post) (int (length pre)) ?E e
      = heap_mark_taken_loop ((pre @ [e]) @ xs @ post) (int (length pre) + 1) ?E
          (if length xs = 1 then 0x01 else 0x81)"
    by (subst heap_mark_taken_loop.simps) (auto simp: heap_consts list_update_append)
  also have "\<dots> = (pre @ [e]) @ marks (if length xs = 1 then 0x01 else 0x81) (length xs) @ post"
    using Cons.IH [of "pre @ [e]"] by (simp add: add.commute)
  finally show ?case by simp
qed

lemma heap_mark_free_loop_run:
  assumes "0 < n" and "length pre + n \<le> N"
  shows "heap_mark_free_loop (pre @ run_entries n @ post) (length pre) N = pre @ replicate n 0 @ post"
proof -
  have inner: "heap_mark_free_loop (qs @ (replicate k 0x81 @ [0x01]) @ post) (length qs) N
      = qs @ replicate (Suc k) 0 @ post" if "length qs + Suc k \<le> N" for qs k
    using that
  proof (induction k arbitrary: qs)
    case 0
    then show ?case by (subst heap_mark_free_loop.simps) (simp add: heap_consts nth_append)
  next
    case (Suc k)
    then have "heap_mark_free_loop ((qs @ [0]) @ (replicate k 0x81 @ [0x01]) @ post) (length (qs @ [0])) N
        = (qs @ [0]) @ replicate (Suc k) 0 @ post"
      by (intro Suc.IH) simp
    with Suc.prems show ?case
      by (subst heap_mark_free_loop.simps) (simp add: heap_consts nth_append list_update_append)
  qed
  show ?thesis
  proof (cases "n = 1")
    case True
    with assms show ?thesis
      by (subst heap_mark_free_loop.simps)
        (simp add: run_entries_def heap_consts nth_append list_update_append)
  next
    case False
    define k where "k = n - 2"
    with assms(1) False have n: "n = Suc (Suc k)" by simp
    have "heap_mark_free_loop ((pre @ [0]) @ (replicate k 0x81 @ [0x01]) @ post) (length (pre @ [0])) N
        = (pre @ [0]) @ replicate (Suc k) 0 @ post"
      using assms n by (intro inner) simp
    with assms n show ?thesis
      by (subst heap_mark_free_loop.simps)
        (simp add: run_entries_def heap_consts nth_append list_update_append)
  qed
qed

section \<open>Well-formed heaps\<close>

text \<open>
  The pool is aligned, does not start at address 0 and does not wrap; the table has one entry per
  block and is a sequence of runs. \<open>heap_live\<close> is the set of live allocations: address and size
  in bytes of every run.
\<close>

definition heap_wf :: "heap \<Rightarrow> bool" where
  "heap_wf h \<longleftrightarrow> length (entries (table h)) = unat (total (table h))
     \<and> table_ok (entries (table h)) \<and> heap_validate_alignment (saddr h) \<and> saddr h \<noteq> 0
     \<and> unat (saddr h) + 4096 * unat (total (table h)) \<le> 2 ^ 32"

definition heap_live :: "heap \<Rightarrow> (u32 \<times> nat) set" where
  "heap_live h = (\<lambda>(b, n). (heap_block_to_address h b, 4096 * n)) ` set (runs 0 (entries (table h)))"

definition heap_blocks :: "u32 \<Rightarrow> nat" where
  "heap_blocks sz = (unat sz + 4095) div 4096"

definition heap_fits :: "heap \<Rightarrow> u32 \<Rightarrow> bool" where
  "heap_fits h sz \<longleftrightarrow> (\<exists>j. free_run (entries (table h)) j (heap_blocks sz))"

definition heap_accepts :: "u32 \<Rightarrow> bool" where
  "heap_accepts sz \<longleftrightarrow> sz \<noteq> 0 \<and> sz \<le> 0xFFFFF000"

lemma heap_accepts_unat: "heap_accepts sz \<longleftrightarrow> 0 < unat sz \<and> unat sz \<le> 4294963200"
  by (simp add: heap_accepts_def word_le_nat_alt unat_gt_0)

lemma heap_total_blocks:
  assumes "sz \<le> 0xFFFFF000"
  shows "unat (heap_align_value_to_upper sz div RORTHOX_HEAP_BLOCK_SIZE) = heap_blocks sz"
proof -
  have le: "unat sz \<le> 4294963200" using assms by (simp add: word_le_nat_alt)
  have m: "unat (sz mod 4096) = unat sz mod 4096" by (simp add: unat_mod)
  show ?thesis
  proof (cases "sz mod 4096 = 0")
    case True
    with m have "unat sz mod 4096 = 0" by simp
    from round_up_aligned [OF this] True show ?thesis
      by (simp add: heap_align_value_to_upper_def heap_blocks_def heap_consts unat_div)
  next
    case False
    with m have r: "unat sz mod 4096 \<noteq> 0" by (metis unat_eq_0)
    have "unat (sz - sz mod 4096) = 4096 * (unat sz div 4096)"
      using m round_up_unaligned(2) [OF r] by (subst unat_sub_u32) simp_all
    moreover have "unat sz div 4096 < 1048575"
      using le r by (intro div_less_iff_less_mult [THEN iffD2]) (auto simp: le_less)
    ultimately have "unat (sz - sz mod 4096 + 4096) = 4096 * Suc (unat sz div 4096)"
      by (subst unat_add_u32) simp_all
    with False round_up_unaligned(1) [OF r] show ?thesis
      by (simp add: heap_align_value_to_upper_def heap_blocks_def heap_consts unat_div)
  qed
qed

lemma heap_blocks_bounds:
  assumes "heap_accepts sz"
  shows "0 < heap_blocks sz" "heap_blocks sz < 1048576" "unat sz \<le> 4096 * heap_blocks sz"
    "4096 * heap_blocks sz < unat sz + 4096"
proof -
  have "(unat sz + 4095) div 4096 * 4096 + (unat sz + 4095) mod 4096 = unat sz + 4095" by simp
  moreover have "(unat sz + 4095) mod 4096 < 4096" by simp
  moreover have "0 < unat sz" "unat sz \<le> 4294963200" using assms by (simp_all add: heap_accepts_unat)
  ultimately show "0 < heap_blocks sz" "heap_blocks sz < 1048576" "unat sz \<le> 4096 * heap_blocks sz"
    "4096 * heap_blocks sz < unat sz + 4096"
    unfolding heap_blocks_def by linarith+
qed

lemma heap_wf_total: "heap_wf h \<Longrightarrow> unat (total (table h)) < 1048576"
  using unat_gt_0 [of "saddr h"] by (simp add: heap_wf_def)

lemma heap_wf_address:
  assumes "heap_wf h" and "b < unat (total (table h))"
  shows "unat (heap_block_to_address h b) = unat (saddr h) + 4096 * b"
    and "heap_block_to_address h b \<noteq> 0" and "heap_validate_alignment (heap_block_to_address h b)"
proof -
  have b: "unat (saddr h) + 4096 * b < 2 ^ 32" using assms by (auto simp: heap_wf_def)
  then have "unat (of_nat b * (4096 :: u32)) = 4096 * b"
    by (subst unat_mult_lem [THEN iffD1]) (simp_all add: unat_of_nat)
  with b show u: "unat (heap_block_to_address h b) = unat (saddr h) + 4096 * b"
    by (simp add: heap_block_to_address_def heap_consts) (subst unat_add_lem [THEN iffD1], simp_all)
  have "0 < unat (saddr h)" using assms by (simp add: heap_wf_def unat_gt_0)
  with u show "heap_block_to_address h b \<noteq> 0" by (metis add_is_0 neq0_conv unat_0)
  have "unat (saddr h) mod 4096 = 0"
    using assms by (simp add: heap_wf_def heap_validate_alignment_def heap_consts
        word_unat_eq_iff unat_mod)
  with u show "heap_validate_alignment (heap_block_to_address h b)"
    by (simp add: heap_validate_alignment_def heap_consts word_unat_eq_iff unat_mod)
qed

lemma free_run_split:
  assumes "table_ok es" and "free_run es j n"
  shows "es = take j es @ replicate n 0 @ drop (j + n) es" and "0 < n \<Longrightarrow> table_ok (take j es)"
proof -
  have "take n (drop j es) = replicate n 0"
  proof (rule nth_equalityI)
    fix k assume "k < length (take n (drop j es))"
    with assms(2) have "k < n" "j + k < length es" "entry_free (es ! (j + k))"
      by (auto simp: free_run_def)
    then show "take n (drop j es) ! k = replicate n 0 ! k"
      using assms(1) table_free_entry [of es "es ! (j + k)"] by (simp add: entry_free_def)
  qed (use assms(2) in \<open>auto simp: free_run_def\<close>)
  then show split: "es = take j es @ replicate n 0 @ drop (j + n) es"
    by (metis append_take_drop_id drop_drop add.commute)
  show "table_ok (take j es)" if "0 < n"
  proof -
    from that obtain m where "n = Suc m" by (cases n) auto
    with split assms(1) have "table_ok (take j es @ 0 # (replicate m 0 @ drop (j + n) es))"
      by simp
    then show ?thesis by (rule table_ok_before_free)
  qed
qed

text \<open>The allocator in closed form: refuse, or turn the first fitting free blocks into a run.\<close>

definition heap_place :: "heap \<Rightarrow> nat \<Rightarrow> nat \<Rightarrow> heap" where
  "heap_place h j n = h\<lparr>table := (table h)\<lparr>entries :=
     take j (entries (table h)) @ run_entries n @ drop (j + n) (entries (table h))\<rparr>\<rparr>"

lemma heap_mark_blocks_taken_place:
  assumes "heap_wf h" and "free_run (entries (table h)) j (unat n)" and "n \<noteq> 0"
  shows "heap_mark_blocks_taken h j n = heap_place h j (unat n)"
proof -
  let ?es = "entries (table h)"
  have n: "0 < unat n" "unat n < 1048576"
    using assms heap_wf_total [OF assms(1)] by (auto simp: unat_gt_0 free_run_def heap_wf_def)
  then have sint: "sint n = int (unat n)"
    by (intro sint_u32_small) simp
  have len: "length (take j ?es) = j" using assms(2) by (auto simp: free_run_def)
  have "heap_mark_taken_loop ?es (int j) (int j + int (unat n) - 1) e
      = take j ?es @ marks e (unat n) @ drop (j + unat n) ?es" for e
    using heap_mark_taken_loop_marks [of "take j ?es" "replicate (unat n) 0" "drop (j + unat n) ?es" e]
      free_run_split(1) [of ?es j "unat n"] assms len by (simp add: heap_wf_def)
  moreover have "uint n = int (unat n)" by simp
  then have "1 < uint n \<longleftrightarrow> Suc 0 < unat n" by linarith
  ultimately show ?thesis
    using marks_run [OF n(1)] sint
    by (simp add: heap_mark_blocks_taken_def heap_place_def heap_consts Let_def split: if_splits)
qed

lemma heap_malloc_eq:
  assumes "heap_wf h"
  shows "heap_malloc h sz =
    (if heap_accepts sz \<and> heap_fits h sz
     then let j = LEAST j. free_run (entries (table h)) j (heap_blocks sz)
          in (heap_block_to_address h j, heap_place h j (heap_blocks sz))
     else (0, h))"
proof (cases "heap_accepts sz")
  case True
  let ?n = "heap_align_value_to_upper sz div RORTHOX_HEAP_BLOCK_SIZE"
  let ?fr = "\<lambda>j. free_run (entries (table h)) j (heap_blocks sz)"
  from True have le: "sz \<le> 0xFFFFF000" by (simp add: heap_accepts_def)
  then have n: "unat ?n = heap_blocks sz" by (rule heap_total_blocks)
  with heap_blocks_bounds(1) [OF True] have n0: "?n \<noteq> 0" by (metis less_irrefl unat_0)
  have m: "heap_malloc h sz = heap_malloc_blocks h ?n"
    using linorder_not_less [THEN iffD2, OF le] n0
    by (simp add: heap_malloc_def Let_def heap_consts UINT32_MAX_def)
  have g: "heap_get_start_block h ?n =
      (if heap_fits h sz then Inr (LEAST j. ?fr j) else Inl ENOMEM)"
    using heap_get_start_block_spec [OF _ n0, of h] assms n
    by (simp add: heap_wf_def heap_fits_def)
  have "heap_mark_blocks_taken h (LEAST j. ?fr j) ?n = heap_place h (LEAST j. ?fr j) (heap_blocks sz)"
    if "heap_fits h sz"
  proof -
    from that have "?fr (LEAST j. ?fr j)" unfolding heap_fits_def by (rule LeastI_ex)
    then show ?thesis using heap_mark_blocks_taken_place [OF assms _ n0] n by simp
  qed
  then show ?thesis using True by (simp add: m heap_malloc_blocks_def g Let_def)
next
  case False
  then consider "sz = 0" | "0xFFFFF000 < sz" by (auto simp: heap_accepts_def not_le)
  then show ?thesis using False
    by cases (simp_all add: heap_malloc_def Let_def heap_consts UINT32_MAX_def heap_align_value_to_upper_def)
qed

lemma heap_place_simps [simp]:
  "saddr (heap_place h j n) = saddr h"
  "total (table (heap_place h j n)) = total (table h)"
  "heap_block_to_address (heap_place h j n) b = heap_block_to_address h b"
  by (simp_all add: heap_place_def heap_block_to_address_def)

lemma heap_live_place:
  assumes wf: "heap_wf h" and fr: "free_run (entries (table h)) j n" and n: "0 < n"
  shows "heap_wf (heap_place h j n)"
    and "heap_live (heap_place h j n) = insert (heap_block_to_address h j, 4096 * n) (heap_live h)"
    and "j + n \<le> unat (total (table h))"
proof -
  let ?es = "entries (table h)"
  have ok: "table_ok ?es" and len: "length ?es = unat (total (table h))"
    using wf by (simp_all add: heap_wf_def)
  show le: "j + n \<le> unat (total (table h))" using fr len by (simp add: free_run_def)
  note split = free_run_split [OF ok fr]
  have lj: "length (take j ?es) = j" using le len by simp
  have "table_ok (take j ?es @ run_entries n @ drop (j + n) ?es)"
    using table_ok_replace [of "take j ?es" "replicate n 0" "drop (j + n) ?es" "run_entries n"]
      split n ok table_run_zeros [of n] table_run_run_entries [OF n]
    by (simp add: table_ok_def)
  then show "heap_wf (heap_place h j n)"
    using wf le len n by (simp add: heap_wf_def heap_place_def length_run_entries)
  have "set (runs 0 (take j ?es @ run_entries n @ drop (j + n) ?es)) = insert (j, n) (set (runs 0 ?es))"
    using runs_replace [OF split(2) [OF n] n, of 0 "drop (j + n) ?es"] split(1) lj by simp
  then show "heap_live (heap_place h j n) = insert (heap_block_to_address h j, 4096 * n) (heap_live h)"
    by (simp add: heap_live_def heap_place_def heap_block_to_address_def)
qed

lemma heap_live_cases:
  assumes "heap_wf h" and "(p, k) \<in> heap_live h"
  obtains b n where "(b, n) \<in> set (runs 0 (entries (table h)))" "p = heap_block_to_address h b"
    "k = 4096 * n" "0 < n" "b + n \<le> unat (total (table h))" "unat p = unat (saddr h) + 4096 * b"
proof -
  from assms(2) obtain b n where bn: "(b, n) \<in> set (runs 0 (entries (table h)))"
    "p = heap_block_to_address h b" "k = 4096 * n" by (auto simp: heap_live_def)
  then have "0 < n \<and> b + n \<le> unat (total (table h))"
    using runs_bound [of "entries (table h)" b n] assms(1) by (simp add: heap_wf_def)
  then show ?thesis using that [OF bn] bn heap_wf_address(1) [OF assms(1), of b] by simp
qed

lemma heap_live_region:
  assumes "heap_wf h" and "(p, k) \<in> heap_live h"
  shows "p \<noteq> 0" "0 < k" "heap_validate_alignment p" "unat (saddr h) \<le> unat p"
    "unat p + k \<le> unat (saddr h) + 4096 * unat (total (table h))" "unat p + k \<le> 2 ^ 32"
proof -
  from assms obtain b n where b: "p = heap_block_to_address h b" "k = 4096 * n" "0 < n"
    "b + n \<le> unat (total (table h))" "unat p = unat (saddr h) + 4096 * b"
    by (rule heap_live_cases)
  then have "b < unat (total (table h))" by simp
  from heap_wf_address(2,3) [OF assms(1) this] b show "p \<noteq> 0" "heap_validate_alignment p" by simp_all
  from b show "0 < k" "unat (saddr h) \<le> unat p" by simp_all
  from b show "unat p + k \<le> unat (saddr h) + 4096 * unat (total (table h))" by simp
  also have "\<dots> \<le> 2 ^ 32" using assms(1) by (simp add: heap_wf_def)
  finally show "unat p + k \<le> 2 ^ 32" .
qed

lemma heap_live_disjoint:
  assumes "heap_wf h" and "(p, k) \<in> heap_live h" and "(q, l) \<in> heap_live h"
  shows "(p, k) = (q, l) \<or> unat p + k \<le> unat q \<or> unat q + l \<le> unat p"
proof -
  from assms(1,2) obtain b n where b: "(b, n) \<in> set (runs 0 (entries (table h)))"
    "p = heap_block_to_address h b" "k = 4096 * n" "unat p = unat (saddr h) + 4096 * b"
    by (rule heap_live_cases)
  from assms(1,3) obtain c m where c: "(c, m) \<in> set (runs 0 (entries (table h)))"
    "q = heap_block_to_address h c" "l = 4096 * m" "unat q = unat (saddr h) + 4096 * c"
    by (rule heap_live_cases)
  from runs_disjoint [OF _ b(1) c(1)] assms(1)
  have "(b, n) = (c, m) \<or> b + n \<le> c \<or> c + m \<le> b" by (simp add: heap_wf_def)
  then show ?thesis using b c by auto
qed


lemma heap_free_block:
  assumes wf: "heap_wf h" and b: "b < unat (total (table h))"
  shows "heap_free h (heap_block_to_address h b) =
    (if entries (table h) ! b AND 0x40 = 0 then h else heap_mark_blocks_free h b)"
proof -
  let ?p = "heap_block_to_address h b"
  note adr = heap_wf_address [OF wf b]
  have u: "unat (?p - saddr h) = 4096 * b" using adr(1) by (subst unat_sub_u32) simp_all
  have blk: "unat ((?p - saddr h) div RORTHOX_HEAP_BLOCK_SIZE) = b"
    using u by (simp add: unat_div heap_consts)
  have lt: "\<not> ?p < saddr h" "\<not> total (table h) \<le> (?p - saddr h) div RORTHOX_HEAP_BLOCK_SIZE"
    using adr(1) b blk by (simp_all add: word_less_nat_alt word_le_nat_alt)
  have "entries (table h) ! b \<in> {0x00, 0x41, 0xC1, 0x81, 0x01}"
    using table_run_entry [of False "entries (table h)" False] wf b
    by (simp add: heap_wf_def table_ok_def)
  then have "(heap_get_entry_type (entries (table h) ! b) \<noteq> HEAP_BLOCK_TABLE_ENTRY_TAKEN
       \<or> entries (table h) ! b AND HEAP_BLOCK_IS_FIRST = 0) \<longleftrightarrow> entries (table h) ! b AND 0x40 = 0"
    by (auto simp: heap_get_entry_type_def heap_consts)
  then show ?thesis
    unfolding heap_free_def Let_def blk using adr(2,3) lt by simp
qed

lemma heap_wf_cleared:
  assumes wf: "heap_wf h" and es: "entries (table h) = pre @ run_entries n @ post"
    and n: "0 < n" and ok: "table_ok pre" "table_ok post"
  defines "h' \<equiv> h\<lparr>table := (table h)\<lparr>entries := pre @ replicate n 0 @ post\<rparr>\<rparr>"
  shows "heap_wf h'"
    and "heap_live h = insert (heap_block_to_address h (length pre), 4096 * n) (heap_live h')"
proof -
  have "table_ok (pre @ replicate n 0 @ post)"
    using ok table_run_zeros [of n] by (simp add: table_ok_append) (simp add: table_ok_def table_run_append)
  then show "heap_wf h'"
    using wf es n by (simp add: heap_wf_def h'_def length_run_entries)
  show "heap_live h = insert (heap_block_to_address h (length pre), 4096 * n) (heap_live h')"
    using runs_replace [OF ok(1) n, of 0 post] es
    by (simp add: heap_live_def h'_def heap_block_to_address_def)
qed

lemma heap_wf_fresh:
  assumes wf: "heap_wf h" and fr: "free_run (entries (table h)) j n" and n: "0 < n"
  shows "heap_block_to_address h j \<notin> fst ` heap_live h"
proof
  assume "heap_block_to_address h j \<in> fst ` heap_live h"
  then obtain k where "(heap_block_to_address h j, k) \<in> heap_live h" by auto
  with wf obtain b m where b: "(b, m) \<in> set (runs 0 (entries (table h)))"
    "unat (heap_block_to_address h j) = unat (saddr h) + 4096 * b" by (rule heap_live_cases)
  have j: "j < unat (total (table h))" "j < length (entries (table h))" "entry_free (entries (table h) ! j)"
    using wf fr n by (auto simp: free_run_def heap_wf_def)
  then have "b = j" using b(2) heap_wf_address(1) [OF wf j(1)] by simp
  with b(1) runs_start [OF j(2), of 0] have "entries (table h) ! j AND 0x40 \<noteq> 0" by auto
  moreover have "entries (table h) ! j = 0"
    using table_free_entry [of "entries (table h)"] wf j by (simp add: heap_wf_def entry_free_def)
  ultimately show False by simp
qed

lemma heap_free_live:
  assumes wf: "heap_wf h" and live: "(p, k) \<in> heap_live h"
  shows "heap_wf (heap_free h p)" and "heap_live h = insert (p, k) (heap_live (heap_free h p))"
    and "(p, k) \<notin> heap_live (heap_free h p)"
proof -
  let ?es = "entries (table h)"
  from wf live obtain b n where b: "(b, n) \<in> set (runs 0 ?es)" "p = heap_block_to_address h b"
    "k = 4096 * n" "0 < n" "b + n \<le> unat (total (table h))" by (rule heap_live_cases)
  from wf have ok: "table_ok ?es" "length ?es = unat (total (table h))" by (simp_all add: heap_wf_def)
  from run_segment [OF ok(1) b(1)] obtain pre post where
    es: "?es = pre @ run_entries n @ post" "length pre = b" "table_ok pre" "table_ok post" by blast
  let ?h = "h\<lparr>table := (table h)\<lparr>entries := pre @ replicate n 0 @ post\<rparr>\<rparr>"
  have "?es ! b AND 0x40 \<noteq> 0" using runs_start [of b ?es 0] b ok by auto
  then have free: "heap_free h p = ?h"
    using heap_free_block [OF wf, of b] b es heap_mark_free_loop_run [OF b(4), of pre "unat (total (table h))" post]
    by (simp add: heap_mark_blocks_free_def)
  note c = heap_wf_cleared [OF wf es(1) b(4) es(3,4)]
  show "heap_wf (heap_free h p)" using c(1) free by simp
  show "heap_live h = insert (p, k) (heap_live (heap_free h p))" using c(2) free b es by simp
  have "free_run (pre @ replicate n 0 @ post) b n"
    using es(2) by (auto simp: free_run_def nth_append entry_free_def heap_get_entry_type_def heap_consts)
  from heap_wf_fresh [OF c(1) _ b(4), of b] this b es(2) free
  show "(p, k) \<notin> heap_live (heap_free h p)"
    by (force simp: heap_block_to_address_def)
qed

lemma heap_free_dead:
  assumes wf: "heap_wf h" and dead: "p \<notin> fst ` heap_live h"
  shows "heap_free h p = h"
proof (cases "p = 0 \<or> \<not> heap_validate_alignment p \<or> p < saddr h
    \<or> total (table h) \<le> (p - saddr h) div RORTHOX_HEAP_BLOCK_SIZE")
  case True
  then show ?thesis by (auto simp: heap_free_def Let_def)
next
  case False
  define b where "b = unat ((p - saddr h) div RORTHOX_HEAP_BLOCK_SIZE)"
  from False have le: "unat (saddr h) \<le> unat p" "b < unat (total (table h))"
    by (auto simp: b_def word_less_nat_alt word_le_nat_alt not_less not_le)
  have al: "unat p mod 4096 = 0" "unat (saddr h) mod 4096 = 0"
    using False wf by (simp_all add: heap_wf_def heap_validate_alignment_def heap_consts
        word_unat_eq_iff unat_mod)
  have "b = (unat p - unat (saddr h)) div 4096"
    using le by (simp add: b_def unat_div heap_consts unat_sub_u32)
  moreover have "(unat p - unat (saddr h)) mod 4096 = 0"
    using al by (metis mod_0_imp_dvd dvd_diff_nat mod_eq_0_iff_dvd)
  ultimately have "unat p = unat (saddr h) + 4096 * b" using le by auto
  then have p: "p = heap_block_to_address h b"
    using heap_wf_address(1) [OF wf le(2)] by (simp add: word_unat_eq_iff)
  have "entries (table h) ! b AND 0x40 = 0"
  proof (rule ccontr)
    assume "\<not> ?thesis"
    then obtain n where "(b, n) \<in> set (runs 0 (entries (table h)))"
      using runs_start [of b "entries (table h)" 0] le wf by (auto simp: heap_wf_def)
    then have "(p, 4096 * n) \<in> heap_live h" unfolding p heap_live_def by force
    with dead show False by force
  qed
  then show ?thesis using heap_free_block [OF wf le(2)] p by simp
qed

lemma heap_free_malloc:
  assumes wf: "heap_wf h" and m: "heap_malloc h sz = (p, h')"
  shows "heap_free h' p = h"
proof (cases "heap_accepts sz \<and> heap_fits h sz")
  case False
  with m heap_malloc_eq [OF wf] have "p = 0" "h' = h" by (auto split: if_splits)
  then show ?thesis by (simp add: heap_free_def)
next
  case True
  let ?n = "heap_blocks sz" and ?es = "entries (table h)"
  define j where "j = (LEAST j. free_run ?es j ?n)"
  have n: "0 < ?n" using True heap_blocks_bounds by simp
  from m heap_malloc_eq [OF wf, of sz] True
  have p: "p = heap_block_to_address h j" "h' = heap_place h j ?n" by (auto simp: j_def Let_def)
  have fr: "free_run ?es j ?n"
    using True unfolding heap_fits_def j_def by (auto intro: LeastI_ex)
  note pl = heap_live_place [OF wf fr n]
  have ok: "table_ok ?es" "length ?es = unat (total (table h))" using wf by (simp_all add: heap_wf_def)
  have es: "entries (table h') = take j ?es @ run_entries ?n @ drop (j + ?n) ?es"
    by (simp add: p heap_place_def)
  have len: "length (take j ?es) = j" using pl(3) ok by simp
  have "entries (table h') ! j AND 0x40 \<noteq> 0"
    unfolding es using pl(3) ok by (simp add: nth_append run_entries_def min.absorb2)
  then have "heap_free h' p = heap_mark_blocks_free h' j"
    using heap_free_block [OF pl(1), of j] p pl(3) n by simp
  also have "\<dots> = h"
    using heap_mark_free_loop_run [OF n, of "take j ?es" "unat (total (table h))" "drop (j + ?n) ?es"]
      len pl(3) free_run_split(1) [OF ok(1) fr] es
    by (simp add: heap_mark_blocks_free_def p(2) heap_place_def)
  finally show ?thesis .
qed


lemma heap_malloc_cases:
  assumes "heap_wf h" and "heap_malloc h sz = (p, h')"
  obtains (fail) "\<not> (heap_accepts sz \<and> heap_fits h sz)" "p = 0" "h' = h"
  | (ok) j where "heap_accepts sz" "free_run (entries (table h)) j (heap_blocks sz)"
      "\<And>i. free_run (entries (table h)) i (heap_blocks sz) \<Longrightarrow> j \<le> i"
      "0 < heap_blocks sz" "j < unat (total (table h))"
      "p = heap_block_to_address h j" "h' = heap_place h j (heap_blocks sz)"
proof (cases "heap_accepts sz \<and> heap_fits h sz")
  case False
  with assms(2) heap_malloc_eq [OF assms(1)] show ?thesis by (intro fail) (auto split: if_splits)
next
  case True
  define j where "j = (LEAST j. free_run (entries (table h)) j (heap_blocks sz))"
  have fr: "free_run (entries (table h)) j (heap_blocks sz)"
    using True unfolding heap_fits_def j_def by (auto intro: LeastI_ex)
  have n: "0 < heap_blocks sz" using True heap_blocks_bounds by simp
  show ?thesis
  proof (rule ok [of j])
    show "j \<le> i" if "free_run (entries (table h)) i (heap_blocks sz)" for i
      unfolding j_def using that by (rule Least_le)
    show "j < unat (total (table h))" using heap_live_place(3) [OF assms(1) fr n] n by simp
  qed (use True fr n assms(2) heap_malloc_eq [OF assms(1), of sz] in \<open>auto simp: j_def Let_def\<close>)
qed

lemma heap_malloc_wf:
  assumes "heap_wf h" and "heap_malloc h sz = (p, h')"
  shows "heap_wf h'"
  by (rule heap_malloc_cases [OF assms]) (auto simp: assms heap_live_place)

lemma heap_malloc_null:
  assumes "heap_wf h" and "heap_malloc h sz = (p, h')"
  shows "p = 0 \<longleftrightarrow> \<not> (heap_accepts sz \<and> heap_fits h sz)" and "p = 0 \<Longrightarrow> h' = h"
proof -
  show "p = 0 \<longleftrightarrow> \<not> (heap_accepts sz \<and> heap_fits h sz)"
    using assms
  proof (cases rule: heap_malloc_cases)
    case (ok j)
    then show ?thesis using heap_wf_address(2) [OF assms(1) ok(5)] by (auto simp: heap_fits_def)
  qed auto
  then show "p = 0 \<Longrightarrow> h' = h" using assms heap_malloc_eq by auto
qed

lemma heap_malloc_live:
  assumes "heap_wf h" and "heap_malloc h sz = (p, h')" and "p \<noteq> 0"
  shows "p \<notin> fst ` heap_live h" and "heap_live h' = insert (p, 4096 * heap_blocks sz) (heap_live h)"
    and "unat sz \<le> 4096 * heap_blocks sz"
  by (rule heap_malloc_cases [OF assms(1,2)],
      simp_all add: assms(1,3) heap_live_place heap_wf_fresh heap_blocks_bounds)+

lemma heap_free_wf: "heap_wf h \<Longrightarrow> heap_wf (heap_free h p)"
  by (cases "p \<in> fst ` heap_live h") (auto simp: heap_free_dead intro: heap_free_live(1))

lemma heap_free_live_eq:
  assumes "heap_wf h"
  shows "heap_live (heap_free h p) = {r \<in> heap_live h. fst r \<noteq> p}"
proof (cases "p \<in> fst ` heap_live h")
  case True
  then obtain k where k: "(p, k) \<in> heap_live h" by auto
  note f = heap_free_live [OF assms k]
  have "fst r \<noteq> p" if "r \<in> heap_live (heap_free h p)" for r
  proof
    assume "fst r = p"
    with that obtain l where "(p, l) \<in> heap_live (heap_free h p)" by (cases r) auto
    with f have "(p, l) \<in> heap_live h" "l \<noteq> k" by auto
    with heap_live_disjoint [OF assms k this(1)] heap_live_region(2) [OF assms]
      k show False by fastforce
  qed
  with f(2) show ?thesis by auto
next
  case False
  then show ?thesis by (force simp: heap_free_dead [OF assms])
qed

interpretation kernel_pool: region_allocator heap_malloc heap_free heap_wf heap_live
proof (unfold_locales, goal_cases)
  case (3 h n p h')
  then show ?case using heap_malloc_live(1) by blast
next
  case (4 h n p h')
  then show ?case using heap_malloc_live by blast
next
  case (8 h p k)
  then show ?case using heap_live_region by simp
qed (auto simp: heap_malloc_null heap_free_dead heap_free_live_eq
    dest: heap_malloc_wf heap_malloc_live(1) heap_live_disjoint intro: heap_free_wf)


section \<open>Creating a heap\<close>

lemma heap_create_wf:
  assumes al: "heap_validate_alignment ptr" "heap_validate_alignment end_ptr"
    and p: "ptr \<noteq> 0" "ptr \<le> end_ptr"
    and t: "total tab = (end_ptr - ptr) div 4096" "length (entries tab) = unat (total tab)"
  shows "fst (heap_create h ptr end_ptr tab) = Inr ()"
    and "heap_wf (snd (heap_create h ptr end_ptr tab))"
    and "heap_live (snd (heap_create h ptr end_ptr tab)) = {}"
proof -
  have eq: "heap_create h ptr end_ptr tab =
      (Inr (), \<lparr>table = tab\<lparr>entries := replicate (unat (total tab)) 0\<rparr>, saddr = ptr\<rparr>)"
    using al t by (simp add: heap_create_def heap_validate_table_def Let_def heap_consts)
  then show "fst (heap_create h ptr end_ptr tab) = Inr ()"
    and "heap_live (snd (heap_create h ptr end_ptr tab)) = {}"
    by (simp_all add: heap_live_def runs_zeros)
  have le: "unat ptr \<le> unat end_ptr" using p by (simp add: word_le_nat_alt)
  have "4096 * unat (total tab) \<le> unat end_ptr - unat ptr"
    using le by (simp add: t(1) unat_div unat_sub_u32)
  then have "unat ptr + 4096 * unat (total tab) \<le> 2 ^ 32"
    using le unat_u32_less [of end_ptr] by simp
  then show "heap_wf (snd (heap_create h ptr end_ptr tab))"
    using al p unfolding eq by (simp add: heap_wf_def table_ok_def table_run_zeros)
qed

section \<open>The abstract pool\<close>

text \<open>
  The specification of the pool between two addresses: an allocation returns NULL, or any region of
  at least the requested size inside the pool that overlaps no live region; a release removes the
  live region at that address, if there is one.
\<close>

datatype heap_op = Malloc u32 | Free u32

inductive pool_step :: "nat \<Rightarrow> nat \<Rightarrow> (u32 \<times> nat) set \<Rightarrow> heap_op \<Rightarrow> u32 \<Rightarrow> (u32 \<times> nat) set \<Rightarrow> bool"
  for lo hi where
  alloc: "\<lbrakk>p \<noteq> 0; unat n \<le> k; lo \<le> unat p; unat p + k \<le> hi;
     \<forall>(q, l) \<in> R. unat p + k \<le> unat q \<or> unat q + l \<le> unat p\<rbrakk>
   \<Longrightarrow> pool_step lo hi R (Malloc n) p (insert (p, k) R)"
| null: "pool_step lo hi R (Malloc n) 0 R"
| free: "pool_step lo hi R (Free p) 0 {r \<in> R. fst r \<noteq> p}"

inductive pool_run :: "nat \<Rightarrow> nat \<Rightarrow> (u32 \<times> nat) set \<Rightarrow> (heap_op \<times> u32) list \<Rightarrow> (u32 \<times> nat) set \<Rightarrow> bool"
  for lo hi where
  nil: "pool_run lo hi R [] R"
| step: "pool_step lo hi R a p R' \<Longrightarrow> pool_run lo hi R' as R'' \<Longrightarrow> pool_run lo hi R ((a, p) # as) R''"

text \<open>The allocator run on a sequence of requests, with the pointer each of them returned.\<close>

fun heap_exec_op :: "heap \<Rightarrow> heap_op \<Rightarrow> u32 \<times> heap" where
  "heap_exec_op h (Malloc n) = heap_malloc h n"
| "heap_exec_op h (Free p) = (0, heap_free h p)"

fun heap_exec :: "heap \<Rightarrow> heap_op list \<Rightarrow> (heap_op \<times> u32) list \<times> heap" where
  "heap_exec h [] = ([], h)"
| "heap_exec h (a # as) =
     (let (p, h1) = heap_exec_op h a; (tr, h2) = heap_exec h1 as in ((a, p) # tr, h2))"

lemma heap_malloc_geometry:
  assumes "heap_wf h" and "heap_malloc h n = (p, h')"
  shows "saddr h' = saddr h" "total (table h') = total (table h)"
  by (rule heap_malloc_cases [OF assms]; simp)+

lemma heap_free_geometry [simp]:
  "saddr (heap_free h p) = saddr h" "total (table (heap_free h p)) = total (table h)"
  by (simp_all add: heap_free_def heap_mark_blocks_free_def Let_def)

lemma heap_exec_op_refines:
  assumes wf: "heap_wf h" and op: "heap_exec_op h a = (p, h')"
  shows "heap_wf h' \<and> saddr h' = saddr h \<and> total (table h') = total (table h)
    \<and> pool_step (unat (saddr h)) (unat (saddr h) + 4096 * unat (total (table h)))
        (heap_live h) a p (heap_live h')"
proof (cases a)
  case (Malloc n)
  with op have m: "heap_malloc h n = (p, h')" by simp
  note g = heap_malloc_wf [OF wf m] heap_malloc_geometry [OF wf m]
  show ?thesis
  proof (cases "p = 0")
    case True
    with heap_malloc_null(2) [OF wf m] Malloc wf show ?thesis by (simp add: pool_step.null)
  next
    case False
    note live = heap_malloc_live [OF wf m False]
    have "unat p + 4096 * heap_blocks n \<le> unat q \<or> unat q + k \<le> unat p"
      if "(q, k) \<in> heap_live h" for q k
      using heap_live_disjoint [OF g(1), of p "4096 * heap_blocks n" q k] live that by force
    with live False g heap_live_region(4,5) [OF g(1), of p "4096 * heap_blocks n"] show ?thesis
      unfolding Malloc live(2) by (auto intro!: pool_step.alloc)
  qed
next
  case (Free q)
  with op wf show ?thesis
    by (auto simp: heap_free_wf heap_free_live_eq intro: pool_step.free)
qed

lemma heap_exec_refines:
  assumes "heap_wf h" and "heap_exec h as = (tr, h')"
  shows "heap_wf h' \<and> map fst tr = as
    \<and> pool_run (unat (saddr h)) (unat (saddr h) + 4096 * unat (total (table h))) (heap_live h) tr (heap_live h')"
  using assms
proof (induction as arbitrary: h tr)
  case (Cons a as)
  obtain p h1 where 1: "heap_exec_op h a = (p, h1)" by force
  obtain tr1 where 2: "heap_exec h1 as = (tr1, h')" "tr = (a, p) # tr1"
    using Cons.prems(2) 1 by (auto split: prod.splits)
  note s = heap_exec_op_refines [OF Cons.prems(1) 1]
  from s Cons.IH [OF _ 2(1)] 2(2) show ?case by (auto intro: pool_run.step)
qed (auto intro: pool_run.nil)

section \<open>Properties\<close>

text \<open>
  C1. Allocation. On a well-formed heap, \<^verbatim>\<open>heap_malloc\<close> succeeds exactly when the size is non-zero,
  can be rounded up without wrapping, and enough consecutive free blocks exist. Then the heap stays
  well-formed, the returned region is new, holds the requested size, overlaps no live region, and
  starts at the lowest block where it fits; otherwise the result is NULL and nothing changes.
\<close>

theorem heap_malloc_correct:
  assumes "heap_wf h" and "heap_malloc h sz = (p, h')"
  shows "if heap_accepts sz \<and> heap_fits h sz
    then heap_wf h' \<and> unat sz \<le> 4096 * heap_blocks sz
       \<and> heap_live h' = insert (p, 4096 * heap_blocks sz) (heap_live h)
       \<and> (\<forall>(q, k) \<in> heap_live h. unat p + 4096 * heap_blocks sz \<le> unat q \<or> unat q + k \<le> unat p)
       \<and> (\<forall>j. free_run (entries (table h)) j (heap_blocks sz) \<longrightarrow> p \<le> heap_block_to_address h j)
    else p = 0 \<and> h' = h"
proof (cases "heap_accepts sz \<and> heap_fits h sz")
  case True
  then have p0: "p \<noteq> 0" using heap_malloc_null(1) [OF assms] by simp
  note live = heap_malloc_live [OF assms p0] and wf' = heap_malloc_wf [OF assms]
  have "unat p + 4096 * heap_blocks sz \<le> unat q \<or> unat q + k \<le> unat p" if "(q, k) \<in> heap_live h" for q k
    using heap_live_disjoint [OF wf', of p "4096 * heap_blocks sz" q k] live that by force
  moreover have "p \<le> heap_block_to_address h i"
    if fr: "free_run (entries (table h)) i (heap_blocks sz)" for i
    using assms
  proof (cases rule: heap_malloc_cases)
    case (ok j)
    then have "j \<le> i" using fr by blast
    moreover have "i < unat (total (table h))" using heap_live_place(3) [OF assms(1) fr] ok(4) by simp
    ultimately show ?thesis
      using ok heap_wf_address(1) [OF assms(1)] by (simp add: word_le_nat_alt)
  qed (use True in auto)
  ultimately show ?thesis using True live wf' by auto
next
  case False
  then show ?thesis using heap_malloc_null [OF assms] by auto
qed


text \<open>A pool of four blocks at the kernel's heap address, its second block allocated.\<close>

definition heap_example :: heap where
  "heap_example = \<lparr>table = \<lparr>entries = [0, 0x41, 0, 0], total = 4\<rparr>, saddr = 0x01000000\<rparr>"

lemma heap_example_wf: "heap_wf heap_example"
  by (simp add: heap_wf_def heap_example_def table_ok_def heap_validate_alignment_def heap_consts)

lemma heap_example_malloc:
  "heap_malloc heap_example 5000 = (0x01002000, heap_example\<lparr>table := \<lparr>entries = [0, 0x41, 0xC1, 0x01], total = 4\<rparr>\<rparr>)"
  by code_simp

theorem heap_malloc_correct_witness:
  "\<exists>h p h'. heap_wf h \<and> heap_malloc h 5000 = (p, h') \<and> p \<noteq> 0 \<and> heap_live h' = insert (p, 8192) (heap_live h)"
proof -
  have f: "free_run (entries (table heap_example)) 2 (heap_blocks 5000)" by code_simp
  have "heap_accepts 5000 \<and> heap_fits heap_example 5000"
    using f by (auto simp: heap_accepts_def heap_fits_def)
  moreover have "heap_blocks 5000 = 2" by code_simp
  ultimately show ?thesis
    using heap_malloc_correct [OF heap_example_wf heap_example_malloc] heap_example_wf heap_example_malloc
    by (intro exI [of _ heap_example]) auto
qed

text \<open>
  C2. Releasing a pointer right after its allocation restores the heap exactly: every entry of the
  block table is as before (and releasing the NULL of a failed allocation is harmless).
\<close>

theorem heap_free_malloc_roundtrip:
  assumes "heap_wf h"
  shows "heap_free (snd (heap_malloc h sz)) (fst (heap_malloc h sz)) = h"
  using heap_free_malloc [OF assms, of sz] by (cases "heap_malloc h sz") simp

theorem heap_free_malloc_roundtrip_witness:
  "heap_free (snd (heap_malloc heap_example 5000)) 0x01002000 = heap_example"
  using heap_free_malloc_roundtrip [OF heap_example_wf, of 5000] by (simp add: heap_example_malloc)

text \<open>
  C3. \<^verbatim>\<open>heap_free\<close> on any pointer, valid or not: the heap stays well-formed, exactly the live region
  that starts at the pointer is released, and a pointer that starts no live region (NULL, unaligned,
  outside the pool, inside a region, already freed) leaves the heap unchanged.
\<close>

theorem heap_free_correct:
  assumes "heap_wf h"
  shows "heap_wf (heap_free h p) \<and> heap_live (heap_free h p) = {r \<in> heap_live h. fst r \<noteq> p}
    \<and> (p \<notin> fst ` heap_live h \<longrightarrow> heap_free h p = h)
    \<and> heap_free (heap_free h p) p = heap_free h p"
  using assms
  by (simp add: heap_free_wf heap_free_live_eq heap_free_dead kernel_pool.free_free)

theorem heap_free_correct_witness:
  "heap_free heap_example 0x01001000 = heap_example\<lparr>table := \<lparr>entries = [0, 0, 0, 0], total = 4\<rparr>\<rparr>
   \<and> heap_wf (heap_free heap_example 0x01001000)
   \<and> heap_free heap_example 0x01001800 = heap_example"
proof -
  have "heap_free heap_example 0x01001000 = heap_example\<lparr>table := \<lparr>entries = [0, 0, 0, 0], total = 4\<rparr>\<rparr>"
    by code_simp
  moreover have "heap_free heap_example 0x01001800 = heap_example" by code_simp
  ultimately show ?thesis using heap_free_correct [OF heap_example_wf, of "0x01001000"] by simp
qed

text \<open>
  C4. Every sequence of allocations and releases on a heap that \<^verbatim>\<open>heap_create\<close> accepted is a run of
  the abstract pool that starts empty: the pointers the code returns are results the specification
  allows, so live regions never overlap and never leave the pool.
\<close>

theorem heap_refines_pool:
  assumes "heap_validate_alignment ptr" and "heap_validate_alignment end_ptr"
    and "ptr \<noteq> 0" and "ptr \<le> end_ptr"
    and "total tab = (end_ptr - ptr) div 4096" and "length (entries tab) = unat (total tab)"
    and "heap_create h ptr end_ptr tab = (r, h0)" and "heap_exec h0 as = (tr, h')"
  shows "r = Inr () \<and> heap_wf h' \<and> map fst tr = as
    \<and> pool_run (unat ptr) (unat ptr + 4096 * unat (total tab)) {} tr (heap_live h')"
proof -
  note c = heap_create_wf [OF assms(1-6), of h, unfolded assms(7)]
  have "saddr h0 = ptr \<and> total (table h0) = total tab"
    using assms(1,2,7) by (auto simp: heap_create_def Let_def split: if_splits sum.splits)
  with heap_exec_refines [OF _ assms(8)] c show ?thesis by simp
qed

theorem heap_refines_pool_witness:
  "\<exists>tr h'. heap_exec (snd (heap_create heap_example 0x01000000 0x01004000 \<lparr>entries = [7, 7, 7, 7], total = 4\<rparr>))
       [Malloc 5000, Malloc 1, Free 0x01000000, Malloc 4096] = (tr, h')
     \<and> map snd tr = [0x01000000, 0x01002000, 0, 0x01000000]
     \<and> pool_run 0x01000000 0x01004000 {} tr (heap_live h')"
proof -
  let ?t = "\<lparr>entries = [7, 7, 7, 7], total = 4\<rparr> :: heap_table"
  let ?a = "[Malloc 5000, Malloc 1, Free 0x01000000, Malloc 4096]"
  let ?h = "heap_create heap_example 0x01000000 0x01004000 ?t"
  have "map snd (fst (heap_exec (snd ?h) ?a)) = [0x01000000, 0x01002000, 0, 0x01000000]" by code_simp
  then show ?thesis
    using heap_refines_pool [of "0x01000000" "0x01004000" ?t heap_example "fst ?h" "snd ?h" ?a
        "fst (heap_exec (snd ?h) ?a)" "snd (heap_exec (snd ?h) ?a)"]
    by (intro exI [of _ "fst (heap_exec (snd ?h) ?a)"] exI [of _ "snd (heap_exec (snd ?h) ?a)"])
      (simp add: heap_validate_alignment_def heap_consts)
qed

end
