(* ===== verification/Kernel_Memory.thy ===== *)
theory Kernel_Memory
  imports Kernel_Heap
begin

text \<open>
  Byte-addressed physical memory with the routines of \<^verbatim>\<open>kernel/memory/memory.c\<close>, and the kernel
  heap of \<^verbatim>\<open>kernel/memory/heap/kheap.c\<close> on top of it. Addresses are 32-bit and wrap; a
  \<^verbatim>\<open>uint32_t\<close> in memory is four bytes, least significant first.
\<close>

section \<open>Bytes and words\<close>

type_synonym memory = "u32 \<Rightarrow> u8"

definition read32 :: "memory \<Rightarrow> u32 \<Rightarrow> u32" where
  "read32 m a = ucast (m a) OR push_bit 8 (ucast (m (a + 1)))
     OR push_bit 16 (ucast (m (a + 2))) OR push_bit 24 (ucast (m (a + 3)))"

definition write32 :: "memory \<Rightarrow> u32 \<Rightarrow> u32 \<Rightarrow> memory" where
  "write32 m a v = m(a := ucast v, a + 1 := ucast (drop_bit 8 v),
     a + 2 := ucast (drop_bit 16 v), a + 3 := ucast (drop_bit 24 v))"

section \<open>memory.c\<close>

function memset_loop :: "memory \<Rightarrow> u32 \<Rightarrow> u8 \<Rightarrow> nat \<Rightarrow> nat \<Rightarrow> memory" where
  "memset_loop m ptr c i sz =
     (if i < sz then memset_loop (m(ptr + of_nat i := c)) ptr c (Suc i) sz else m)"
  by pat_completeness auto
termination
  by (relation "measure (\<lambda>(m, ptr, c, i, sz). sz - i)") auto

declare memset_loop.simps [simp del]

definition memset :: "memory \<Rightarrow> u32 \<Rightarrow> int \<Rightarrow> u32 \<Rightarrow> memory" where
  "memset m ptr c sz = memset_loop m ptr (word_of_int c) 0 (unat sz)"

text \<open>\<^verbatim>\<open>char\<close> is signed on this target, so the bytes compare as signed numbers.\<close>

fun memcmp :: "memory \<Rightarrow> u32 \<Rightarrow> u32 \<Rightarrow> nat \<Rightarrow> int" where
  "memcmp m s1 s2 0 = 0"
| "memcmp m s1 s2 (Suc count) =
     (if m s1 \<noteq> m s2 then (if sint (m s1) < sint (m s2) then -1 else 1)
      else memcmp m (s1 + 1) (s2 + 1) count)"

text \<open>
  The copy runs upwards one byte at a time, so an overlapping destination is read after it has been
  written. Lengths are non-negative at every call.
\<close>

fun memcpy :: "memory \<Rightarrow> u32 \<Rightarrow> u32 \<Rightarrow> nat \<Rightarrow> memory" where
  "memcpy m d s 0 = m"
| "memcpy m d s (Suc len) = memcpy (m(d := m s)) (d + 1) (s + 1) len"

section \<open>kheap.c\<close>

text \<open>
  The memory the kernel works on: the heap structure with its block table, the bytes, and the page
  directory that \<^verbatim>\<open>paging_switch\<close> loaded last.
\<close>

record kmem =
  kernel_heap :: heap
  bytes :: memory
  current_directory :: u32

definition RORTHOX_HEAP_SIZE_BYTES :: u32 where
  "RORTHOX_HEAP_SIZE_BYTES = 104857600"

definition RORTHOX_HEAP_ADDRESS :: u32 where
  "RORTHOX_HEAP_ADDRESS = 0x01000000"

text \<open>
  \<open>tab\<close> is what the bytes at \<^verbatim>\<open>RORTHOX_HEAP_TABLE_ADDRESS\<close> hold when the kernel starts. The result
  of \<^verbatim>\<open>heap_create\<close> only decides whether a message is printed.
\<close>

definition kheap_init :: "kmem \<Rightarrow> u8 list \<Rightarrow> unit result \<times> kmem" where
  "kheap_init s tab =
     (let total_table_entries = RORTHOX_HEAP_SIZE_BYTES div RORTHOX_HEAP_BLOCK_SIZE;
          end_ptr = RORTHOX_HEAP_ADDRESS + RORTHOX_HEAP_SIZE_BYTES;
          (res, h) = heap_create (kernel_heap s) RORTHOX_HEAP_ADDRESS end_ptr
                       \<lparr>entries = tab, total = total_table_entries\<rparr>
      in (res, s\<lparr>kernel_heap := h\<rparr>))"

definition kmalloc :: "kmem \<Rightarrow> u32 \<Rightarrow> u32 \<times> kmem" where
  "kmalloc s sz = (let (p, h) = heap_malloc (kernel_heap s) sz in (p, s\<lparr>kernel_heap := h\<rparr>))"

definition kzalloc :: "kmem \<Rightarrow> u32 \<Rightarrow> u32 \<times> kmem" where
  "kzalloc s sz =
     (let (ptr, s1) = kmalloc s sz
      in if ptr = 0 then (0, s1)
         else (ptr, s1\<lparr>bytes := memset (bytes s1) ptr 0x00 sz\<rparr>))"

definition kfree :: "kmem \<Rightarrow> u32 \<Rightarrow> kmem" where
  "kfree s ptr = s\<lparr>kernel_heap := heap_free (kernel_heap s) ptr\<rparr>"

section \<open>Loads, stores and copies in closed form\<close>

lemma u32_add_neq:
  fixes a :: u32
  shows "a + 1 \<noteq> a" "a + 2 \<noteq> a" "a + 3 \<noteq> a" "a + 1 \<noteq> a + 2" "a + 1 \<noteq> a + 3" "a + 2 \<noteq> a + 3"
  by simp_all

lemma read32_write32_same: "read32 (write32 m a v) a = v"
proof -
  have "read32 (write32 m a v) a = ucast (ucast v :: u8) OR push_bit 8 (ucast (ucast (drop_bit 8 v) :: u8))
     OR push_bit 16 (ucast (ucast (drop_bit 16 v) :: u8)) OR push_bit 24 (ucast (ucast (drop_bit 24 v) :: u8))"
    by (simp add: read32_def write32_def u32_add_neq)
  also have "\<dots> = v"
  proof (rule bit_word_eqI)
    fix n assume "n < LENGTH(32)"
    then have "n < 32" by simp
    then consider "n < 8" | "8 \<le> n" "n < 16" | "16 \<le> n" "n < 24" | "24 \<le> n" "n < 32"
      by linarith
    then show "bit (ucast (ucast v :: u8) OR push_bit 8 (ucast (ucast (drop_bit 8 v) :: u8))
       OR push_bit 16 (ucast (ucast (drop_bit 16 v) :: u8)) OR push_bit 24 (ucast (ucast (drop_bit 24 v) :: u8)) :: u32) n
      = bit v n"
      by cases (auto simp: bit_simps)
  qed
  finally show ?thesis .
qed

lemma read32_cong:
  assumes "\<And>i. i < 4 \<Longrightarrow> m (a + of_nat i) = m' (a + of_nat i)"
  shows "read32 m a = read32 m' a"
  using assms [of 0] assms [of 1] assms [of 2] assms [of 3] by (simp add: read32_def)

lemma write32_other: "4 \<le> unat (b - a) \<Longrightarrow> write32 m a v b = m b"
proof -
  assume *: "4 \<le> unat (b - a)"
  have "b \<noteq> a + c" if "unat c < 4" for c using * that by auto
  from this [of 0] this [of 1] this [of 2] this [of 3] show ?thesis by (simp add: write32_def)
qed

lemma read32_write32_other:
  assumes "4 \<le> unat (b - a)" and "4 \<le> unat (a - b)"
  shows "read32 (write32 m a v) b = read32 m b"
proof (rule read32_cong)
  fix i :: nat assume i: "i < 4"
  have "4 \<le> unat (b + of_nat i - a)"
  proof (rule ccontr)
    let ?c = "b + of_nat i - a"
    assume "\<not> ?thesis"
    then have c: "unat ?c < 4" by simp
    have iu: "unat (of_nat i :: u32) = i" using i by (simp add: unat_of_nat_u32)
    show False
    proof (cases "unat ?c \<le> i")
      case True
      then have "unat (a - b) = i - unat ?c"
        using unat_sub_u32 [of ?c "of_nat i"] iu by simp
      then show False using assms(2) i by simp
    next
      case False
      then have "unat (b - a) = unat ?c - i"
        using unat_sub_u32 [of "of_nat i" ?c] iu by simp
      then show False using assms(1) c by simp
    qed
  qed
  then show "write32 m a v (b + of_nat i) = m (b + of_nat i)" by (rule write32_other)
qed

lemma word_offset_eq: "(a :: u32) = p + of_nat i \<Longrightarrow> i < 4294967296 \<Longrightarrow> unat (a - p) = i"
  by (simp add: unat_of_nat_u32)

lemma offset_eq_word: "unat (a - p :: u32) = i \<longleftrightarrow> a = p + of_nat i \<and> i < 4294967296"
proof
  assume "unat (a - p) = i"
  then show "a = p + of_nat i \<and> i < 4294967296" using unat_u32_less [of "a - p"] by auto
qed (simp add: unat_of_nat_u32)

lemma memset_loop_eq:
  assumes "i \<le> sz" and "sz < 4294967296"
  shows "memset_loop m p c i sz = (\<lambda>a. if i \<le> unat (a - p) \<and> unat (a - p) < sz then c else m a)"
  using assms
proof (induction m p c i sz rule: memset_loop.induct)
  case (1 m ptr c i sz)
  show ?case
  proof (cases "i < sz")
    case True
    have i: "(a = ptr + of_nat i) = (unat (a - ptr) = i)" for a
      using offset_eq_word [of a ptr i] True 1(3) by auto
    have IH: "memset_loop (m(ptr + of_nat i := c)) ptr c (Suc i) sz
        = (\<lambda>a. if Suc i \<le> unat (a - ptr) \<and> unat (a - ptr) < sz then c else (m(ptr + of_nat i := c)) a)"
      by (rule 1(1)) (use 1 True in simp_all)
    show ?thesis
      by (subst memset_loop.simps) (use True in \<open>auto simp: IH i fun_eq_iff\<close>)
  next
    case False
    then show ?thesis using 1(2) by (subst memset_loop.simps) (auto simp: fun_eq_iff)
  qed
qed

lemma memset_eq: "memset m p c n = (\<lambda>a. if a - p < n then word_of_int c else m a)"
  by (simp add: memset_def memset_loop_eq unat_u32_less word_less_nat_alt)

text \<open>A copy reads what was there before, unless the destination starts inside the source.\<close>

lemma memcpy_eq:
  assumes "n \<le> unat (d - s)"
  shows "memcpy m d s n = (\<lambda>a. if unat (a - d) < n then m (s + (a - d)) else m a)"
  using assms
proof (induction n arbitrary: m d s)
  case (Suc n)
  define m' where "m' = m(d := m s)"
  have m': "m' x = (if x = d then m s else m x)" for x by (simp add: m'_def)
  have "memcpy m' (d + 1) (s + 1) n a = (if unat (a - d) < Suc n then m (s + (a - d)) else m a)" for a
  proof -
    have eq: "s + 1 + (a - (d + 1)) = s + (a - d)" by simp
    have "n \<le> unat (d + 1 - (s + 1))" using Suc.prems by simp
    from fun_cong [OF Suc.IH [OF this, of m'], of a]
    have IH: "memcpy m' (d + 1) (s + 1) n a = (if unat (a - (d + 1)) < n then m' (s + (a - d)) else m' a)"
      unfolding eq .
    show ?thesis
    proof (cases "a = d")
      case True
      have "n < 4294967295" using Suc.prems unat_u32_less [of "d - s"] by linarith
      moreover have "unat (a - (d + 1)) = 4294967295" unfolding True by (simp add: unsigned_minus_1_eq_mask mask_eq_exp_minus_1)
      ultimately show ?thesis unfolding IH unfolding True m' by simp
    next
      case False
      then have pos: "0 < unat (a - d)" by (simp add: unat_gt_0)
      then have u: "unat (a - (d + 1)) = unat (a - d) - 1"
        using unat_sub_u32 [of 1 "a - d"] by (simp add: diff_diff_add)
      have "s + (a - d) \<noteq> d" if "unat (a - d) < Suc n"
      proof
        assume "s + (a - d) = d"
        then have "d - s = a - d" by (metis add_diff_cancel_left')
        with that Suc.prems show False by simp
      qed
      then show ?thesis using IH False pos unfolding u by (auto simp: m')
    qed
  qed
  then show ?case by (simp add: fun_eq_iff flip: m'_def)
qed simp

section \<open>The kernel heap\<close>

definition kmem_wf :: "kmem \<Rightarrow> bool" where
  "kmem_wf s \<longleftrightarrow> heap_wf (kernel_heap s)"

definition klive :: "kmem \<Rightarrow> (u32 \<times> nat) set" where
  "klive s = heap_live (kernel_heap s)"

text \<open>
  The contract of an allocator that clears what it returns: the requested bytes are zero, all others
  are kept, and a release does not touch memory.
\<close>

locale zeroing_allocator = region_allocator malloc free inv live
  for malloc :: "'h \<Rightarrow> u32 \<Rightarrow> u32 \<times> 'h" and free :: "'h \<Rightarrow> u32 \<Rightarrow> 'h"
    and inv :: "'h \<Rightarrow> bool" and live :: "'h \<Rightarrow> (u32 \<times> nat) set" +
  fixes byte :: "'h \<Rightarrow> memory"
  assumes malloc_bytes: "inv h \<Longrightarrow> malloc h n = (p, h') \<Longrightarrow> p \<noteq> 0 \<Longrightarrow>
      byte h' a = (if a - p < n then 0 else byte h a)"
    and free_bytes: "byte (free h p) = byte h"
begin

lemma live_byte_kept:
  assumes inv: "inv h" and m: "malloc h n = (p, h')"
    and q: "(q, l) \<in> live h" and a: "unat (a - q) < l"
  shows "byte h' a = byte h a"
proof (cases "p = 0")
  case True
  then show ?thesis using malloc_fail inv m by blast
next
  case False
  from malloc_live [OF inv m False] obtain k where
    k: "unat n \<le> k" "live h' = insert (p, k) (live h)" by blast
  have inv': "inv h'" using malloc_inv inv m .
  have "(p, k) \<noteq> (q, l)" using malloc_fresh [OF inv m False] q by force
  with live_disjoint [OF inv', of p k q l] k q
  have d: "unat p + k \<le> unat q \<or> unat q + l \<le> unat p" by auto
  have "unat q + l \<le> 4294967296" using live_region [OF inv q] by simp
  then have au: "unat a = unat q + unat (a - q)"
    using a unat_add_u32 [of q "a - q"] by simp
  have "\<not> a - p < n"
  proof
    assume "a - p < n"
    then have "unat (a - p) < k" using k by (simp add: word_less_nat_alt)
    moreover have "unat p + k \<le> 4294967296" using live_region [OF inv', of p k] k by simp
    ultimately have "unat a = unat p + unat (a - p)" using unat_add_u32 [of p "a - p"] by simp
    with au a d \<open>unat (a - p) < k\<close> show False by linarith
  qed
  then show ?thesis using malloc_bytes [OF inv m False] by simp
qed

end

lemma kzalloc_eq:
  "kzalloc s sz = (let (p, h) = heap_malloc (kernel_heap s) sz
     in (p, if p = 0 then s\<lparr>kernel_heap := h\<rparr>
            else s\<lparr>kernel_heap := h, bytes := (\<lambda>a. if a - p < sz then 0 else bytes s a)\<rparr>))"
  by (simp add: kzalloc_def kmalloc_def memset_eq split: prod.splits cong: if_cong)

lemma kzalloc_malloc:
  assumes "kzalloc s n = (p, s')"
  obtains h where "heap_malloc (kernel_heap s) n = (p, h)" "kernel_heap s' = h"
    "p = 0 \<Longrightarrow> s' = s\<lparr>kernel_heap := h\<rparr>"
    "p \<noteq> 0 \<Longrightarrow> bytes s' = (\<lambda>a. if a - p < n then 0 else bytes s a)"
    "current_directory s' = current_directory s"
proof -
  obtain q h where m: "heap_malloc (kernel_heap s) n = (q, h)" by force
  with assms have "p = q" by (simp add: kzalloc_eq)
  with that [of h] m assms show ?thesis by (cases "q = 0") (auto simp: kzalloc_eq)
qed

lemma kfree_simps [simp]:
  "kernel_heap (kfree s p) = heap_free (kernel_heap s) p" "bytes (kfree s p) = bytes s"
  "current_directory (kfree s p) = current_directory s"
  by (simp_all add: kfree_def)

interpretation kpool: zeroing_allocator kzalloc kfree kmem_wf klive bytes
proof (unfold_locales, goal_cases)
  case (1 h n h')
  from 1(2) obtain h1 where "heap_malloc (kernel_heap h) n = (0, h1)" "h' = h\<lparr>kernel_heap := h1\<rparr>"
    by (rule kzalloc_malloc) simp
  with 1(1) show ?case using heap_malloc_null(2) [of "kernel_heap h"] by (simp add: kmem_wf_def)
next
  case (2 h n p h')
  from 2(2) obtain h1 where "heap_malloc (kernel_heap h) n = (p, h1)" "kernel_heap h' = h1"
    by (rule kzalloc_malloc)
  with 2(1) show ?case using heap_malloc_wf [of "kernel_heap h"] by (simp add: kmem_wf_def)
next
  case (3 h n p h')
  from 3(2) obtain h1 where "heap_malloc (kernel_heap h) n = (p, h1)" by (rule kzalloc_malloc)
  with 3(1,3) show ?case using heap_malloc_live(1) [of "kernel_heap h"]
    by (simp add: kmem_wf_def klive_def)
next
  case (4 h n p h')
  from 4(2) obtain h1 where "heap_malloc (kernel_heap h) n = (p, h1)" "kernel_heap h' = h1"
    by (rule kzalloc_malloc)
  with 4 show ?case using heap_malloc_live(2,3) [of "kernel_heap h" n p h1]
    by (auto simp: kmem_wf_def klive_def)
next
  case (8 h p k)
  then show ?case using heap_live_region [of "kernel_heap h" p k] by (simp add: kmem_wf_def klive_def)
next
  case (9 h p k q l)
  then show ?case using heap_live_disjoint [of "kernel_heap h" p k q l] by (simp add: kmem_wf_def klive_def)
next
  case (10 h n p h' a)
  from 10(2) have "bytes h' = (\<lambda>a. if a - p < n then 0 else bytes h a)"
    by (rule kzalloc_malloc) (simp add: 10(3))
  then show ?case by simp
qed (auto simp: kmem_wf_def klive_def heap_free_wf heap_free_live_eq heap_free_dead kfree_def)

section \<open>Properties\<close>

text \<open>
  C5. Boot. Whatever the 25600 bytes of the block table held, \<^verbatim>\<open>kheap_init\<close> succeeds and leaves a
  well-formed, completely free heap of 100 MiB at 16 MiB: every request of at most the pool size
  is then served, at the pool's first address, and any larger one gets NULL.
\<close>

theorem kheap_init_correct:
  assumes "length tab = 25600" and "kheap_init s tab = (r, s')"
  shows "r = Inr () \<and> kmem_wf s' \<and> klive s' = {} \<and> bytes s' = bytes s
    \<and> (\<forall>n. fst (kmalloc s' n) = (if 0 < n \<and> n \<le> RORTHOX_HEAP_SIZE_BYTES then RORTHOX_HEAP_ADDRESS else 0))"
proof -
  let ?t = "\<lparr>entries = tab, total = 25600\<rparr>"
  note c = heap_create_wf [of "0x01000000" "0x07400000" ?t "kernel_heap s"]
  have s': "s' = s\<lparr>kernel_heap := snd (heap_create (kernel_heap s) 0x01000000 0x07400000 ?t)\<rparr>"
    and r: "r = fst (heap_create (kernel_heap s) 0x01000000 0x07400000 ?t)"
    using assms(2)
    by (auto simp: kheap_init_def Let_def RORTHOX_HEAP_SIZE_BYTES_def RORTHOX_HEAP_ADDRESS_def
        heap_consts split: prod.splits)
  have al: "heap_validate_alignment 0x01000000" "heap_validate_alignment 0x07400000"
    by (simp_all add: heap_validate_alignment_def heap_consts)
  have h: "kernel_heap s' = \<lparr>table = \<lparr>entries = replicate 25600 0, total = 25600\<rparr>, saddr = 0x01000000\<rparr>"
    using al assms(1)
    by (simp add: s' heap_create_def heap_validate_table_def Let_def heap_consts)
  have wf: "heap_wf (kernel_heap s')" and live: "heap_live (kernel_heap s') = {}" and "r = Inr ()"
    using c al assms(1) by (simp_all add: s' r)
  moreover have "fst (heap_malloc (kernel_heap s') n)
      = (if 0 < n \<and> n \<le> RORTHOX_HEAP_SIZE_BYTES then RORTHOX_HEAP_ADDRESS else 0)" for n
  proof -
    have fr: "free_run (entries (table (kernel_heap s'))) j k \<longleftrightarrow> j + k \<le> 25600" for j k
      by (auto simp: h free_run_def entry_free_def heap_get_entry_type_def heap_consts)
    have acc: "heap_accepts n \<longleftrightarrow> 0 < n \<and> n \<le> 0xFFFFF000"
      by (auto simp: heap_accepts_def word_neq_0_conv)
    have fits: "heap_fits (kernel_heap s') n \<longleftrightarrow> n \<le> 104857600"
      by (auto simp: heap_fits_def fr heap_blocks_def word_le_nat_alt intro: exI [of _ 0])
    have "(LEAST j. free_run (entries (table (kernel_heap s'))) j k) = 0" if "k \<le> 25600" for k
      using that by (intro Least_equality) (simp_all add: fr)
    moreover have "heap_fits (kernel_heap s') n \<Longrightarrow> heap_blocks n \<le> 25600"
      by (auto simp: heap_fits_def fr)
    moreover have "n \<le> 104857600 \<Longrightarrow> n \<le> 0xFFFFF000" by (erule order_trans) simp
    ultimately show ?thesis
      using heap_malloc_eq [OF wf, of n] fits
      by (auto simp: acc Let_def heap_block_to_address_def h RORTHOX_HEAP_SIZE_BYTES_def
          RORTHOX_HEAP_ADDRESS_def)
  qed
  then have "fst (kmalloc s' n)
      = (if 0 < n \<and> n \<le> RORTHOX_HEAP_SIZE_BYTES then RORTHOX_HEAP_ADDRESS else 0)" for n
    by (simp add: kmalloc_def split: prod.splits) (metis fst_conv)
  ultimately show ?thesis by (simp add: kmem_wf_def klive_def s')
qed

theorem kheap_init_correct_witness:
  "\<exists>s'. kheap_init \<lparr>kernel_heap = heap_example, bytes = (\<lambda>_. 7), current_directory = 0\<rparr>
       (replicate 25600 9) = (Inr (), s') \<and> kmem_wf s' \<and> fst (kmalloc s' 4097) = 0x01000000"
proof -
  let ?s = "\<lparr>kernel_heap = heap_example, bytes = (\<lambda>_. 7), current_directory = 0\<rparr>"
  obtain r s' where k: "kheap_init ?s (replicate 25600 9) = (r, s')" by force
  from kheap_init_correct [OF _ k] show ?thesis
    unfolding k by (simp add: RORTHOX_HEAP_SIZE_BYTES_def RORTHOX_HEAP_ADDRESS_def)
qed

text \<open>
  C6. A successful \<^verbatim>\<open>kzalloc\<close> returns a new live region whose requested bytes are all zero, and no
  byte of any region that was already live changes; a failed one changes nothing.
\<close>

theorem kzalloc_zeroed_frame:
  assumes "kmem_wf s" and "kzalloc s n = (p, s')"
  shows "if p = 0 then s' = s
    else kmem_wf s' \<and> (\<exists>k. unat n \<le> k \<and> klive s' = insert (p, k) (klive s)) \<and> p \<notin> fst ` klive s
      \<and> (\<forall>i < unat n. bytes s' (p + of_nat i) = 0)
      \<and> (\<forall>(q, k) \<in> klive s. \<forall>i < k. bytes s' (q + of_nat i) = bytes s (q + of_nat i))"
proof (cases "p = 0")
  case True
  then show ?thesis using kpool.malloc_fail assms by simp
next
  case False
  have "bytes s' (p + of_nat i) = 0" if "i < unat n" for i
    using kpool.malloc_bytes [OF assms False, of "p + of_nat i"] that unat_u32_less [of n]
    by (simp add: word_less_nat_alt unat_of_nat_u32)
  moreover have "bytes s' (q + of_nat i) = bytes s (q + of_nat i)" if "(q, k) \<in> klive s" "i < k" for q k i
    using kpool.live_byte_kept [OF assms that(1), of "q + of_nat i"] that(2)
      kpool.live_region [OF assms(1) that(1)] by (simp add: unat_of_nat_u32)
  ultimately show ?thesis
    using False kpool.malloc_inv [OF assms] kpool.malloc_live [OF assms False]
      kpool.malloc_fresh [OF assms False] by auto
qed

theorem kzalloc_zeroed_frame_witness:
  "\<exists>p s'. kzalloc \<lparr>kernel_heap = heap_example, bytes = (\<lambda>_. 7), current_directory = 0\<rparr> 5000 = (p, s')
     \<and> p = 0x01002000 \<and> bytes s' 0x01002000 = 0 \<and> bytes s' (0x01002000 + 4999) = 0"
proof -
  let ?s = "\<lparr>kernel_heap = heap_example, bytes = (\<lambda>_. 7), current_directory = 0\<rparr>"
  obtain p s' where k: "kzalloc ?s 5000 = (p, s')" by force
  then have p: "p = 0x01002000" by (simp add: kzalloc_eq heap_example_malloc)
  have "kmem_wf ?s" by (simp add: kmem_wf_def heap_example_wf)
  from kzalloc_zeroed_frame [OF this k] p
  have "bytes s' (0x01002000 + of_nat i) = 0" if "i < 5000" for i using that by simp
  from this [of 0] this [of 4999] k p show ?thesis by simp
qed

end
