(* ===== verification/Paging.thy ===== *)
theory Paging
  imports Kernel_Memory
begin

text \<open>
  Page directories and page tables, \<^verbatim>\<open>kernel/memory/paging/paging.c\<close>. Directories, tables and
  \<^verbatim>\<open>paging_4gb_chunk\<close> structures live in the bytes of the kernel heap, so every operation below
  reads and writes memory at the addresses the code uses.
\<close>

section \<open>Data\<close>

definition PAGING_PAGE_SIZE_FLAG :: u32 where "PAGING_PAGE_SIZE_FLAG = 0b10000000"
definition PAGING_CACHE_DISABLED :: u32 where "PAGING_CACHE_DISABLED = 0b00010000"
definition PAGING_WRITE_THROUGH :: u32 where "PAGING_WRITE_THROUGH = 0b00001000"
definition PAGING_ACCESS_FROM_ALL :: u32 where "PAGING_ACCESS_FROM_ALL = 0b00000100"
definition PAGING_IS_WRITEABLE :: u32 where "PAGING_IS_WRITEABLE = 0b00000010"
definition PAGING_IS_PRESENT :: u32 where "PAGING_IS_PRESENT = 0b00000001"
definition PAGING_TOTAL_ENTRIES_PER_TABLE :: nat where "PAGING_TOTAL_ENTRIES_PER_TABLE = 1024"
definition PAGING_PAGE_SIZE :: u32 where "PAGING_PAGE_SIZE = 4096"

lemmas paging_consts = PAGING_PAGE_SIZE_FLAG_def PAGING_ACCESS_FROM_ALL_def
  PAGING_IS_WRITEABLE_def PAGING_IS_PRESENT_def PAGING_TOTAL_ENTRIES_PER_TABLE_def
  PAGING_PAGE_SIZE_def

text \<open>\<^verbatim>\<open>array[i]\<close> for an array of \<^verbatim>\<open>uint32_t\<close>, and the address in a directory or table entry.\<close>

definition entry_at :: "kmem \<Rightarrow> u32 \<Rightarrow> u32 \<Rightarrow> u32" where
  "entry_at s array i = read32 (bytes s) (array + 4 * i)"

definition set_entry_at :: "kmem \<Rightarrow> u32 \<Rightarrow> u32 \<Rightarrow> u32 \<Rightarrow> kmem" where
  "set_entry_at s array i v = s\<lparr>bytes := write32 (bytes s) (array + 4 * i) v\<rparr>"

definition entry_address :: "u32 \<Rightarrow> u32" where
  "entry_address e = e AND 0xFFFFF000"

section \<open>Creating and releasing a directory\<close>

definition paging_fill_table :: "kmem \<Rightarrow> u32 \<Rightarrow> u32 \<Rightarrow> u8 \<Rightarrow> kmem" where
  "paging_fill_table s entry offset flags =
     fold (\<lambda>b s. set_entry_at s entry (of_nat b) ((offset + of_nat b * PAGING_PAGE_SIZE) OR ucast flags))
       [0..<PAGING_TOTAL_ENTRIES_PER_TABLE] s"

function paging_new_tables :: "kmem \<Rightarrow> u32 \<Rightarrow> u8 \<Rightarrow> nat \<Rightarrow> u32 \<Rightarrow> nat \<times> bool \<times> kmem" where
  "paging_new_tables s directory flags i offset =
     (if i < PAGING_TOTAL_ENTRIES_PER_TABLE
      then let (entry, s1) = kzalloc s (4 * of_nat PAGING_TOTAL_ENTRIES_PER_TABLE)
           in if entry = 0 then (i, False, s1)
              else let s2 = paging_fill_table s1 entry offset flags;
                       s3 = set_entry_at s2 directory (of_nat i)
                              (entry OR ucast flags OR PAGING_IS_WRITEABLE)
                   in paging_new_tables s3 directory flags (Suc i)
                        (offset + of_nat PAGING_TOTAL_ENTRIES_PER_TABLE * PAGING_PAGE_SIZE)
      else (i, True, s))"
  by pat_completeness auto
termination
  by (relation "measure (\<lambda>(s, directory, flags, i, offset). PAGING_TOTAL_ENTRIES_PER_TABLE - i)") auto

declare paging_new_tables.simps [simp del]

text \<open>The loop \<^verbatim>\<open>kfree(directory[i] & 0xfffff000)\<close> of the error path and of \<^verbatim>\<open>paging_free_4gb\<close>.\<close>

definition paging_free_tables :: "kmem \<Rightarrow> u32 \<Rightarrow> nat \<Rightarrow> kmem" where
  "paging_free_tables s directory n =
     fold (\<lambda>i s. kfree s (entry_address (entry_at s directory (of_nat i)))) [0..<n] s"

definition paging_new_4gb :: "kmem \<Rightarrow> u8 \<Rightarrow> u32 \<times> kmem" where
  "paging_new_4gb s flags =
     (let (directory, s1) = kzalloc s (4 * of_nat PAGING_TOTAL_ENTRIES_PER_TABLE)
      in if directory = 0 then (0, s1)
         else let (total_tables, ok, s2) = paging_new_tables s1 directory flags 0 0;
                  out = (\<lambda>s. (0, kfree (paging_free_tables s directory total_tables) directory))
              in if \<not> ok then out s2
                 else let (chunk_4gb, s3) = kzalloc s2 4
                      in if chunk_4gb = 0 then out s3
                         else (chunk_4gb, set_entry_at s3 chunk_4gb 0 directory))"

definition paging_4gb_chunk_get_directory :: "kmem \<Rightarrow> u32 \<Rightarrow> u32" where
  "paging_4gb_chunk_get_directory s chunk = entry_at s chunk 0"

text \<open>\<^verbatim>\<open>paging_load_directory\<close> loads CR3; the model keeps the value the C code remembers.\<close>

definition paging_switch :: "kmem \<Rightarrow> u32 \<Rightarrow> kmem" where
  "paging_switch s chunk = s\<lparr>current_directory := paging_4gb_chunk_get_directory s chunk\<rparr>"

definition paging_free_4gb :: "kmem \<Rightarrow> u32 \<Rightarrow> kmem" where
  "paging_free_4gb s chunk =
     (let s1 = paging_free_tables s (paging_4gb_chunk_get_directory s chunk) 1024;
          s2 = kfree s1 (paging_4gb_chunk_get_directory s1 chunk)
      in kfree s2 chunk)"

section \<open>Addresses\<close>

definition paging_is_aligned :: "u32 \<Rightarrow> bool" where
  "paging_is_aligned addr \<longleftrightarrow> addr mod PAGING_PAGE_SIZE = 0"

definition paging_get_indexes :: "u32 \<Rightarrow> (u32 \<times> u32) result" where
  "paging_get_indexes virtual_address =
     (if \<not> paging_is_aligned virtual_address then Inl EINVARG
      else Inr (virtual_address div (of_nat PAGING_TOTAL_ENTRIES_PER_TABLE * PAGING_PAGE_SIZE),
                virtual_address mod (of_nat PAGING_TOTAL_ENTRIES_PER_TABLE * PAGING_PAGE_SIZE)
                  div PAGING_PAGE_SIZE))"

definition paging_align_address :: "u32 \<Rightarrow> u32" where
  "paging_align_address ptr =
     (if ptr mod PAGING_PAGE_SIZE \<noteq> 0 then ptr + PAGING_PAGE_SIZE - ptr mod PAGING_PAGE_SIZE else ptr)"

definition paging_align_to_lower_page :: "u32 \<Rightarrow> u32" where
  "paging_align_to_lower_page addr = addr - addr mod PAGING_PAGE_SIZE"

section \<open>Reading and writing entries\<close>

definition paging_set :: "kmem \<Rightarrow> u32 \<Rightarrow> u32 \<Rightarrow> u32 \<Rightarrow> unit result \<times> kmem" where
  "paging_set s directory virt val =
     (if directory = current_directory s \<or> \<not> paging_is_aligned virt then (Inl EINVARG, s)
      else case paging_get_indexes virt of
        Inl e \<Rightarrow> (Inl e, s)
      | Inr (directory_index, table_index) \<Rightarrow>
          let entry = entry_at s directory directory_index;
              user = PAGING_IS_PRESENT OR PAGING_ACCESS_FROM_ALL
          in if val AND user = user
                \<and> (entry AND PAGING_IS_PRESENT = 0 \<or> entry AND PAGING_PAGE_SIZE_FLAG \<noteq> 0)
             then (Inl EINVARG, s)
             else let s1 = (if val AND user = user
                            then set_entry_at s directory directory_index
                                   (entry_at s directory directory_index OR PAGING_ACCESS_FROM_ALL)
                            else s)
                  in (Inr (), set_entry_at s1 (entry_address entry) table_index val))"

text \<open>When the address is not aligned the two indexes keep their initial value 0.\<close>

definition paging_get :: "kmem \<Rightarrow> u32 \<Rightarrow> u32 \<Rightarrow> u32" where
  "paging_get s directory virt =
     (let (directory_index, table_index) =
            (case paging_get_indexes virt of Inl _ \<Rightarrow> (0, 0) | Inr ix \<Rightarrow> ix)
      in entry_at s (entry_address (entry_at s directory directory_index)) table_index)"

definition paging_get_physical_address :: "kmem \<Rightarrow> u32 \<Rightarrow> u32 \<Rightarrow> u32" where
  "paging_get_physical_address s directory virt =
     (let virt_addr_new = paging_align_to_lower_page virt;
          difference = virt - virt_addr_new
      in (paging_get s directory virt_addr_new AND 0xFFFFF000) + difference)"

text \<open>The translated address is the result; the out-pointer is never NULL at a call.\<close>

definition paging_user_translate :: "kmem \<Rightarrow> u32 \<Rightarrow> u32 \<Rightarrow> bool \<Rightarrow> u32 result" where
  "paging_user_translate s directory address write =
     (if directory = 0 then Inl EINVARG
      else let required = PAGING_IS_PRESENT OR PAGING_ACCESS_FROM_ALL;
               required = (if write then required OR PAGING_IS_WRITEABLE else required);
               entry = entry_at s directory (drop_bit 22 address)
           in if entry AND required \<noteq> required \<or> entry AND PAGING_PAGE_SIZE_FLAG \<noteq> 0 then Inl EINVARG
              else let leaf = entry_at s (entry_address entry) (drop_bit 12 address AND 0x3FF)
                   in if leaf AND required \<noteq> required then Inl EINVARG
                      else Inr ((leaf AND 0xFFFFF000) OR (address AND (PAGING_PAGE_SIZE - 1))))"

definition paging_map :: "kmem \<Rightarrow> u32 \<Rightarrow> u32 \<Rightarrow> u32 \<Rightarrow> u32 \<Rightarrow> unit result \<times> kmem" where
  "paging_map s chunk virt phys flags =
     (if virt mod PAGING_PAGE_SIZE \<noteq> 0 \<or> phys mod PAGING_PAGE_SIZE \<noteq> 0 then (Inl EINVARG, s)
      else paging_set s (paging_4gb_chunk_get_directory s chunk) virt (phys OR flags))"

fun paging_map_range :: "kmem \<Rightarrow> u32 \<Rightarrow> u32 \<Rightarrow> u32 \<Rightarrow> nat \<Rightarrow> u32 \<Rightarrow> unit result \<times> kmem" where
  "paging_map_range s chunk virt phys 0 flags = (Inr (), s)"
| "paging_map_range s chunk virt phys (Suc count) flags =
     (case paging_map s chunk virt phys flags of
        (Inl e, s1) \<Rightarrow> (Inl e, s1)
      | (Inr _, s1) \<Rightarrow>
          paging_map_range s1 chunk (virt + PAGING_PAGE_SIZE) (phys + PAGING_PAGE_SIZE) count flags)"

definition paging_map_to :: "kmem \<Rightarrow> u32 \<Rightarrow> u32 \<Rightarrow> u32 \<Rightarrow> u32 \<Rightarrow> u32 \<Rightarrow> unit result \<times> kmem" where
  "paging_map_to s chunk virt phys phys_end flags =
     (if virt mod PAGING_PAGE_SIZE \<noteq> 0 then (Inl EINVARG, s)
      else if phys mod PAGING_PAGE_SIZE \<noteq> 0 then (Inl EINVARG, s)
      else if phys_end mod PAGING_PAGE_SIZE \<noteq> 0 then (Inl EINVARG, s)
      else if phys_end < phys then (Inl EINVARG, s)
      else paging_map_range s chunk virt phys (unat ((phys_end - phys) div PAGING_PAGE_SIZE)) flags)"

section \<open>Pages and slots\<close>

definition page_aligned :: "u32 \<Rightarrow> bool" where
  "page_aligned p \<longleftrightarrow> unat p mod 4096 = 0"

lemma page_aligned_word: "page_aligned p \<longleftrightarrow> p mod 4096 = 0"
  by (simp add: page_aligned_def word_unat_eq_iff unat_mod)

lemma paging_is_aligned_eq [simp]: "paging_is_aligned p = page_aligned p"
  by (simp add: paging_is_aligned_def page_aligned_word paging_consts)

lemma page_aligned_obtain:
  assumes "page_aligned p"
  obtains k where "unat p = 4096 * k" "k < 1048576"
proof
  show "unat p = 4096 * (unat p div 4096)" using assms by (auto simp: page_aligned_def)
  show "unat p div 4096 < 1048576" using unat_u32_less [of p] by simp
qed

lemma in_page:
  assumes "page_aligned p"
  shows "unat (x - p) < 4096 \<longleftrightarrow> unat x div 4096 = unat p div 4096"
proof -
  from assms obtain k where k: "unat p = 4096 * k" "k < 1048576" by (rule page_aligned_obtain)
  show ?thesis
  proof (cases "unat p \<le> unat x")
    case True
    then have "unat (x - p) = unat x - 4096 * k" using k by (simp add: unat_sub_u32)
    with True k show ?thesis by (auto simp: div_nat_eqI) 
  next
    case False
    then have "unat (x - p) = unat x + 4294967296 - unat p"
      by (simp add: unat_sub_if')
    with False k show ?thesis by auto
  qed
qed

lemma page_disjoint:
  assumes "page_aligned p" and "page_aligned q" and "p \<noteq> q" and "unat (x - p) < 4096"
  shows "4096 \<le> unat (x - q)"
proof (rule ccontr)
  assume "\<not> ?thesis"
  then have "unat (x - q) < 4096" by simp
  then have "unat p div 4096 = unat q div 4096"
    using in_page [OF assms(1), of x] in_page [OF assms(2), of x] assms(4) by simp
  with assms(1-3) show False by (auto simp: page_aligned_def word_unat_eq_iff)
qed

lemma unat_slot: "unat i < 1024 \<Longrightarrow> unat (4 * i :: u32) = 4 * unat i"
  by (simp add: unat_mult_u32)

lemma slot_apart:
  fixes i j :: u32
  assumes "unat i < 1024" and "unat j < 1024" and "i \<noteq> j"
  shows "4 \<le> unat (t + 4 * i - (t + 4 * j))"
proof -
  have "unat (4 * i) = 4 * unat i" "unat (4 * j) = 4 * unat j" "unat i \<noteq> unat j"
    using assms by (simp_all add: unat_slot word_unat_eq_iff)
  then have "4 \<le> unat (4 * i - 4 * j)" using assms(1,2) by (auto simp: unat_sub_if')
  then show ?thesis by simp
qed

lemma slot_outside:
  fixes x t i :: u32
  assumes "4096 \<le> unat (x - t)" and "unat i < 1024"
  shows "4 \<le> unat (x - (t + 4 * i))"
proof -
  have "unat (4 * i) = 4 * unat i" using assms(2) by (rule unat_slot)
  then have "unat (x - t - 4 * i) = unat (x - t) - 4 * unat i"
    using assms by (subst unat_sub_u32) simp_all
  then show ?thesis using assms by (simp add: diff_diff_eq)
qed

text \<open>Two memories that agree on the page at \<open>t\<close>.\<close>

definition same_page :: "u32 \<Rightarrow> kmem \<Rightarrow> kmem \<Rightarrow> bool" where
  "same_page t s s' \<longleftrightarrow> (\<forall>x. unat (x - t) < 4096 \<longrightarrow> bytes s' x = bytes s x)"

lemma same_page_trans: "same_page t s s1 \<Longrightarrow> same_page t s1 s2 \<Longrightarrow> same_page t s s2"
  by (simp add: same_page_def)

lemma same_page_entry:
  assumes "same_page t s s'" and "unat i < 1024"
  shows "entry_at s' t i = entry_at s t i"
  unfolding entry_at_def
proof (rule read32_cong)
  fix n :: nat assume n: "n < 4"
  have u: "unat (4 * i) = 4 * unat i" using assms(2) by (rule unat_slot)
  have "unat (4 * i + of_nat n) = 4 * unat i + n"
    using n u assms(2) by (subst unat_add_u32) (simp_all add: unat_of_nat_u32)
  then have "unat (t + 4 * i + of_nat n - t) < 4096" using n assms(2) by (simp add: add.assoc)
  then show "bytes s' (t + 4 * i + of_nat n) = bytes s (t + 4 * i + of_nat n)"
    using assms(1) by (simp add: same_page_def)
qed

lemma set_entry_simps [simp]:
  "kernel_heap (set_entry_at s t i v) = kernel_heap s"
  "current_directory (set_entry_at s t i v) = current_directory s"
  "kmem_wf (set_entry_at s t i v) = kmem_wf s"
  "klive (set_entry_at s t i v) = klive s"
  "entry_at (set_entry_at s t i v) t i = v"
  by (simp_all add: set_entry_at_def kmem_wf_def klive_def entry_at_def read32_write32_same)

lemma set_entry_other:
  assumes "unat i < 1024" and "unat j < 1024" and "i \<noteq> j"
  shows "entry_at (set_entry_at s t i v) t j = entry_at s t j"
  using slot_apart [OF assms(1,2), of t] slot_apart [OF assms(2,1), of t] assms(3)
  by (simp add: entry_at_def set_entry_at_def read32_write32_other)

lemma set_entry_byte:
  assumes "unat i < 1024" and "4096 \<le> unat (x - t)"
  shows "bytes (set_entry_at s t i v) x = bytes s x"
  using slot_outside [OF assms(2,1)] by (simp add: set_entry_at_def write32_other)

lemma set_entry_same_page:
  assumes "unat i < 1024" and "page_aligned t" and "page_aligned q" and "q \<noteq> t"
  shows "same_page q s (set_entry_at s t i v)"
  using assms page_disjoint [of q t] by (auto simp: same_page_def intro: set_entry_byte)

section \<open>Kernel allocations as pages\<close>

abbreviation kaddrs :: "kmem \<Rightarrow> u32 set" where
  "kaddrs s \<equiv> fst ` klive s"

lemma kaddrs_aligned: "kmem_wf s \<Longrightarrow> p \<in> kaddrs s \<Longrightarrow> page_aligned p"
  using heap_live_region(3) [of "kernel_heap s"]
  by (auto simp: kmem_wf_def klive_def page_aligned_word heap_validate_alignment_def heap_consts)

lemma klive_page:
  assumes "kmem_wf s" and "(p, k) \<in> klive s"
  shows "4096 \<le> k"
  using assms by (auto simp: kmem_wf_def klive_def elim!: heap_live_cases)

lemma kzalloc_live:
  assumes "kmem_wf s" and "kzalloc s n = (p, s')" and "p \<noteq> 0"
  shows "klive s' = insert (p, 4096 * heap_blocks n) (klive s)"
proof -
  from assms(2) obtain h where "heap_malloc (kernel_heap s) n = (p, h)" "kernel_heap s' = h"
    by (rule kzalloc_malloc)
  with assms heap_malloc_live(2) [of "kernel_heap s" n p h] show ?thesis
    by (simp add: kmem_wf_def klive_def)
qed

lemma kzalloc_page:
  assumes "kmem_wf s" and "kzalloc s n = (p, s')" and "p \<noteq> 0" and "heap_blocks n = 1"
  shows "kmem_wf s'" and "klive s' = insert (p, 4096) (klive s)" and "p \<notin> kaddrs s"
    and "page_aligned p" and "q \<in> kaddrs s \<Longrightarrow> same_page q s s'"
    and "current_directory s' = current_directory s"
proof -
  show wf: "kmem_wf s'" using kpool.malloc_inv [OF assms(1,2)] .
  show live: "klive s' = insert (p, 4096) (klive s)" using kzalloc_live [OF assms(1-3)] assms(4) by simp
  show "p \<notin> kaddrs s" using kpool.malloc_fresh [OF assms(1-3)] .
  show "page_aligned p" using kaddrs_aligned [OF wf, of p] live by simp
  show "current_directory s' = current_directory s" using assms(2) by (rule kzalloc_malloc)
  show "same_page q s s'" if "q \<in> kaddrs s"
  proof -
    from that obtain k where k: "(q, k) \<in> klive s" by auto
    with klive_page [OF assms(1)] have "4096 \<le> k" by blast
    then show ?thesis
      using kpool.live_byte_kept [OF assms(1,2) k] by (simp add: same_page_def)
  qed
qed

lemma heap_blocks_page [simp]: "heap_blocks 4096 = 1" "heap_blocks 4 = 1"
  by (simp_all add: heap_blocks_def)

lemma fill_table_all:
  "n \<le> 1024 \<Longrightarrow>
     (let s' = fold (\<lambda>b s. set_entry_at s t (of_nat b) (f b)) [0..<n] s
      in kernel_heap s' = kernel_heap s \<and> current_directory s' = current_directory s
       \<and> (\<forall>x. 4096 \<le> unat (x - t) \<longrightarrow> bytes s' x = bytes s x)
       \<and> (\<forall>j<1024. entry_at s' t (of_nat j) = (if j < n then f j else entry_at s t (of_nat j))))"
proof (induction n)
  case (Suc n)
  let ?s = "fold (\<lambda>b s. set_entry_at s t (of_nat b) (f b)) [0..<n] s"
  have n: "n < 1024" "unat (of_nat n :: u32) < 1024" using Suc.prems by (simp_all add: unat_of_nat_u32)
  have IH: "kernel_heap ?s = kernel_heap s" "current_directory ?s = current_directory s"
    "\<And>x. 4096 \<le> unat (x - t) \<Longrightarrow> bytes ?s x = bytes s x"
    "\<And>j. j < 1024 \<Longrightarrow> entry_at ?s t (of_nat j) = (if j < n then f j else entry_at s t (of_nat j))"
    using Suc by (simp_all add: Let_def)
  have "entry_at (set_entry_at ?s t (of_nat n) (f n)) t (of_nat j)
      = (if j < Suc n then f j else entry_at s t (of_nat j))" if j: "j < 1024" for j
  proof (cases "j = n")
    case False
    then have "(of_nat n :: u32) \<noteq> of_nat j" "unat (of_nat j :: u32) < 1024"
      using n j by (auto simp: word_unat_eq_iff unat_of_nat_u32)
    with IH(4) [OF j] False n show ?thesis by (simp add: set_entry_other)
  qed simp
  then show ?case using IH(1-3) set_entry_byte [OF n(2)] by (simp add: Let_def)
qed simp

lemma fill_table:
  assumes "n \<le> 1024"
  shows "kernel_heap (fold (\<lambda>b s. set_entry_at s t (of_nat b) (f b)) [0..<n] s) = kernel_heap s"
    and "current_directory (fold (\<lambda>b s. set_entry_at s t (of_nat b) (f b)) [0..<n] s) = current_directory s"
    and "4096 \<le> unat (x - t) \<Longrightarrow>
      bytes (fold (\<lambda>b s. set_entry_at s t (of_nat b) (f b)) [0..<n] s) x = bytes s x"
    and "j < 1024 \<Longrightarrow> entry_at (fold (\<lambda>b s. set_entry_at s t (of_nat b) (f b)) [0..<n] s) t (of_nat j)
      = (if j < n then f j else entry_at s t (of_nat j))"
  using fill_table_all [OF assms] by (simp_all add: Let_def)

lemma paging_fill_table_facts:
  "kernel_heap (paging_fill_table s t off fl) = kernel_heap s"
  "current_directory (paging_fill_table s t off fl) = current_directory s"
  "kmem_wf (paging_fill_table s t off fl) = kmem_wf s"
  "klive (paging_fill_table s t off fl) = klive s"
  "j < 1024 \<Longrightarrow> entry_at (paging_fill_table s t off fl) t (of_nat j) = (off + of_nat j * 4096) OR ucast fl"
  by (simp_all add: paging_fill_table_def kmem_wf_def klive_def fill_table paging_consts)

lemma paging_fill_table_same_page:
  "page_aligned t \<Longrightarrow> page_aligned q \<Longrightarrow> q \<noteq> t \<Longrightarrow> same_page q s (paging_fill_table s t off fl)"
  using page_disjoint [of q t]
  by (simp add: same_page_def paging_fill_table_def fill_table(3) paging_consts)

lemma entry_address_table:
  assumes "page_aligned t" and "unat f < 4096"
  shows "entry_address (t OR f) = t" and "(t OR f) AND 0xFFF = f"
proof -
  have t: "t AND 0xFFF = 0"
  proof -
    have "t AND mask 12 = t mod 4096" by (simp add: take_bit_eq_mask [symmetric] take_bit_eq_mod)
    then show ?thesis using assms(1) by (simp add: page_aligned_word mask_eq_exp_minus_1)
  qed
  have "f AND mask 12 = f mod 4096" by (simp add: take_bit_eq_mask [symmetric] take_bit_eq_mod)
  also have "\<dots> = f" using assms(2) by (simp add: word_unat_eq_iff unat_mod)
  finally have f: "f AND 0xFFF = f" by (simp add: mask_eq_exp_minus_1)
  have "f AND 0xFFFFF000 = (f AND 0xFFF) AND 0xFFFFF000" by (simp add: f)
  then have f': "f AND 0xFFFFF000 = 0" by (simp add: and.assoc)
  have all: "(0xFFFFF000 :: u32) OR 0xFFF = - 1" by simp
  have t': "t AND 0xFFFFF000 = t"
    using bit.conj_disj_distrib [of t "0xFFFFF000" "0xFFF", unfolded all] t by simp
  show "entry_address (t OR f) = t" by (simp add: entry_address_def bit.conj_disj_distrib2 t' f')
  show "(t OR f) AND 0xFFF = f" by (simp add: bit.conj_disj_distrib2 t f)
qed

section \<open>Building a directory\<close>

text \<open>
  The directory \<open>d\<close> after some iterations of the construction loop: the tables \<open>ts\<close> made so far are
  distinct live pages, entered in order, and each maps its 4 MiB to itself.
\<close>

definition tables_built :: "kmem \<Rightarrow> u32 \<Rightarrow> u8 \<Rightarrow> u32 list \<Rightarrow> bool" where
  "tables_built s d flags ts \<longleftrightarrow> kmem_wf s \<and> distinct (d # ts) \<and> set (d # ts) \<subseteq> kaddrs s
     \<and> length ts \<le> 1024
     \<and> (\<forall>i<length ts. entry_at s d (of_nat i) = (ts ! i) OR (ucast flags OR 2)
          \<and> (\<forall>j<1024. entry_at s (ts ! i) (of_nat j) = (of_nat i * 4194304 + of_nat j * 4096) OR ucast flags))"

lemma tables_built_frame:
  assumes "tables_built s d flags ts" and "kmem_wf s'" and "kaddrs s \<subseteq> kaddrs s'"
    and "\<And>q. q \<in> set (d # ts) \<Longrightarrow> same_page q s s'"
  shows "tables_built s' d flags ts"
proof -
  have d: "same_page d s s'" and t: "i < length ts \<Longrightarrow> same_page (ts ! i) s s'" for i
    using assms(4) by auto
  have u: "i < 1024 \<Longrightarrow> unat (of_nat i :: u32) < 1024" for i by (simp add: unat_of_nat_u32)
  have len: "length ts \<le> 1024" using assms(1) by (simp add: tables_built_def)
  have "entry_at s' d (of_nat i) = entry_at s d (of_nat i)" if "i < length ts" for i
    using same_page_entry [OF d u] that len by simp
  moreover have "entry_at s' (ts ! i) (of_nat j) = entry_at s (ts ! i) (of_nat j)"
    if "i < length ts" "j < 1024" for i j
    using same_page_entry [OF t u] that by simp
  ultimately show ?thesis
    using assms(1-3) unfolding tables_built_def by auto
qed

lemma tables_built_step:
  assumes b: "tables_built s d flags ts" and len: "length ts < 1024"
    and k: "kzalloc s 4096 = (t, s1)" "t \<noteq> 0"
  defines "s2 \<equiv> paging_fill_table s1 t (of_nat (length ts) * 4194304) flags"
  defines "s3 \<equiv> set_entry_at s2 d (of_nat (length ts)) (t OR ucast flags OR PAGING_IS_WRITEABLE)"
  shows "tables_built s3 d flags (ts @ [t])" and "klive s3 = insert (t, 4096) (klive s)"
    and "t \<notin> kaddrs s" and "current_directory s3 = current_directory s"
    and "q \<in> kaddrs s \<Longrightarrow> q \<noteq> d \<Longrightarrow> same_page q s s3"
proof -
  have wf: "kmem_wf s" and dts: "distinct (d # ts)" "set (d # ts) \<subseteq> kaddrs s"
    using b by (simp_all add: tables_built_def)
  note z = kzalloc_page [OF wf k heap_blocks_page(1)]
  show live: "klive s3 = insert (t, 4096) (klive s)" and t: "t \<notin> kaddrs s"
    using z by (simp_all add: s3_def s2_def paging_fill_table_facts)
  show "current_directory s3 = current_directory s"
    using z by (simp add: s3_def s2_def paging_fill_table_facts)
  have wf3: "kmem_wf s3" using z(1) by (simp add: s3_def s2_def paging_fill_table_facts)
  have al: "page_aligned q" if "q \<in> kaddrs s" for q using kaddrs_aligned [OF wf that] .
  have u: "unat (of_nat (length ts) :: u32) < 1024" using len by (simp add: unat_of_nat_u32)
  have 2: "same_page q s s2" if "q \<in> kaddrs s" for q
    unfolding s2_def using z(5) [OF that] paging_fill_table_same_page [OF z(4) al [OF that]] t that
    by (metis same_page_trans)
  show 3: "same_page q s s3" if "q \<in> kaddrs s" "q \<noteq> d" for q
    unfolding s3_def using 2 [OF that(1)] set_entry_same_page [OF u al [of d] al [OF that(1)] that(2)] dts
    by (metis same_page_trans insert_subset list.simps(15))
  have d3: "entry_at s3 d (of_nat i) = entry_at s d (of_nat i)" if "i < length ts" for i
  proof -
    have "(of_nat (length ts) :: u32) \<noteq> of_nat i" "unat (of_nat i :: u32) < 1024"
      using that len by (auto simp: word_unat_eq_iff unat_of_nat_u32)
    then show ?thesis
      using set_entry_other [OF u] same_page_entry [OF 2 [of d]] dts by (simp add: s3_def)
  qed
  have t3: "same_page t s2 s3"
    unfolding s3_def using set_entry_same_page [OF u al [of d] z(4)] dts t by auto
  have leaf: "entry_at s3 t (of_nat j) = (of_nat (length ts) * 4194304 + of_nat j * 4096) OR ucast flags"
    if "j < 1024" for j
    using same_page_entry [OF t3, of "of_nat j"] that
    by (simp add: s2_def paging_fill_table_facts unat_of_nat_u32)
  have old: "entry_at s3 (ts ! i) (of_nat j) = entry_at s (ts ! i) (of_nat j)"
    if "i < length ts" "j < 1024" for i j
    using that dts by (intro same_page_entry 3) (auto simp: unat_of_nat_u32)
  have new: "entry_at s3 d (of_nat (length ts)) = t OR (ucast flags OR 2)"
    by (simp add: s3_def PAGING_IS_WRITEABLE_def or.assoc)
  show "tables_built s3 d flags (ts @ [t])"
    using b wf3 dts t live len d3 leaf old new
    by (auto simp: tables_built_def nth_append less_Suc_eq image_iff)
qed

lemma paging_new_tables_spec:
  assumes "tables_built s d flags ts" and "i = length ts" and "off = of_nat (length ts) * 4194304"
    and "paging_new_tables s d flags i off = (n, ok, s')"
  shows "\<exists>us. tables_built s' d flags (ts @ us) \<and> n = length (ts @ us) \<and> (ok \<longrightarrow> n = 1024)
    \<and> klive s' = klive s \<union> (\<lambda>p. (p, 4096)) ` set us \<and> set us \<inter> kaddrs s = {}
    \<and> current_directory s' = current_directory s
    \<and> (\<forall>q \<in> kaddrs s. q \<noteq> d \<longrightarrow> same_page q s s')"
  using assms
proof (induction s d flags i off arbitrary: ts rule: paging_new_tables.induct)
  case (1 s d flags i off)
  show ?case
  proof (cases "i < 1024")
    case False
    then have "i = 1024" "n = i" "s' = s"
      using 1(2-) by (simp_all add: tables_built_def paging_new_tables.simps [of s] paging_consts)
    then show ?thesis using 1(2-) by (intro exI [of _ "[]"]) (simp add: same_page_def)
  next
    case True
    obtain t s1 where k: "kzalloc s 4096 = (t, s1)" by force
    have wf: "kmem_wf s" using 1(2) by (simp add: tables_built_def)
    show ?thesis
    proof (cases "t = 0")
      case t0: True
      then have "n = i" "\<not> ok" "s' = s1"
        using 1(5) True k by (simp_all add: paging_new_tables.simps [of s] paging_consts)
      moreover have "s1 = s" using kpool.malloc_fail [OF wf] k t0 by simp
      ultimately show ?thesis using 1(2,3) by (intro exI [of _ "[]"]) (simp add: same_page_def)
    next
      case t: False
      let ?s2 = "paging_fill_table s1 t off flags"
      let ?s3 = "set_entry_at ?s2 d (of_nat i) (t OR ucast flags OR PAGING_IS_WRITEABLE)"
      have len: "length ts < 1024" using True 1(3) by simp
      note step = tables_built_step [OF 1(2) len k t, folded 1(3,4)]
      have r: "paging_new_tables ?s3 d flags (Suc i) (off + 4194304) = (n, ok, s')"
        using 1(5) True k t by (simp add: paging_new_tables.simps [of s] paging_consts)
      have off: "off + 4194304 = of_nat (length (ts @ [t])) * 4194304" using 1(4) by (simp add: distrib_right)
      have "\<exists>us. tables_built s' d flags ((ts @ [t]) @ us) \<and> n = length ((ts @ [t]) @ us) \<and> (ok \<longrightarrow> n = 1024)
        \<and> klive s' = klive ?s3 \<union> (\<lambda>p. (p, 4096)) ` set us \<and> set us \<inter> kaddrs ?s3 = {}
        \<and> current_directory s' = current_directory ?s3
        \<and> (\<forall>q \<in> kaddrs ?s3. q \<noteq> d \<longrightarrow> same_page q ?s3 s')"
        using 1(1) [OF _ _ _ _ _ _ step(1), of "(t, s1)" t s1 ?s2] True k t 1(3) off r
        by (simp add: paging_consts add.commute [of 4194304])
      then obtain us where us: "tables_built s' d flags (ts @ t # us)" "n = length (ts @ t # us)"
        "ok \<longrightarrow> n = 1024" "klive s' = klive ?s3 \<union> (\<lambda>p. (p, 4096)) ` set us"
        "set us \<inter> kaddrs ?s3 = {}" "current_directory s' = current_directory ?s3"
        "\<forall>q \<in> kaddrs ?s3. q \<noteq> d \<longrightarrow> same_page q ?s3 s'" by auto
      have "\<forall>q \<in> kaddrs s. q \<noteq> d \<longrightarrow> same_page q s s'"
        using us(7) step(2,5) by (auto intro: same_page_trans)
      then show ?thesis
        using us step(2-4) by (intro exI [of _ "t # us"]) auto
    qed
  qed
qed

lemma paging_free_tables_eq:
  "paging_free_tables s d n =
     fold (\<lambda>p s. kfree s p) (map (\<lambda>i. entry_address (entry_at s d (of_nat i))) [0..<n]) s"
proof -
  have e: "entry_at (kfree s p) d i = entry_at s d i" for s p i by (simp add: entry_at_def)
  have "fold (\<lambda>i s. kfree s (entry_address (entry_at s d (of_nat i)))) is s' =
      fold (\<lambda>p s. kfree s p) (map (\<lambda>i. entry_address (entry_at s d (of_nat i))) is) s'"
    if "\<And>i. entry_at s' d i = entry_at s d i" for "is" s'
    using that by (induction "is" arbitrary: s') (simp_all add: e)
  then show ?thesis by (simp add: paging_free_tables_def)
qed

lemma kfree_list_simps [simp]:
  "bytes (fold (\<lambda>p s. kfree s p) ps s) = bytes s"
  "current_directory (fold (\<lambda>p s. kfree s p) ps s) = current_directory s"
  by (induction ps arbitrary: s) simp_all

lemma tables_built_aligned:
  "tables_built s d flags ts \<Longrightarrow> i < length ts \<Longrightarrow> page_aligned (ts ! i)"
  by (rule kaddrs_aligned [of s]) (auto simp: tables_built_def subset_iff)

lemma flags_small: "unat (ucast (fl :: u8) OR 2 :: u32) < 256" "unat (ucast fl :: u32) < 256"
proof -
  have "ucast fl OR (2 :: u32) = ucast (fl OR 2)" by (simp add: unsigned_or_eq)
  then have "unat (ucast fl OR 2 :: u32) = unat (fl OR 2)" by simp
  also have "\<dots> < 256" using unsigned_less [of "fl OR 2"] by simp
  finally show "unat (ucast fl OR 2 :: u32) < 256" .
  show "unat (ucast fl :: u32) < 256" using unsigned_less [of fl] by simp
qed

lemma tables_built_address:
  assumes "tables_built s d flags ts" and "i < length ts"
  shows "entry_address (entry_at s d (of_nat i)) = ts ! i"
  using entry_address_table(1) [OF tables_built_aligned [OF assms], of "ucast flags OR 2"]
    flags_small(1) [of flags] assms by (simp add: tables_built_def)

lemma paging_free_tables_built:
  assumes b: "tables_built s d flags ts"
  shows "kmem_wf (paging_free_tables s d (length ts))"
    and "klive (paging_free_tables s d (length ts)) = {r \<in> klive s. fst r \<notin> set ts}"
    and "bytes (paging_free_tables s d (length ts)) = bytes s"
    and "current_directory (paging_free_tables s d (length ts)) = current_directory s"
proof -
  have "map (\<lambda>i. entry_address (entry_at s d (of_nat i))) [0..<length ts] = ts"
    using tables_built_address [OF b] by (auto intro: nth_equalityI)
  then have eq: "paging_free_tables s d (length ts) = fold (\<lambda>p s. kfree s p) ts s"
    by (simp add: paging_free_tables_eq)
  have "kmem_wf s" using b by (simp add: tables_built_def)
  from kpool.free_list [OF this, of ts] eq
  show "kmem_wf (paging_free_tables s d (length ts))"
    and "klive (paging_free_tables s d (length ts)) = {r \<in> klive s. fst r \<notin> set ts}"
    and "bytes (paging_free_tables s d (length ts)) = bytes s"
    and "current_directory (paging_free_tables s d (length ts)) = current_directory s"
    by simp_all
qed

section \<open>Well-formed directories\<close>

text \<open>
  The pages of a directory: the directory itself and its 1024 tables. \<open>page_leaf s d n\<close> is the table
  entry of virtual page number \<open>n\<close>. A directory is well-formed when its pages are distinct live
  allocations, every directory entry is present, writable and no large page, and an entry with a
  user leaf grants user access itself.
\<close>

definition table_of :: "kmem \<Rightarrow> u32 \<Rightarrow> nat \<Rightarrow> u32" where
  "table_of s d i = entry_address (entry_at s d (of_nat i))"

definition dir_pages :: "kmem \<Rightarrow> u32 \<Rightarrow> u32 set" where
  "dir_pages s d = insert d (table_of s d ` {..<1024})"

definition page_leaf :: "kmem \<Rightarrow> u32 \<Rightarrow> nat \<Rightarrow> u32" where
  "page_leaf s d n = entry_at s (table_of s d (n div 1024)) (of_nat (n mod 1024))"

definition directory_wf :: "kmem \<Rightarrow> u32 \<Rightarrow> bool" where
  "directory_wf s d \<longleftrightarrow> kmem_wf s \<and> dir_pages s d \<subseteq> kaddrs s
     \<and> inj_on (table_of s d) {..<1024} \<and> d \<notin> table_of s d ` {..<1024}
     \<and> (\<forall>i<1024. entry_at s d (of_nat i) AND 0x83 = 0x03)
     \<and> (\<forall>n<1048576. page_leaf s d n AND 5 = 5 \<longrightarrow> entry_at s d (of_nat (n div 1024)) AND 4 = 4)"

definition page_number :: "u32 \<Rightarrow> nat" where
  "page_number a = unat a div 4096"

lemma page_number_less: "page_number a < 1048576"
  using unat_u32_less [of a] by (simp add: page_number_def)

lemma page_number_div: "page_number a div 1024 < 1024" "page_number a mod 1024 < 1024"
  using page_number_less [of a] by (simp_all add: less_mult_imp_div_less)

lemma directory_wf_page:
  "directory_wf s d \<Longrightarrow> i < 1024 \<Longrightarrow> table_of s d i \<in> kaddrs s"
  by (auto simp: directory_wf_def dir_pages_def)

lemma u32_div_mod_of_nat:
  fixes a b :: u32
  shows "a div b = of_nat (unat a div unat b)" "a mod b = of_nat (unat a mod unat b)"
  by (simp_all add: word_unat_eq_iff unat_div unat_mod unat_of_nat_u32
      unat_u32_less le_less_trans [OF div_le_dividend] le_less_trans [OF mod_less_eq_dividend])

lemma table_index: "(a :: nat) mod 4194304 div 4096 = a div 4096 mod 1024"
  using mod_mult2_eq [of a 4096 1024] by simp

lemma paging_get_indexes_eq:
  "page_aligned a \<Longrightarrow> paging_get_indexes a
     = Inr (of_nat (page_number a div 1024), of_nat (page_number a mod 1024))"
  using unat_u32_less [of a] table_index [of "unat a"]
  by (simp add: paging_get_indexes_def paging_consts u32_div_mod_of_nat page_number_def unat_of_nat_u32
      div_mult2_eq [symmetric])

lemma paging_get_leaf: "page_aligned a \<Longrightarrow> paging_get s d a = page_leaf s d (page_number a)"
  by (simp add: paging_get_def paging_get_indexes_eq page_leaf_def table_of_def)

section \<open>User translation\<close>

lemma and_disjoint_le:
  assumes "(e :: u32) AND m = m" and "k AND m = k"
  shows "e AND k = k"
  using assms by (metis and.assoc and.commute)

lemma directory_entry_bits:
  assumes "directory_wf s d" and "i < 1024"
  shows "entry_at s d (of_nat i) AND 1 = 1" "entry_at s d (of_nat i) AND 2 = 2"
    "entry_at s d (of_nat i) AND 0x80 = 0"
proof -
  let ?e = "entry_at s d (of_nat i)"
  have e: "?e AND 0x83 = 0x03" using assms by (simp add: directory_wf_def)
  have "?e AND 1 = (?e AND 0x83) AND 1" "?e AND 2 = (?e AND 0x83) AND 2"
    "?e AND 0x80 = (?e AND 0x83) AND 0x80" by (simp_all add: and.assoc)
  then show "?e AND 1 = 1" "?e AND 2 = 2" "?e AND 0x80 = 0" by (simp_all add: e)
qed

lemma address_shift:
  "drop_bit 22 (a :: u32) = of_nat (page_number a div 1024)"
  "drop_bit 12 (a :: u32) AND 0x3FF = of_nat (page_number a mod 1024)"
proof -
  have 1: "unat (drop_bit 22 a) = unat a div 4194304" "unat (drop_bit 12 a) = unat a div 4096"
    by (simp_all add: drop_bit_eq_div unat_div)
  have "drop_bit 22 a = of_nat (unat (drop_bit 22 a))" by simp
  then show "drop_bit 22 a = of_nat (page_number a div 1024)"
    unfolding 1 by (simp add: page_number_def div_mult2_eq [symmetric])
  have "drop_bit 12 a = of_nat (unat (drop_bit 12 a))" by simp
  then have "drop_bit 12 a = of_nat (page_number a)" unfolding 1 by (simp add: page_number_def)
  then have "drop_bit 12 a AND mask 10 = of_nat (page_number a) mod 1024"
    by (simp only: take_bit_eq_mask [symmetric] take_bit_eq_mod) simp
  then show "drop_bit 12 a AND 0x3FF = of_nat (page_number a mod 1024)"
    using page_number_less [of a]
    by (simp add: mask_eq_exp_minus_1 word_unat_eq_iff unat_mod unat_of_nat_u32)
qed

lemma or_flags_and: "(e :: u32) AND (a OR b) = a OR b \<longleftrightarrow> e AND a = a \<and> e AND b = b"
  by (auto simp: bit_eq_iff bit_simps)

lemma paging_user_translate_eq:
  assumes wf: "directory_wf s d"
  shows "paging_user_translate s d a write =
    (let leaf = page_leaf s d (page_number a)
     in if leaf AND 5 = 5 \<and> (write \<longrightarrow> leaf AND 2 = 2)
        then Inr ((leaf AND 0xFFFFF000) OR (a AND 0xFFF)) else Inl EINVARG)"
proof -
  let ?e = "entry_at s d (of_nat (page_number a div 1024))"
  have d0: "d \<noteq> 0"
    using wf kpool.null_not_live [of s] by (auto simp: directory_wf_def dir_pages_def)
  note e = directory_entry_bits [OF wf page_number_div(1) [of a]]
  have u: "page_leaf s d (page_number a) AND 5 = 5 \<Longrightarrow> ?e AND 4 = 4"
    using wf page_number_less [of a] by (simp add: directory_wf_def)
  have five: "x AND 5 = 5 \<longleftrightarrow> x AND 1 = 1 \<and> x AND 4 = 4" for x :: u32
    using or_flags_and [of x 1 4] by simp
  have seven: "x AND 7 = 7 \<longleftrightarrow> x AND 5 = 5 \<and> x AND 2 = 2" for x :: u32
    using or_flags_and [of x 5 2] by simp
  show ?thesis
    using d0 e u
    by (auto simp: paging_user_translate_def Let_def address_shift paging_consts page_leaf_def
        table_of_def five seven)
qed

lemma and_mask_low:
  assumes "page_aligned t" and "unat m < 4096"
  shows "t AND m = 0"
proof -
  have m: "m AND 0xFFF = m"
    using entry_address_table(2) [of 0 m] assms(2) by (simp add: page_aligned_def)
  have t: "t AND 0xFFF = 0"
    using entry_address_table(2) [OF assms(1), of 0] by simp
  have "t AND m = t AND (m AND 0xFFF)" unfolding m ..
  also have "\<dots> = (t AND 0xFFF) AND m" by (simp only: and.assoc and.commute [of m])
  finally show ?thesis by (simp add: t)
qed

lemma flags_present:
  assumes "flags AND 0x81 = (1 :: u8)"
  shows "ucast flags AND 1 = (1 :: u32)" "ucast flags AND 0x80 = (0 :: u32)"
proof -
  have "flags AND 1 = (flags AND 0x81) AND 1" "flags AND 0x80 = (flags AND 0x81) AND 0x80"
    by (simp_all add: and.assoc)
  then have f: "flags AND 1 = 1" "flags AND 0x80 = 0" by (simp_all add: assms)
  have "(ucast flags AND 1 :: u32) = ucast (flags AND 1)" "(ucast flags AND 0x80 :: u32) = ucast (flags AND 0x80)"
    by (simp_all add: unsigned_and_eq)
  then show "ucast flags AND 1 = (1 :: u32)" "ucast flags AND 0x80 = (0 :: u32)" by (simp_all add: f)
qed

lemma tables_built_wf:
  assumes b: "tables_built s d flags ts" and len: "length ts = 1024" and fl: "flags AND 0x81 = 1"
  shows "directory_wf s d" and "dir_pages s d = set (d # ts)"
    and "n < 1048576 \<Longrightarrow> page_leaf s d n = of_nat (n * 4096) OR ucast flags"
proof -
  have t: "table_of s d i = ts ! i" if "i < 1024" for i
    using tables_built_address [OF b, of i] that len by (simp add: table_of_def)
  have dt: "distinct ts" "d \<notin> set ts" "kmem_wf s" "set (d # ts) \<subseteq> kaddrs s"
    using b by (simp_all add: tables_built_def)
  have img: "table_of s d ` {..<1024} = set ts"
    using t len by (auto simp: set_conv_nth image_iff) 
  then show pages: "dir_pages s d = set (d # ts)" by (simp add: dir_pages_def)
  have e: "entry_at s d (of_nat i) = ts ! i OR (ucast flags OR 2)" if "i < 1024" for i
    using b that len by (simp add: tables_built_def)
  have al: "page_aligned (ts ! i)" if "i < 1024" for i
    using tables_built_aligned [OF b] that len by simp
  have leaf: "page_leaf s d n = of_nat (n * 4096) OR ucast flags" if n: "n < 1048576" for n
  proof -
    have i: "n div 1024 < 1024" "n mod 1024 < 1024" using n by (simp_all add: less_mult_imp_div_less)
    then have "page_leaf s d n = (of_nat (n div 1024) * 4194304 + of_nat (n mod 1024) * 4096) OR ucast flags"
      using b len by (simp add: page_leaf_def t tables_built_def)
    also have "of_nat (n div 1024) * 4194304 + of_nat (n mod 1024) * 4096
        = (of_nat ((1024 * (n div 1024) + n mod 1024) * 4096) :: u32)"
      by (simp only: of_nat_add of_nat_mult distrib_right) simp
    finally show ?thesis by simp
  qed
  then show "n < 1048576 \<Longrightarrow> page_leaf s d n = of_nat (n * 4096) OR ucast flags" .
  note f = flags_present [OF fl]
  have 83: "x AND 0x83 = (x AND 1) OR (x AND 2) OR (x AND 0x80)" for x :: u32
    by (simp add: bit.conj_disj_distrib [symmetric])
  have bits: "entry_at s d (of_nat i) AND 0x83 = 0x03" if "i < 1024" for i
    using and_mask_low [OF al [OF that]] f
    by (simp add: e [OF that] 83 bit.conj_disj_distrib2)
  have user: "entry_at s d (of_nat (n div 1024)) AND 4 = 4"
    if "n < 1048576" "page_leaf s d n AND 5 = 5" for n
  proof -
    have i: "n div 1024 < 1024" using that(1) by (simp add: less_mult_imp_div_less)
    have "page_aligned (of_nat (n * 4096))" 
      using unat_of_nat_u32 [of "n * 4096"] that(1) by (simp add: page_aligned_def)
    then have "ucast flags AND 5 = (5 :: u32)"
      using that leaf [OF that(1)] and_mask_low [of "of_nat (n * 4096)" 5]
      by (simp add: bit.conj_disj_distrib2)
    then have "ucast flags AND 4 = (4 :: u32)" by (rule and_disjoint_le) simp
    then show ?thesis using and_mask_low [OF al [OF i], of 4] by (simp add: e [OF i] bit.conj_disj_distrib2)
  qed
  show "directory_wf s d"
    unfolding directory_wf_def
  proof (intro conjI allI impI)
    show "inj_on (table_of s d) {..<1024}"
      using dt(1) len by (auto simp: inj_on_def t nth_eq_iff_index_eq)
  qed (use dt img pages bits user in auto)
qed

text \<open>The state when the construction loop ends, relative to the state before the directory was allocated.\<close>

lemma paging_new_tables_start:
  assumes wf: "kmem_wf s" and k: "kzalloc s 4096 = (d, s1)" "d \<noteq> 0"
    and b: "paging_new_tables s1 d flags 0 0 = (n, ok, s2)"
  obtains ts where "tables_built s2 d flags ts" "n = length ts" "ok \<longrightarrow> n = 1024"
    "klive s2 = klive s \<union> (\<lambda>p. (p, 4096)) ` set (d # ts)" "set (d # ts) \<inter> kaddrs s = {}"
    "current_directory s2 = current_directory s" "\<And>q. q \<in> kaddrs s \<Longrightarrow> same_page q s s2"
proof -
  note z = kzalloc_page [OF wf k heap_blocks_page(1)]
  have "tables_built s1 d flags []" using z by (simp add: tables_built_def)
  from paging_new_tables_spec [OF this _ _ b] obtain ts where
    ts: "tables_built s2 d flags ts" "n = length ts" "ok \<longrightarrow> n = 1024"
      "klive s2 = klive s1 \<union> (\<lambda>p. (p, 4096)) ` set ts" "set ts \<inter> kaddrs s1 = {}"
      "current_directory s2 = current_directory s1" "\<forall>q \<in> kaddrs s1. q \<noteq> d \<longrightarrow> same_page q s1 s2"
    by auto
  have "same_page q s s2" if "q \<in> kaddrs s" for q
  proof -
    have "q \<in> kaddrs s1" "q \<noteq> d" using z(2,3) that by auto
    with ts(7) same_page_trans [OF z(5) [OF that]] show ?thesis by blast
  qed
  moreover have "klive s2 = klive s \<union> (\<lambda>p. (p, 4096)) ` set (d # ts)" "set (d # ts) \<inter> kaddrs s = {}"
    using ts(4,5) z(2,3) by auto
  ultimately show ?thesis using that [OF ts(1-3)] ts(6) z(6) by simp
qed

lemma paging_new_4gb_release:
  assumes b: "tables_built s2 d flags ts"
    and live: "klive s2 = klive s \<union> (\<lambda>p. (p, 4096)) ` set (d # ts)" "set (d # ts) \<inter> kaddrs s = {}"
  defines "s' \<equiv> kfree (paging_free_tables s2 d (length ts)) d"
  shows "kmem_wf s'" and "klive s' = klive s" and "current_directory s' = current_directory s2"
    and "bytes s' = bytes s2"
proof -
  note f = paging_free_tables_built [OF b]
  have "klive s' = {r \<in> {r \<in> klive s2. fst r \<notin> set ts}. fst r \<noteq> d}"
    unfolding s'_def using kpool.free_live [OF f(1)] f(2) by simp
  also have "\<dots> = klive s" using live by force
  finally show "klive s' = klive s" .
  show "kmem_wf s'" "current_directory s' = current_directory s2" "bytes s' = bytes s2"
    using f kpool.free_inv [OF f(1)] by (simp_all add: s'_def)
qed

lemma chunk_step:
  assumes b: "tables_built s2 d flags ts" and k: "kzalloc s2 4 = (c, s3)" "c \<noteq> 0"
  defines "s' \<equiv> set_entry_at s3 c 0 d"
  shows "tables_built s' d flags ts" and "klive s' = insert (c, 4096) (klive s2)" and "c \<notin> kaddrs s2"
    and "current_directory s' = current_directory s2" and "q \<in> kaddrs s2 \<Longrightarrow> same_page q s2 s'"
proof -
  have wf: "kmem_wf s2" using b by (simp add: tables_built_def)
  note z = kzalloc_page [OF wf k heap_blocks_page(2)]
  show sp: "same_page q s2 s'" if "q \<in> kaddrs s2" for q
  proof -
    have "same_page q s3 s'"
      unfolding s'_def using that z(3) by (intro set_entry_same_page z kaddrs_aligned [OF wf]) auto
    then show ?thesis using z(5) [OF that] same_page_trans by blast
  qed
  show "klive s' = insert (c, 4096) (klive s2)" "c \<notin> kaddrs s2"
    "current_directory s' = current_directory s2" using z by (simp_all add: s'_def)
  show "tables_built s' d flags ts"
  proof (rule tables_built_frame [OF b])
    show "kmem_wf s'" "kaddrs s2 \<subseteq> kaddrs s'" using z(1,2) by (auto simp: s'_def)
    show "same_page q s2 s'" if "q \<in> set (d # ts)" for q
    proof -
      have "set (d # ts) \<subseteq> kaddrs s2" using b by (simp add: tables_built_def)
      then show ?thesis using sp that by blast
    qed
  qed
qed

lemma paging_new_4gb_cases:
  assumes wf: "kmem_wf s" and n: "paging_new_4gb s flags = (c, s')"
  obtains (fail) "c = 0" "kmem_wf s'" "klive s' = klive s" "current_directory s' = current_directory s"
      "\<And>q. q \<in> kaddrs s \<Longrightarrow> same_page q s s'"
  | (ok) d ts where "c \<noteq> 0" "paging_4gb_chunk_get_directory s' c = d" "tables_built s' d flags ts"
      "length ts = 1024" "set (c # d # ts) \<inter> kaddrs s = {}" "distinct (c # d # ts)"
      "klive s' = klive s \<union> (\<lambda>p. (p, 4096)) ` set (c # d # ts)"
      "current_directory s' = current_directory s" "\<And>q. q \<in> kaddrs s \<Longrightarrow> same_page q s s'"
proof -
  obtain d s1 where k1: "kzalloc s 4096 = (d, s1)" by force
  show ?thesis
  proof (cases "d = 0")
    case True
    then have "c = 0" "s' = s" using n k1 kpool.malloc_fail [OF wf, of 4096 s1]
      by (simp_all add: paging_new_4gb_def paging_consts)
    then show ?thesis using wf by (intro fail) (simp_all add: same_page_def)
  next
    case d0: False
    obtain nt okb s2 where b: "paging_new_tables s1 d flags 0 0 = (nt, okb, s2)" by (metis prod_cases3)
    from paging_new_tables_start [OF wf k1 d0 b] obtain ts where
      ts: "tables_built s2 d flags ts" "nt = length ts" "okb \<longrightarrow> nt = 1024"
        "klive s2 = klive s \<union> (\<lambda>p. (p, 4096)) ` set (d # ts)" "set (d # ts) \<inter> kaddrs s = {}"
        "current_directory s2 = current_directory s" "\<And>q. q \<in> kaddrs s \<Longrightarrow> same_page q s s2" by blast
    obtain c' s3 where k3: "kzalloc s2 4 = (c', s3)" by force
    show ?thesis
    proof (cases "okb \<and> c' \<noteq> 0")
      case nok: False
      have "s3 = s2" if "c' = 0"
        using kpool.malloc_fail [of s2 4 s3] ts(1) k3 that by (simp add: tables_built_def)
      then have "c = 0" "s' = kfree (paging_free_tables s2 d (length ts)) d"
        using n k1 b k3 d0 nok ts(2)
        by (auto simp: paging_new_4gb_def paging_consts Let_def split: if_splits)
      with paging_new_4gb_release [OF ts(1,4,5)] ts(6,7) show ?thesis
        by (intro fail) (simp_all add: same_page_def)
    next
      case okc: True
      then have r: "c = c'" "s' = set_entry_at s3 c' 0 d" "c' \<noteq> 0"
        using n k1 b k3 d0 by (auto simp: paging_new_4gb_def paging_consts Let_def)
      note z = chunk_step [OF ts(1) k3 r(3), folded r(1,2)]
      have in2: "set (d # ts) \<union> kaddrs s \<subseteq> kaddrs s2"
        using ts(4) by (auto simp: image_Un image_image)
      have "distinct (c # d # ts)" "set (c # d # ts) \<inter> kaddrs s = {}"
        using ts(1,5) z(3) in2 by (auto simp: tables_built_def)
      moreover have "same_page q s s'" if "q \<in> kaddrs s" for q
        using same_page_trans [OF ts(7) [OF that] z(5)] in2 that by auto
      ultimately show ?thesis
        using r z ts okc by (intro ok [of d ts]) (auto simp: paging_4gb_chunk_get_directory_def)
    qed
  qed
qed

section \<open>Releasing a directory\<close>

lemma paging_free_4gb_live:
  assumes wf: "directory_wf s d" and d: "paging_4gb_chunk_get_directory s c = d"
  shows "kmem_wf (paging_free_4gb s c)"
    and "klive (paging_free_4gb s c) = {r \<in> klive s. fst r \<notin> insert c (dir_pages s d)}"
    and "bytes (paging_free_4gb s c) = bytes s"
    and "current_directory (paging_free_4gb s c) = current_directory s"
proof -
  let ?ts = "map (table_of s d) [0..<1024]"
  have kw: "kmem_wf s" using wf by (simp add: directory_wf_def)
  have eq: "paging_free_4gb s c = fold (\<lambda>p s. kfree s p) (?ts @ [d, c]) s"
    using d by (simp add: paging_free_4gb_def paging_free_tables_eq table_of_def [abs_def] Let_def
        paging_4gb_chunk_get_directory_def entry_at_def)
  have set: "set (?ts @ [d, c]) = insert c (dir_pages s d)" by (auto simp: dir_pages_def)
  note f = kpool.free_list [OF kw, of "?ts @ [d, c]", unfolded set, folded eq]
  show "kmem_wf (paging_free_4gb s c)"
    and "klive (paging_free_4gb s c) = {r \<in> klive s. fst r \<notin> insert c (dir_pages s d)}"
    by (rule f [THEN conjunct1], rule f [THEN conjunct2])
  show "bytes (paging_free_4gb s c) = bytes s"
    and "current_directory (paging_free_4gb s c) = current_directory s"
    unfolding eq by simp_all
qed

section \<open>Changing one entry\<close>

text \<open>What a successful \<^verbatim>\<open>paging_set\<close> writes: the leaf, and for a user leaf the directory entry.\<close>

definition set_leaf :: "kmem \<Rightarrow> u32 \<Rightarrow> nat \<Rightarrow> u32 \<Rightarrow> kmem" where
  "set_leaf s d n v =
     (let i = of_nat (n div 1024); e = entry_at s d i;
          s1 = (if v AND 5 = 5 then set_entry_at s d i (e OR 4) else s)
      in set_entry_at s1 (entry_address e) (of_nat (n mod 1024)) v)"

lemma paging_set_eq:
  assumes wf: "directory_wf s d"
  shows "paging_set s d a v =
    (if d = current_directory s \<or> \<not> page_aligned a then (Inl EINVARG, s)
     else (Inr (), set_leaf s d (page_number a) v))"
  using directory_entry_bits [OF wf page_number_div(1) [of a]]
  by (auto simp: paging_set_def paging_get_indexes_eq set_leaf_def paging_consts Let_def)

lemma entry_address_or4: "entry_address (e OR 4) = entry_address e"
  by (simp add: entry_address_def bit.conj_disj_distrib2)

lemma directory_wf_aligned: "directory_wf s d \<Longrightarrow> q \<in> dir_pages s d \<Longrightarrow> page_aligned q"
  using kaddrs_aligned unfolding directory_wf_def by blast

lemma directory_wf_table:
  assumes "directory_wf s d" and "i < 1024"
  shows "page_aligned (table_of s d i)" and "table_of s d i \<noteq> d"
proof -
  show "page_aligned (table_of s d i)"
    using assms by (intro directory_wf_aligned [OF assms(1)]) (simp add: dir_pages_def)
  show "table_of s d i \<noteq> d"
    using assms unfolding directory_wf_def by (metis imageI lessThan_iff)
qed

lemma set_leaf_facts:
  fixes v :: u32
  assumes wf: "directory_wf s d" and n: "n < 1048576"
  defines "s' \<equiv> set_leaf s d n v"
  shows "kernel_heap s' = kernel_heap s" and "current_directory s' = current_directory s"
    and "klive s' = klive s" and "kmem_wf s'"
    and "i < 1024 \<Longrightarrow> entry_at s' d (of_nat i)
      = (if i = n div 1024 \<and> v AND 5 = 5 then entry_at s d (of_nat i) OR 4 else entry_at s d (of_nat i))"
    and "i < 1024 \<Longrightarrow> table_of s' d i = table_of s d i"
    and "m < 1048576 \<Longrightarrow> page_leaf s' d m = (if m = n then v else page_leaf s d m)"
    and "\<And>q. page_aligned q \<Longrightarrow> q \<notin> dir_pages s d \<Longrightarrow> same_page q s s'"
proof -
  let ?i = "of_nat (n div 1024) :: u32" and ?j = "of_nat (n mod 1024) :: u32"
  let ?t = "table_of s d (n div 1024)"
  define s1 where "s1 = (if v AND 5 = 5 then set_entry_at s d ?i (entry_at s d ?i OR 4) else s)"
  have s': "s' = set_entry_at s1 ?t ?j v"
    by (simp add: s'_def set_leaf_def s1_def table_of_def Let_def)
  have nd: "n div 1024 < 1024" "n mod 1024 < 1024" using n by (simp_all add: less_mult_imp_div_less)
  have u: "unat (of_nat k :: u32) < 1024" if "k < 1024" for k using that by (simp add: unat_of_nat_u32)
  have kw: "kmem_wf s" using wf by (simp add: directory_wf_def)
  have dal: "page_aligned d" by (rule directory_wf_aligned [OF wf]) (simp add: dir_pages_def)
  note tal = directory_wf_table [OF wf]
  show "kernel_heap s' = kernel_heap s" "current_directory s' = current_directory s"
    "klive s' = klive s" "kmem_wf s'" using kw by (simp_all add: s' s1_def)
  have p1: "same_page q s s1" if "page_aligned q" "q \<noteq> d" for q
    using set_entry_same_page [OF u [OF nd(1)] dal that] by (simp add: s1_def same_page_def)
  have p2: "same_page q s1 s'" if "page_aligned q" "q \<noteq> ?t" for q
    unfolding s' using set_entry_same_page [OF u [OF nd(2)] tal(1) [OF nd(1)] that] .
  show "same_page q s s'" if "page_aligned q" "q \<notin> dir_pages s d" for q
    using p1 [of q] p2 [of q] that nd(1) same_page_trans [of q s s1 s'] by (auto simp: dir_pages_def)
  show e: "entry_at s' d (of_nat i)
      = (if i = n div 1024 \<and> v AND 5 = 5 then entry_at s d (of_nat i) OR 4 else entry_at s d (of_nat i))"
    if i: "i < 1024" for i
  proof -
    have "entry_at s' d (of_nat i) = entry_at s1 d (of_nat i)"
      using same_page_entry [OF p2 [OF dal] u [OF i]] tal(2) [OF nd(1)] by auto
    moreover have "(of_nat i :: u32) = ?i \<longleftrightarrow> i = n div 1024"
      using i nd by (simp add: word_unat_eq_iff unat_of_nat_u32)
    ultimately show ?thesis
      using set_entry_other [OF u [OF nd(1)] u [OF i], of s d] by (auto simp: s1_def)
  qed
  show t: "table_of s' d i = table_of s d i" if "i < 1024" for i
    using e [OF that] by (simp add: table_of_def entry_address_or4)
  show "page_leaf s' d m = (if m = n then v else page_leaf s d m)" if m: "m < 1048576"
  proof -
    have md: "m div 1024 < 1024" "m mod 1024 < 1024" using m by (simp_all add: less_mult_imp_div_less)
    have keep: "entry_at s1 (table_of s d (m div 1024)) k = entry_at s (table_of s d (m div 1024)) k"
      if "unat k < 1024" for k using same_page_entry [OF p1 [OF tal [OF md(1)]] that] .
    show ?thesis
    proof (cases "m div 1024 = n div 1024")
      case True
      then have "m = n \<longleftrightarrow> m mod 1024 = n mod 1024" by (metis div_mult_mod_eq)
      moreover have "of_nat (m mod 1024) = ?j \<longleftrightarrow> m mod 1024 = n mod 1024"
        using nd md by (simp add: word_unat_eq_iff unat_of_nat_u32)
      ultimately show ?thesis
        using set_entry_other [OF u [OF nd(2)] u [OF md(2)], of s1 ?t v] keep [OF u [OF md(2)]] t [OF md(1)] True
        by (auto simp: page_leaf_def s')
    next
      case False
      then have "table_of s d (m div 1024) \<noteq> ?t"
        using wf md nd by (auto simp: directory_wf_def inj_on_def)
      then have "entry_at s' (table_of s d (m div 1024)) (of_nat (m mod 1024))
          = entry_at s1 (table_of s d (m div 1024)) (of_nat (m mod 1024))"
        using same_page_entry [OF p2 [OF tal(1) [OF md(1)]] u [OF md(2)]] by blast
      then show ?thesis using keep [OF u [OF md(2)]] t [OF md(1)] False by (auto simp: page_leaf_def)
    qed
  qed
qed

lemma set_leaf_wf:
  assumes wf: "directory_wf s d" and n: "n < 1048576"
  shows "directory_wf (set_leaf s d n v) d" and "dir_pages (set_leaf s d n v) d = dir_pages s d"
proof -
  let ?s = "set_leaf s d n v"
  note f = set_leaf_facts [OF wf n, where v = v]
  have t: "table_of ?s d ` {..<1024} = table_of s d ` {..<1024}" using f(6) by auto
  show pages: "dir_pages ?s d = dir_pages s d" by (simp add: dir_pages_def t)
  have bits: "entry_at ?s d (of_nat i) AND 0x83 = 0x03" if "i < 1024" for i
    using f(5) [OF that] wf that by (simp add: directory_wf_def bit.conj_disj_distrib2)
  have user: "entry_at ?s d (of_nat (m div 1024)) AND 4 = 4" if m: "m < 1048576" "page_leaf ?s d m AND 5 = 5" for m
  proof -
    have i: "m div 1024 < 1024" using m(1) by (simp add: less_mult_imp_div_less)
    show ?thesis
      using f(5) [OF i] f(7) [OF m(1)] m wf
      by (auto simp: directory_wf_def bit.conj_disj_distrib2 split: if_splits)
  qed
  have "inj_on (table_of ?s d) {..<1024}"
    using wf f(6) by (auto simp: directory_wf_def inj_on_def)
  then show "directory_wf ?s d"
    using wf f(3,4) pages t bits user by (simp add: directory_wf_def)
qed

section \<open>When a directory can be built\<close>

text \<open>The number of free blocks decides whether single-block allocations succeed.\<close>

definition free_blocks :: "kmem \<Rightarrow> nat" where
  "free_blocks s = length (filter entry_free (entries (table (kernel_heap s))))"

lemma free_run_one: "(\<exists>j. free_run es j 1) \<longleftrightarrow> 0 < length (filter entry_free es)"
  by (force simp: free_run_def filter_empty_conv in_set_conv_nth Suc_le_eq)

lemma run_entries_taken: "filter entry_free (run_entries n) = []"
  by (simp add: run_entries_def filter_empty_conv entry_free_def heap_get_entry_type_def heap_consts)

lemma run_free_count:
  "length (filter entry_free (pre @ run_entries n @ post)) + n
     = length (filter entry_free (pre @ replicate n 0 @ post))"
proof -
  have "entry_free 0" by (simp add: entry_free_def heap_get_entry_type_def heap_consts)
  then show ?thesis by (simp add: run_entries_taken)
qed

lemma heap_place_free_count:
  assumes "heap_wf h" and "free_run (entries (table h)) j n" and "0 < n"
  shows "length (filter entry_free (entries (table (heap_place h j n)))) + n
    = length (filter entry_free (entries (table h)))"
proof -
  let ?es = "entries (table h)"
  have split: "?es = take j ?es @ replicate n 0 @ drop (j + n) ?es"
    by (rule free_run_split(1) [OF _ assms(2)]) (use assms(1) in \<open>simp add: heap_wf_def\<close>)
  show ?thesis
    using run_free_count [of "take j ?es" n "drop (j + n) ?es"] unfolding split [symmetric]
    by (simp add: heap_place_def)
qed

lemma kzalloc_page_count:
  assumes wf: "kmem_wf s" and k: "kzalloc s n = (p, s')" and n: "heap_blocks n = 1" "heap_accepts n"
  shows "p \<noteq> 0 \<longleftrightarrow> 0 < free_blocks s" and "p \<noteq> 0 \<Longrightarrow> free_blocks s = Suc (free_blocks s')"
proof -
  from k obtain h where m: "heap_malloc (kernel_heap s) n = (p, h)" "kernel_heap s' = h"
    by (rule kzalloc_malloc)
  have hw: "heap_wf (kernel_heap s)" using wf by (simp add: kmem_wf_def)
  show "p \<noteq> 0 \<longleftrightarrow> 0 < free_blocks s"
    using heap_malloc_null(1) [OF hw m(1)] n free_run_one [of "entries (table (kernel_heap s))"]
    by (simp add: heap_fits_def free_blocks_def)
  show "free_blocks s = Suc (free_blocks s')" if "p \<noteq> 0"
    using hw m(1)
  proof (cases rule: heap_malloc_cases)
    case (ok j)
    then show ?thesis using heap_place_free_count [OF hw ok(2,4)] m(2) n by (simp add: free_blocks_def)
  qed (use that in simp)
qed

lemma free_blocks_simps [simp]:
  "free_blocks (set_entry_at s t i v) = free_blocks s"
  "free_blocks (paging_fill_table s t off fl) = free_blocks s"
  by (simp_all add: free_blocks_def paging_fill_table_facts)

lemma heap_accepts_page [simp]: "heap_accepts 4096" "heap_accepts 4"
  by (simp_all add: heap_accepts_def)

lemma paging_new_tables_count:
  assumes "kmem_wf s" and "i \<le> 1024" and "paging_new_tables s d flags i off = (n, ok, s')"
  shows "ok \<longleftrightarrow> 1024 - i \<le> free_blocks s" and "ok \<Longrightarrow> free_blocks s' + (1024 - i) = free_blocks s"
proof -
  have "(ok \<longleftrightarrow> 1024 - i \<le> free_blocks s) \<and> (ok \<longrightarrow> free_blocks s' + (1024 - i) = free_blocks s)"
    using assms
  proof (induction s d flags i off rule: paging_new_tables.induct)
    case (1 s d flags i off)
    obtain t s1 where k: "kzalloc s 4096 = (t, s1)" by force
    note c = kzalloc_page_count [OF 1(2) k heap_blocks_page(1) heap_accepts_page(1)]
    have wf1: "kmem_wf s1" using kpool.malloc_inv [OF 1(2) k] .
    show ?case
    proof (cases "i < 1024 \<and> t \<noteq> 0")
      case True
      have r: "paging_new_tables (set_entry_at (paging_fill_table s1 t off flags) d (of_nat i)
          (t OR ucast flags OR PAGING_IS_WRITEABLE)) d flags (Suc i) (off + 4194304) = (n, ok, s')"
        using 1(4) True k by (simp add: paging_new_tables.simps [of s] paging_consts)
      have "(ok \<longleftrightarrow> 1024 - Suc i \<le> free_blocks s1) \<and> (ok \<longrightarrow> free_blocks s' + (1024 - Suc i) = free_blocks s1)"
        using 1(1) [OF _ refl _ _ refl refl, of t s1] True k r wf1
        by (simp add: paging_consts paging_fill_table_facts)
      then show ?thesis using True c by auto
    next
      case False
      then show ?thesis
        using 1(3,4) k c by (auto simp: paging_new_tables.simps [of s] paging_consts split: if_splits)
    qed
  qed
  then show "ok \<longleftrightarrow> 1024 - i \<le> free_blocks s" and "ok \<Longrightarrow> free_blocks s' + (1024 - i) = free_blocks s"
    by auto
qed

lemma paging_new_4gb_null:
  assumes wf: "kmem_wf s" and n: "paging_new_4gb s flags = (c, s')"
  shows "c \<noteq> 0 \<longleftrightarrow> 1026 \<le> free_blocks s"
proof -
  obtain d s1 where k1: "kzalloc s 4096 = (d, s1)" by force
  obtain nt ok s2 where b: "paging_new_tables s1 d flags 0 0 = (nt, ok, s2)" by (metis prod_cases3)
  obtain c' s3 where k3: "kzalloc s2 4 = (c', s3)" by force
  note c1 = kzalloc_page_count [OF wf k1 heap_blocks_page(1) heap_accepts_page(1)]
  have wf1: "kmem_wf s1" using kpool.malloc_inv [OF wf k1] .
  note c2 = paging_new_tables_count [OF wf1 _ b]
  have c: "c = (if d \<noteq> 0 \<and> ok \<and> c' \<noteq> 0 then c' else 0)"
    using n k1 b k3 by (auto simp: paging_new_4gb_def paging_consts Let_def split: if_splits)
  show ?thesis
  proof (cases "d \<noteq> 0")
    case True
    from paging_new_tables_start [OF wf k1 True b] obtain ts where "tables_built s2 d flags ts" by blast
    then have "kmem_wf s2" by (simp add: tables_built_def)
    from kzalloc_page_count [OF this k3 heap_blocks_page(2) heap_accepts_page(2)]
    show ?thesis using c c1 c2 True by auto
  qed (use c c1 in auto)
qed

section \<open>Page base and offset of an address\<close>

lemma page_base_and: "a AND 0xFFFFF000 = (of_nat (page_number a * 4096) :: u32)"
proof -
  have m: "(0xFFFFF000 :: u32) = push_bit 12 (mask 20)"
    by (simp add: mask_eq_exp_minus_1 push_bit_eq_mult)
  have "a AND 0xFFFFF000 = push_bit 12 (drop_bit 12 a)"
    unfolding m by (rule bit_word_eqI) (auto simp: bit_simps)
  also have "\<dots> = (a div 4096) * 4096" by (simp add: push_bit_eq_mult drop_bit_eq_div)
  also have "\<dots> = of_nat (page_number a * 4096)"
    using u32_div_mod_of_nat(1) [of a 4096] by (simp add: page_number_def)
  finally show ?thesis .
qed

lemma page_base_aligned: "n < 1048576 \<Longrightarrow> page_aligned (of_nat (n * 4096))"
  using unat_of_nat_u32 [of "n * 4096"] by (simp add: page_aligned_def)

lemma page_base_offset: "(a AND 0xFFFFF000) OR (a AND 0xFFF) = (a :: u32)"
proof -
  have "(0xFFFFF000 :: u32) OR 0xFFF = - 1" by simp
  then show ?thesis using bit.conj_disj_distrib [of a "0xFFFFF000" "0xFFF"] by (metis and.right_neutral)
qed

lemma page_base_eq: "page_aligned a \<Longrightarrow> of_nat (page_number a * 4096) = a"
  by (metis entry_address_table(1) entry_address_def page_base_and or.right_neutral unat_0 zero_less_numeral)

lemma page_number_inject: "page_aligned a \<Longrightarrow> page_aligned b \<Longrightarrow> page_number a = page_number b \<longleftrightarrow> a = b"
  by (metis page_base_eq)

lemma lower_page_eq:
  "paging_align_to_lower_page a = of_nat (page_number a * 4096)" "page_aligned (paging_align_to_lower_page a)"
  "page_number (paging_align_to_lower_page a) = page_number a"
proof -
  have u: "unat (a - a mod 4096) = page_number a * 4096"
    by (subst unat_sub_u32) (simp_all add: unat_mod page_number_def minus_mod_eq_mult_div mult.commute)
  then have "a - a mod 4096 = of_nat (page_number a * 4096)"
    by (metis unat_of_nat_u32 unat_u32_less word_unat_eq_iff)
  then show e: "paging_align_to_lower_page a = of_nat (page_number a * 4096)"
    by (simp add: paging_align_to_lower_page_def paging_consts)
  show "page_aligned (paging_align_to_lower_page a)"
    unfolding e by (rule page_base_aligned [OF page_number_less])
  show "page_number (paging_align_to_lower_page a) = page_number a"
    using u by (simp add: paging_align_to_lower_page_def paging_consts page_number_def)
qed

section \<open>Other directories are not affected\<close>

lemma directory_wf_frame:
  assumes wf: "directory_wf s d" and kw: "kmem_wf s'" "kaddrs s \<subseteq> kaddrs s'"
    and same: "\<And>q. q \<in> dir_pages s d \<Longrightarrow> same_page q s s'"
  shows "directory_wf s' d" and "dir_pages s' d = dir_pages s d"
    and "n < 1048576 \<Longrightarrow> page_leaf s' d n = page_leaf s d n"
    and "i < 1024 \<Longrightarrow> table_of s' d i = table_of s d i"
    and "i < 1024 \<Longrightarrow> entry_at s' d (of_nat i) = entry_at s d (of_nat i)"
proof -
  have u: "unat (of_nat k :: u32) < 1024" if "k < 1024" for k using that by (simp add: unat_of_nat_u32)
  show e: "entry_at s' d (of_nat i) = entry_at s d (of_nat i)" if "i < 1024" for i
    by (rule same_page_entry [OF same u [OF that]]) (simp add: dir_pages_def)
  then show t: "table_of s' d i = table_of s d i" if "i < 1024" for i
    using that by (simp add: table_of_def)
  have img: "table_of s' d ` {..<1024} = table_of s d ` {..<1024}" using t by auto
  then show pages: "dir_pages s' d = dir_pages s d" by (simp add: dir_pages_def)
  show l: "page_leaf s' d n = page_leaf s d n" if n: "n < 1048576" for n
  proof -
    have nd: "n div 1024 < 1024" "n mod 1024 < 1024" using n by (simp_all add: less_mult_imp_div_less)
    then have "same_page (table_of s d (n div 1024)) s s'" by (intro same) (simp add: dir_pages_def)
    from same_page_entry [OF this u [OF nd(2)]] show ?thesis by (simp add: page_leaf_def t [OF nd(1)])
  qed
  have "inj_on (table_of s' d) {..<1024}" using wf t by (auto simp: directory_wf_def inj_on_def)
  moreover have "dir_pages s d \<subseteq> kaddrs s'" using wf kw(2) unfolding directory_wf_def by blast
  moreover have "\<forall>n<1048576. page_leaf s' d n AND 5 = 5 \<longrightarrow> entry_at s' d (of_nat (n div 1024)) AND 4 = 4"
    using wf l e by (simp add: directory_wf_def less_mult_imp_div_less)
  ultimately show "directory_wf s' d"
    using wf kw(1) pages img e unfolding directory_wf_def by simp
qed

section \<open>An example state\<close>

text \<open>The memory right after \<^verbatim>\<open>kheap_init\<close>, and an address space built in it with supervisor pages.\<close>

definition kmem_boot :: kmem where
  "kmem_boot = \<lparr>kernel_heap = \<lparr>table = \<lparr>entries = replicate 25600 0, total = 25600\<rparr>, saddr = 0x01000000\<rparr>,
     bytes = (\<lambda>_. 0), current_directory = 0\<rparr>"

lemma kmem_boot_wf: "kmem_wf kmem_boot" and kmem_boot_live: "klive kmem_boot = {}"
  and kmem_boot_free: "free_blocks kmem_boot = 25600"
proof -
  have "entry_free 0" by (simp add: entry_free_def heap_get_entry_type_def heap_consts)
  then show "free_blocks kmem_boot = 25600" by (simp add: free_blocks_def kmem_boot_def)
  show "kmem_wf kmem_boot" "klive kmem_boot = {}"
    by (simp_all add: kmem_boot_def kmem_wf_def klive_def heap_live_def runs_zeros heap_wf_def
        table_ok_def table_run_zeros heap_validate_alignment_def heap_consts)
qed

lemma example_directory:
  obtains c d s where "directory_wf s d" "paging_4gb_chunk_get_directory s c = d" "c \<in> kaddrs s"
    "c \<notin> dir_pages s d" "d \<noteq> current_directory s" "\<And>n. n < 1048576 \<Longrightarrow> page_leaf s d n = of_nat (n * 4096) OR 1"
proof -
  obtain c s where n: "paging_new_4gb kmem_boot 1 = (c, s)" by force
  have c: "c \<noteq> 0" using paging_new_4gb_null [OF kmem_boot_wf n] by (simp add: kmem_boot_free)
  from paging_new_4gb_cases [OF kmem_boot_wf n] obtain d ts where
    ok: "paging_4gb_chunk_get_directory s c = d" "tables_built s d 1 ts" "length ts = 1024"
      "distinct (c # d # ts)" "klive s = klive kmem_boot \<union> (\<lambda>p. (p, 4096)) ` set (c # d # ts)"
      "current_directory s = current_directory kmem_boot"
    using c by (metis (no_types, lifting))
  note b = tables_built_wf [OF ok(2,3)]
  have "d \<in> kaddrs s" "kmem_wf s" using ok(2) by (simp_all add: tables_built_def)
  then have "d \<noteq> 0" using kpool.null_not_live by blast
  then show ?thesis
    using that [of s d c] ok b by (simp add: kmem_boot_def image_Un image_image)
qed

section \<open>Properties\<close>

text \<open>
  C7. A new address space. \<^verbatim>\<open>paging_new_4gb\<close> succeeds exactly when 1026 blocks are free. The new
  directory then maps every virtual address to itself with the given flags, user access included only
  if the flags grant it, and owns 1026 pages that nothing else owns; when memory runs out half-way
  everything allocated so far is released again. Either way no byte of a live allocation changes.
\<close>

theorem paging_new_4gb_correct:
  assumes "kmem_wf s" and "flags AND 0x81 = 1" and "paging_new_4gb s flags = (c, s')"
  defines "d \<equiv> paging_4gb_chunk_get_directory s' c"
  shows "(if 1026 \<le> free_blocks s
     then c \<noteq> 0 \<and> directory_wf s' d
        \<and> (\<forall>a. paging_get_physical_address s' d a = a)
        \<and> (\<forall>a w. paging_user_translate s' d a w
             = (if flags AND 4 = 4 \<and> (w \<longrightarrow> flags AND 2 = 2) then Inr a else Inl EINVARG))
        \<and> klive s' = klive s \<union> (\<lambda>p. (p, 4096)) ` insert c (dir_pages s' d)
        \<and> insert c (dir_pages s' d) \<inter> kaddrs s = {}
     else c = 0 \<and> kmem_wf s' \<and> klive s' = klive s)
    \<and> (\<forall>q \<in> kaddrs s. same_page q s s')"
  using assms(1,3)
proof (cases rule: paging_new_4gb_cases)
  case fail
  then show ?thesis using paging_new_4gb_null [OF assms(1,3)] by auto
next
  case (ok d' ts)
  then have d: "d = d'" by (simp add: d_def)
  note b = tables_built_wf [OF ok(3,4) assms(2), folded d]
  have leaf: "page_leaf s' d (page_number a) = of_nat (page_number a * 4096) OR ucast flags" for a
    using b(3) page_number_less .
  have base: "page_aligned (of_nat (page_number a * 4096))" for a
    using page_base_aligned [OF page_number_less] .
  have fl: "unat (ucast flags :: u32) < 4096" using flags_small(2) [of flags] by simp
  have addr: "page_leaf s' d (page_number a) AND 0xFFFFF000 = of_nat (page_number a * 4096)" for a
    using entry_address_table(1) [OF base fl] by (simp add: leaf entry_address_def)
  have phys: "paging_get_physical_address s' d a = a" for a
    by (simp only: paging_get_physical_address_def Let_def paging_get_leaf [OF lower_page_eq(2)]
        lower_page_eq(3) addr) (simp add: lower_page_eq(1))
  have bits: "page_leaf s' d (page_number a) AND m = ucast flags AND m" if "unat m < 4096" for a m
    using and_mask_low [OF base that] by (simp add: leaf bit.conj_disj_distrib2)
  have cast: "ucast flags AND (ucast m :: u32) = ucast m \<longleftrightarrow> flags AND m = m" for m :: u8
    by (simp add: unsigned_and_eq [symmetric]) (metis unat_ucast_u8 word_unat_eq_iff)
  have one: "flags AND 1 = 1" using and_disjoint_le [of "ucast flags" 1 1] flags_present(1) [OF assms(2)] cast [of 1] by simp
  have five: "ucast flags AND 5 = (5 :: u32) \<longleftrightarrow> flags AND 4 = 4"
    using cast [of 1] cast [of 4] or_flags_and [of "ucast flags" 1 4] one by simp
  have two: "ucast flags AND 2 = (2 :: u32) \<longleftrightarrow> flags AND 2 = 2" using cast [of 2] by simp
  have "paging_user_translate s' d a w
      = (if flags AND 4 = 4 \<and> (w \<longrightarrow> flags AND 2 = 2) then Inr a else Inl EINVARG)" for a w
    using page_base_offset [of a, unfolded page_base_and [of a]]
    by (simp add: paging_user_translate_eq [OF b(1)] Let_def bits five two addr)
  then show ?thesis
    using ok b phys d paging_new_4gb_null [OF assms(1,3)] by auto
qed

theorem paging_new_4gb_correct_witness:
  "\<exists>c s'. paging_new_4gb kmem_boot 3 = (c, s') \<and> c \<noteq> 0
     \<and> paging_get_physical_address s' (paging_4gb_chunk_get_directory s' c) 0x00400123 = 0x00400123
     \<and> paging_user_translate s' (paging_4gb_chunk_get_directory s' c) 0x00400123 False = Inl EINVARG"
proof -
  obtain c s' where n: "paging_new_4gb kmem_boot 3 = (c, s')" by force
  have "(3 :: u8) AND 0x81 = 1" by simp
  from paging_new_4gb_correct [OF kmem_boot_wf this n] n show ?thesis by (simp add: kmem_boot_free)
qed

text \<open>
  C8. Releasing an address space that \<^verbatim>\<open>paging_new_4gb\<close> built gives back every block it took: the
  set of live allocations is the one before the construction.
\<close>

theorem paging_new_free_4gb:
  assumes "kmem_wf s" and "flags AND 0x81 = 1" and "paging_new_4gb s flags = (c, s')" and "c \<noteq> 0"
  shows "kmem_wf (paging_free_4gb s' c) \<and> klive (paging_free_4gb s' c) = klive s"
  using assms(1,3)
proof (cases rule: paging_new_4gb_cases)
  case (ok d ts)
  note b = tables_built_wf [OF ok(3,4) assms(2)]
  note f = paging_free_4gb_live [OF b(1) ok(2)]
  have "klive (paging_free_4gb s' c) = {r \<in> klive s'. fst r \<notin> set (c # d # ts)}"
    using f(2) b(2) by simp
  also have "\<dots> = klive s" using ok(5,7) by force
  finally show ?thesis using f(1) by simp
qed (use assms(4) in simp)

theorem paging_new_free_4gb_witness:
  "\<exists>c s'. paging_new_4gb kmem_boot 3 = (c, s') \<and> c \<noteq> 0 \<and> klive (paging_free_4gb s' c) = {}"
proof -
  obtain c s' where n: "paging_new_4gb kmem_boot 3 = (c, s')" by force
  have f: "(3 :: u8) AND 0x81 = 1" by simp
  have c: "c \<noteq> 0" using paging_new_4gb_null [OF kmem_boot_wf n] by (simp add: kmem_boot_free)
  from paging_new_free_4gb [OF kmem_boot_wf f n c] n c show ?thesis by (simp add: kmem_boot_live)
qed

text \<open>
  C9. Changing one mapping. \<^verbatim>\<open>paging_set\<close> refuses the loaded directory and unaligned addresses without
  effect. Otherwise exactly the entry of that page changes to the given value, the directory stays
  well-formed and keeps its pages, and a directory with other pages keeps all its entries.
\<close>

theorem paging_set_correct:
  assumes "directory_wf s d" and "paging_set s d a v = (r, s')"
  shows "if d = current_directory s \<or> \<not> page_aligned a then r = Inl EINVARG \<and> s' = s
    else r = Inr () \<and> directory_wf s' d \<and> dir_pages s' d = dir_pages s d \<and> klive s' = klive s
      \<and> (\<forall>b. page_aligned b \<longrightarrow> paging_get s' d b = (if b = a then v else paging_get s d b))
      \<and> (\<forall>d'. directory_wf s d' \<and> dir_pages s d' \<inter> dir_pages s d = {}
           \<longrightarrow> directory_wf s' d' \<and> (\<forall>b. page_aligned b \<longrightarrow> paging_get s' d' b = paging_get s d' b))"
proof (cases "d = current_directory s \<or> \<not> page_aligned a")
  case True
  then show ?thesis using assms paging_set_eq [OF assms(1), of a v] by auto
next
  case False
  let ?n = "page_number a"
  have s': "r = Inr ()" "s' = set_leaf s d ?n v" using assms paging_set_eq [OF assms(1), of a v] False by auto
  note f = set_leaf_facts [OF assms(1) page_number_less [of a], where v = v, folded s'(2)]
  note w = set_leaf_wf [OF assms(1) page_number_less [of a], where v = v, folded s'(2)]
  have own: "paging_get s' d b = (if b = a then v else paging_get s d b)" if "page_aligned b" for b
    using f(7) [OF page_number_less [of b]] that False page_number_inject
    by (auto simp: paging_get_leaf)
  have other: "directory_wf s' d' \<and> (\<forall>b. page_aligned b \<longrightarrow> paging_get s' d' b = paging_get s d' b)"
    if "directory_wf s d'" "dir_pages s d' \<inter> dir_pages s d = {}" for d'
  proof -
    have "same_page q s s'" if "q \<in> dir_pages s d'" for q
      using f(8) [OF directory_wf_aligned [OF \<open>directory_wf s d'\<close> that]] that \<open>dir_pages s d' \<inter> _ = {}\<close> by auto
    from directory_wf_frame [OF that(1) f(4) _ this] page_number_less
    show ?thesis by (simp add: paging_get_leaf f(3))
  qed
  show ?thesis using False s'(1) w f(3) own other by simp
qed

theorem paging_set_correct_witness:
  "\<exists>s d s'. directory_wf s d \<and> paging_set s d 0x00400000 0x00800007 = (Inr (), s')
     \<and> paging_get s' d 0x00400000 = 0x00800007 \<and> paging_get s' d 0x00401000 = 0x00401001"
proof -
  obtain c d s where e: "directory_wf s d" "d \<noteq> current_directory s"
    "\<And>n. n < 1048576 \<Longrightarrow> page_leaf s d n = of_nat (n * 4096) OR 1" by (rule example_directory) blast
  obtain r s' where p: "paging_set s d 0x00400000 0x00800007 = (r, s')" by force
  have al: "page_aligned 0x00400000" "page_aligned 0x00401000" by (simp_all add: page_aligned_def)
  have "page_number 0x00401000 = 0x401" by (simp add: page_number_def)
  then have "paging_get s d 0x00401000 = 0x00401001" using e(3) [of "0x401"] al(2) by (simp add: paging_get_leaf)
  moreover have "paging_get s' d b = (if b = 0x00400000 then 0x00800007 else paging_get s d b)"
    and "r = Inr ()" if "page_aligned b" for b
    using paging_set_correct [OF e(1) p] e(2) al that by auto
  ultimately have "paging_get s' d 0x00400000 = 0x00800007 \<and> paging_get s' d 0x00401000 = 0x00401001
      \<and> r = Inr ()" using al by simp
  with e(1) p show ?thesis by blast
qed

text \<open>
  C10. User access. In a well-formed directory a user address translates exactly when its page table
  entry is present and user-accessible (and writable, for a write): the directory level never refuses
  what the leaf grants nor grants what the leaf refuses. The result is the entry's frame plus the
  offset inside the page.
\<close>

theorem paging_user_translate_correct:
  assumes "directory_wf s d"
  shows "paging_user_translate s d a write =
    (let leaf = paging_get s d (paging_align_to_lower_page a)
     in if leaf AND (PAGING_IS_PRESENT OR PAGING_ACCESS_FROM_ALL) = PAGING_IS_PRESENT OR PAGING_ACCESS_FROM_ALL
           \<and> (write \<longrightarrow> leaf AND PAGING_IS_WRITEABLE = PAGING_IS_WRITEABLE)
        then Inr ((leaf AND 0xFFFFF000) OR (a AND 0xFFF)) else Inl EINVARG)"
  by (simp only: paging_user_translate_eq [OF assms] Let_def paging_get_leaf [OF lower_page_eq(2)]
      lower_page_eq(3)) (simp add: paging_consts)

theorem paging_user_translate_correct_witness:
  "\<exists>s d. directory_wf s d \<and> paging_user_translate s d 0x00400010 False = Inl EINVARG"
proof -
  obtain c d s where e: "directory_wf s d"
    "\<And>n. n < 1048576 \<Longrightarrow> page_leaf s d n = of_nat (n * 4096) OR 1" by (rule example_directory) blast
  have n: "page_number 0x00400000 = 0x400" "paging_align_to_lower_page 0x00400010 = 0x00400000"
    by (simp_all add: page_number_def paging_align_to_lower_page_def paging_consts)
  have "paging_get s d (paging_align_to_lower_page 0x00400010) = 0x00400001"
    using e(2) [of "0x400"] n by (simp add: paging_get_leaf page_aligned_def)
  with paging_user_translate_correct [OF e(1), of "0x00400010" False] e(1) show ?thesis
    by (auto simp: Let_def paging_consts)
qed

text \<open>Mapping a range, page by page.\<close>

lemma page_aligned_add:
  assumes "page_aligned a" and "page_aligned b"
  shows "page_aligned (a + b)"
proof -
  have "unat (a + b) mod 4096 = (unat a + unat b) mod 4294967296 mod 4096"
    by (simp add: unat_word_ariths)
  also have "\<dots> = (unat a + unat b) mod 4096" by (rule mod_mod_cancel) simp
  also have "\<dots> = (unat a mod 4096 + unat b mod 4096) mod 4096" by (rule mod_add_eq [symmetric])
  finally show ?thesis using assms by (simp add: page_aligned_def)
qed

lemma page_aligned_mult: "page_aligned (of_nat k * 4096)"
proof (induction k)
  case (Suc k)
  have "page_aligned 4096" by (simp add: page_aligned_def)
  from page_aligned_add [OF this Suc] show ?case by (simp add: distrib_right)
qed (simp add: page_aligned_def)

lemma page_step_inject:
  assumes "i < 1048576" and "j < 1048576" and "v + of_nat i * 4096 = v + of_nat j * (4096 :: u32)"
  shows "i = j"
proof -
  have "(of_nat (i * 4096) :: u32) = of_nat (j * 4096)" using assms(3) by simp
  then have "unat (of_nat (i * 4096) :: u32) = unat (of_nat (j * 4096) :: u32)" by (rule arg_cong)
  then show ?thesis using assms(1,2) unat_of_nat_u32 [of "i * 4096"] unat_of_nat_u32 [of "j * 4096"] by simp
qed

lemma paging_map_eq:
  assumes "directory_wf s d" and "paging_4gb_chunk_get_directory s c = d" and "d \<noteq> current_directory s"
  shows "paging_map s c v p fl =
    (if page_aligned v \<and> page_aligned p then (Inr (), set_leaf s d (page_number v) (p OR fl)) else (Inl EINVARG, s))"
  using assms by (auto simp: paging_map_def paging_consts page_aligned_word [symmetric] paging_set_eq)

lemma chunk_unchanged:
  assumes "directory_wf s d" and "c \<in> kaddrs s" and "c \<notin> dir_pages s d" and "n < 1048576"
  shows "paging_4gb_chunk_get_directory (set_leaf s d n v) c = paging_4gb_chunk_get_directory s c"
proof -
  have "page_aligned c" using kaddrs_aligned assms(1,2) by (auto simp: directory_wf_def)
  from same_page_entry [OF set_leaf_facts(8) [OF assms(1,4) this assms(3), where v = v], of 0]
  show ?thesis by (simp add: paging_4gb_chunk_get_directory_def)
qed

lemma paging_map_range_eq:
  assumes "directory_wf s d" and "paging_4gb_chunk_get_directory s c = d" and "d \<noteq> current_directory s"
    and "c \<in> kaddrs s" and "c \<notin> dir_pages s d" and "page_aligned v" and "page_aligned p"
  shows "paging_map_range s c v p n fl =
    (Inr (), fold (\<lambda>i s. set_leaf s d (page_number (v + of_nat i * 4096)) ((p + of_nat i * 4096) OR fl)) [0..<n] s)"
  using assms
proof (induction n arbitrary: s v p)
  case (Suc n)
  let ?s = "set_leaf s d (page_number v) (p OR fl)"
  note f = set_leaf_facts [OF Suc.prems(1) page_number_less [of v], where v = "p OR fl"]
  note w = set_leaf_wf [OF Suc.prems(1) page_number_less [of v], where v = "p OR fl"]
  have p4: "page_aligned 4096" by (simp add: page_aligned_def)
  have "paging_map_range s c v p (Suc n) fl = paging_map_range ?s c (v + 4096) (p + 4096) n fl"
    using paging_map_eq [OF Suc.prems(1-3)] Suc.prems(6,7) by (simp add: paging_consts)
  also have "\<dots> = (Inr (), fold (\<lambda>i s. set_leaf s d (page_number (v + 4096 + of_nat i * 4096))
      ((p + 4096 + of_nat i * 4096) OR fl)) [0..<n] ?s)"
    using Suc.prems w f chunk_unchanged [OF Suc.prems(1,4,5) page_number_less] p4
    by (intro Suc.IH) (auto intro: page_aligned_add)
  also have "fold (\<lambda>i s. set_leaf s d (page_number (v + 4096 + of_nat i * 4096))
      ((p + 4096 + of_nat i * 4096) OR fl)) [0..<n] ?s
      = fold (\<lambda>i s. set_leaf s d (page_number (v + of_nat i * 4096)) ((p + of_nat i * 4096) OR fl))
          (0 # map Suc [0..<n]) s"
    by (simp add: fold_map o_def distrib_right add.assoc add.commute [of 4096])
  finally show ?case by (simp only: upt_conv_Cons map_Suc_upt zero_less_Suc)
qed simp

lemma set_leaves:
  fixes f :: "nat \<Rightarrow> u32"
  assumes "directory_wf s d" and "n \<le> 1048576" and "page_aligned v"
  defines "s' \<equiv> fold (\<lambda>i s. set_leaf s d (page_number (v + of_nat i * 4096)) (f i)) [0..<n] s"
  shows "directory_wf s' d \<and> dir_pages s' d = dir_pages s d \<and> klive s' = klive s
    \<and> current_directory s' = current_directory s
    \<and> (\<forall>q. page_aligned q \<and> q \<notin> dir_pages s d \<longrightarrow> same_page q s s')
    \<and> (\<forall>b. page_aligned b \<longrightarrow> (\<forall>i<n. b = v + of_nat i * 4096 \<longrightarrow> paging_get s' d b = f i)
        \<and> ((\<forall>i<n. b \<noteq> v + of_nat i * 4096) \<longrightarrow> paging_get s' d b = paging_get s d b))"
  using assms(2) unfolding s'_def
proof (induction n)
  case 0
  then show ?case using assms(1) by (simp add: same_page_def)
next
  case (Suc n)
  let ?s = "fold (\<lambda>i s. set_leaf s d (page_number (v + of_nat i * 4096)) (f i)) [0..<n] s"
  let ?b = "v + of_nat n * 4096"
  have IH: "directory_wf ?s d" "dir_pages ?s d = dir_pages s d" "klive ?s = klive s"
    "current_directory ?s = current_directory s"
    "\<And>q. page_aligned q \<Longrightarrow> q \<notin> dir_pages s d \<Longrightarrow> same_page q s ?s"
    "\<And>b i. page_aligned b \<Longrightarrow> i < n \<Longrightarrow> b = v + of_nat i * 4096 \<Longrightarrow> paging_get ?s d b = f i"
    "\<And>b. page_aligned b \<Longrightarrow> (\<And>i. i < n \<Longrightarrow> b \<noteq> v + of_nat i * 4096) \<Longrightarrow> paging_get ?s d b = paging_get s d b"
    using Suc by auto
  define s2 where "s2 = set_leaf ?s d (page_number ?b) (f n)"
  have s2: "fold (\<lambda>i s. set_leaf s d (page_number (v + of_nat i * 4096)) (f i)) [0..<Suc n] s = s2"
    by (simp add: s2_def)
  note g = set_leaf_facts [OF IH(1) page_number_less [of ?b], where v = "f n", folded s2_def]
  note w = set_leaf_wf [OF IH(1) page_number_less [of ?b], where v = "f n", folded s2_def]
  have al: "page_aligned ?b" using assms(3) page_aligned_mult by (rule page_aligned_add)
  have get: "paging_get s2 d b = (if b = ?b then f n else paging_get ?s d b)" if "page_aligned b" for b
    using g(7) [OF page_number_less [of b]] that al page_number_inject by (auto simp: paging_get_leaf)
  have inj: "i = n" if "i < Suc n" "v + of_nat i * 4096 = ?b" for i
    using page_step_inject [of i n v] that Suc.prems by simp
  have "same_page q s s2" if "page_aligned q" "q \<notin> dir_pages s d" for q
    using same_page_trans [OF IH(5) [OF that] g(8) [OF that(1)]] that(2) IH(2) by simp
  moreover have "paging_get s2 d b = f i" if "page_aligned b" "i < Suc n" "b = v + of_nat i * 4096" for b i
    using get [OF that(1)] inj [OF that(2)] IH(6) [OF that(1), of i] that(2,3) by (cases "i = n") auto
  moreover have "paging_get s2 d b = paging_get s d b"
    if "page_aligned b" "\<And>i. i < Suc n \<Longrightarrow> b \<noteq> v + of_nat i * 4096" for b
    using get [OF that(1)] IH(7) [OF that(1)] that(2) by simp
  ultimately show ?case unfolding s2 using w g(2,3) IH(2-4) by auto
qed

text \<open>
  C11. \<^verbatim>\<open>paging_map_to\<close> on an inactive address space and aligned arguments maps exactly the pages of the
  range, in order, to consecutive frames with the given flags; every other page of this address space
  and every page of memory outside its own tables is unchanged. Bad arguments are refused without effect.
\<close>

theorem paging_map_to_correct:
  assumes "directory_wf s d" and "paging_4gb_chunk_get_directory s c = d" and "d \<noteq> current_directory s"
    and "c \<in> kaddrs s" and "c \<notin> dir_pages s d" and "paging_map_to s c v p p_end fl = (r, s')"
  shows "if page_aligned v \<and> page_aligned p \<and> page_aligned p_end \<and> p \<le> p_end
    then r = Inr () \<and> directory_wf s' d \<and> dir_pages s' d = dir_pages s d \<and> klive s' = klive s
      \<and> (\<forall>i < unat ((p_end - p) div 4096).
           paging_get s' d (v + of_nat i * 4096) = (p + of_nat i * 4096) OR fl)
      \<and> (\<forall>b. page_aligned b \<and> (\<forall>i < unat ((p_end - p) div 4096). b \<noteq> v + of_nat i * 4096)
           \<longrightarrow> paging_get s' d b = paging_get s d b)
      \<and> (\<forall>q. page_aligned q \<and> q \<notin> dir_pages s d \<longrightarrow> same_page q s s')
    else r = Inl EINVARG \<and> s' = s"
proof (cases "page_aligned v \<and> page_aligned p \<and> page_aligned p_end \<and> p \<le> p_end")
  case False
  then show ?thesis
    using assms(6)
    by (auto simp: paging_map_to_def paging_consts page_aligned_word not_le split: if_splits)
next
  case True
  let ?n = "unat ((p_end - p) div 4096)"
  have n: "?n \<le> 1048576" using unat_u32_less [of "p_end - p"] by (simp add: unat_div)
  have v: "page_aligned v" and p: "page_aligned p" using True by simp_all
  have "paging_map_to s c v p p_end fl = paging_map_range s c v p ?n fl"
    using True by (auto simp: paging_map_to_def paging_consts page_aligned_word [symmetric])
  with paging_map_range_eq [OF assms(1-5) v p] assms(6)
  have s': "r = Inr ()"
    "s' = fold (\<lambda>i s. set_leaf s d (page_number (v + of_nat i * 4096)) ((p + of_nat i * 4096) OR fl)) [0..<?n] s"
    by simp_all
  note l = set_leaves [OF assms(1) n v, of "\<lambda>i. (p + of_nat i * 4096) OR fl", folded s'(2)]
  have al: "page_aligned (v + of_nat i * 4096)" for i using v page_aligned_mult by (rule page_aligned_add)
  have "paging_get s' d (v + of_nat i * 4096) = (p + of_nat i * 4096) OR fl" if "i < ?n" for i
    using l al [of i] that by blast
  moreover have "paging_get s' d b = paging_get s d b"
    if "page_aligned b" "\<forall>i < ?n. b \<noteq> v + of_nat i * 4096" for b
    using l that by blast
  ultimately show ?thesis using l True s'(1) by simp
qed

theorem paging_map_to_correct_witness:
  "\<exists>s c d s'. directory_wf s d \<and> paging_map_to s c 0x00400000 0x01800000 0x01803000 7 = (Inr (), s')
     \<and> paging_get s' d 0x00402000 = 0x01802007"
proof -
  obtain c d s where e: "directory_wf s d" "paging_4gb_chunk_get_directory s c = d" "c \<in> kaddrs s"
    "c \<notin> dir_pages s d" "d \<noteq> current_directory s" by (rule example_directory) blast
  obtain r s' where p: "paging_map_to s c 0x00400000 0x01800000 0x01803000 7 = (r, s')" by force
  have al: "page_aligned 0x00400000" "page_aligned 0x01800000" "page_aligned 0x01803000"
    by (simp_all add: page_aligned_def)
  have "r = Inr ()" and
    "\<And>i. i < 3 \<Longrightarrow> paging_get s' d (0x00400000 + of_nat i * 4096) = (0x01800000 + of_nat i * 4096) OR 7"
    using paging_map_to_correct [OF e(1,2,5,3,4) p] al by simp_all
  from this(1) this(2) [of 2] have "r = Inr () \<and> paging_get s' d 0x00402000 = 0x01802007" by simp
  with e p show ?thesis by blast
qed

end
