(* ===== verification/Keyboard.thy ===== *)
theory Keyboard
  imports Kernel_Prelude
begin

text \<open>
  Keys: the per-process queue and the list of drivers of \<^verbatim>\<open>kernel/keyboard/keyboard.c\<close>, and the PS/2
  driver \<^verbatim>\<open>kernel/keyboard/classic.c\<close>, a state machine that reads one scancode byte per interrupt.
\<close>

section \<open>The key queue of a process\<close>

text \<open>
  \<^verbatim>\<open>process->keyboard\<close>: the counters count keys and are only used modulo the buffer size and in their
  difference; they are kept as the 32-bit patterns they are stored in.
\<close>

definition RORTHOX_KEYBOARD_BUFFER_SIZE :: nat where
  "RORTHOX_KEYBOARD_BUFFER_SIZE = 1024"

record keyboard_buffer =
  kbuffer :: "u16 list"
  ktail :: u32
  khead :: u32

definition keyboard_buffer_index :: "u32 \<Rightarrow> nat" where
  "keyboard_buffer_index counter = unat counter mod RORTHOX_KEYBOARD_BUFFER_SIZE"

definition keyboard_get_tail_index :: "keyboard_buffer \<Rightarrow> nat" where
  "keyboard_get_tail_index q = keyboard_buffer_index (ktail q)"

definition keyboard_push_buffer :: "keyboard_buffer \<Rightarrow> u16 \<Rightarrow> keyboard_buffer" where
  "keyboard_push_buffer q c =
     (if c = 0 then q
      else if int RORTHOX_KEYBOARD_BUFFER_SIZE \<le> sint (ktail q - khead q) then q
      else q\<lparr>kbuffer := (kbuffer q)[keyboard_get_tail_index q := c], ktail := ktail q + 1\<rparr>)"

definition keyboard_pop_buffer :: "keyboard_buffer \<Rightarrow> u16 \<times> keyboard_buffer" where
  "keyboard_pop_buffer q =
     (let real_index = keyboard_buffer_index (khead q);
          c = kbuffer q ! real_index
      in if c = 0 then (0, q)
         else (c, q\<lparr>kbuffer := (kbuffer q)[real_index := 0], khead := khead q + 1\<rparr>))"

text \<open>The queue of the process in the foreground, and of the running task; None when there is none.\<close>

definition keyboard_push :: "keyboard_buffer option \<Rightarrow> u16 \<Rightarrow> keyboard_buffer option" where
  "keyboard_push process c = map_option (\<lambda>q. keyboard_push_buffer q c) process"

definition keyboard_pop :: "keyboard_buffer option \<Rightarrow> u16 \<times> keyboard_buffer option" where
  "keyboard_pop task = (case task of None \<Rightarrow> (0, None)
     | Some q \<Rightarrow> (let (c, q') = keyboard_pop_buffer q in (c, Some q')))"

section \<open>The PS/2 driver\<close>

definition CLASSIC_KEYBOARD_CAPSLOCK :: u8 where "CLASSIC_KEYBOARD_CAPSLOCK = 0x3A"
definition CLASSIC_KEYBOARD_LSHIFT :: u8 where "CLASSIC_KEYBOARD_LSHIFT = 0x2A"
definition CLASSIC_KEYBOARD_LSHIFT_R :: u8 where "CLASSIC_KEYBOARD_LSHIFT_R = 0xAA"
definition CLASSIC_KEYBOARD_RSHIFT :: u8 where "CLASSIC_KEYBOARD_RSHIFT = 0x36"
definition CLASSIC_KEYBOARD_RSHIFT_R :: u8 where "CLASSIC_KEYBOARD_RSHIFT_R = 0xB6"
definition CLASSIC_KEYBOARD_NUMLOCK :: u8 where "CLASSIC_KEYBOARD_NUMLOCK = 0x45"
definition CLASSIC_KEYBOARD_NUMLOCK_R :: u8 where "CLASSIC_KEYBOARD_NUMLOCK_R = 0xC5"
definition CLASSIC_KEYBOARD_EXTENDED :: u8 where "CLASSIC_KEYBOARD_EXTENDED = 0xE0"
definition CLASSIC_KEYBOARD_PAUSE :: u8 where "CLASSIC_KEYBOARD_PAUSE = 0xE1"
definition CLASSIC_KEYBOARD_PAUSE_PAYLOAD :: nat where "CLASSIC_KEYBOARD_PAUSE_PAYLOAD = 2"
definition CLASSIC_KEYBOARD_KEY_RELEASED :: u8 where "CLASSIC_KEYBOARD_KEY_RELEASED = 0x80"

lemmas classic_consts = CLASSIC_KEYBOARD_CAPSLOCK_def CLASSIC_KEYBOARD_LSHIFT_def
  CLASSIC_KEYBOARD_LSHIFT_R_def CLASSIC_KEYBOARD_RSHIFT_def CLASSIC_KEYBOARD_RSHIFT_R_def
  CLASSIC_KEYBOARD_NUMLOCK_def CLASSIC_KEYBOARD_NUMLOCK_R_def CLASSIC_KEYBOARD_EXTENDED_def
  CLASSIC_KEYBOARD_PAUSE_def CLASSIC_KEYBOARD_PAUSE_PAYLOAD_def CLASSIC_KEYBOARD_KEY_RELEASED_def

definition regular_scancodes :: "(u8 \<times> u8) list" where
  "regular_scancodes = [
    (0x01, 27), (0x02, 49), (0x03, 50), (0x04, 51), (0x05, 52), (0x06, 53), (0x07, 54),
    (0x08, 55), (0x09, 56), (0x0A, 57), (0x0B, 48), (0x0C, 45), (0x0D, 61), (0x0E, 8),
    (0x0F, 9), (0x10, 113), (0x11, 119), (0x12, 101), (0x13, 114), (0x14, 116), (0x15, 121),
    (0x16, 117), (0x17, 105), (0x18, 111), (0x19, 112), (0x1A, 91), (0x1B, 93), (0x1C, 13),
    (0x1E, 97), (0x1F, 115), (0x20, 100), (0x21, 102), (0x22, 103), (0x23, 104), (0x24, 106),
    (0x25, 107), (0x26, 108), (0x27, 59), (0x28, 39), (0x29, 96), (0x2B, 92), (0x2C, 122),
    (0x2D, 120), (0x2E, 99), (0x2F, 118), (0x30, 98), (0x31, 110), (0x32, 109), (0x33, 44),
    (0x34, 46), (0x35, 47), (0x37, 42), (0x39, 32), (0x47, 55), (0x48, 56), (0x49, 57),
    (0x4A, 45), (0x4B, 52), (0x4C, 53), (0x4D, 54), (0x4E, 43), (0x4F, 49), (0x50, 50),
    (0x51, 51), (0x52, 48), (0x53, 46), (0x00, 0)]"

definition uppercase_scancodes :: "(u8 \<times> u8) list" where
  "uppercase_scancodes = [
    (0x01, 27), (0x02, 49), (0x03, 50), (0x04, 51), (0x05, 52), (0x06, 53), (0x07, 54),
    (0x08, 55), (0x09, 56), (0x0A, 57), (0x0B, 48), (0x0C, 45), (0x0D, 61), (0x0E, 8),
    (0x0F, 9), (0x10, 81), (0x11, 87), (0x12, 69), (0x13, 82), (0x14, 84), (0x15, 89),
    (0x16, 85), (0x17, 73), (0x18, 79), (0x19, 80), (0x1A, 91), (0x1B, 93), (0x1C, 13),
    (0x1E, 65), (0x1F, 83), (0x20, 68), (0x21, 70), (0x22, 71), (0x23, 72), (0x24, 74),
    (0x25, 75), (0x26, 76), (0x27, 59), (0x28, 39), (0x29, 96), (0x2B, 92), (0x2C, 90),
    (0x2D, 88), (0x2E, 67), (0x2F, 86), (0x30, 66), (0x31, 78), (0x32, 77), (0x33, 44),
    (0x34, 46), (0x35, 47), (0x37, 42), (0x39, 32), (0x47, 55), (0x48, 56), (0x49, 57),
    (0x4A, 45), (0x4B, 52), (0x4C, 53), (0x4D, 54), (0x4E, 43), (0x4F, 49), (0x50, 50),
    (0x51, 51), (0x52, 48), (0x53, 46), (0x00, 0)]"

definition shift_modified_scancodes :: "(u8 \<times> u8) list" where
  "shift_modified_scancodes = [
    (0x01, 27), (0x02, 33), (0x03, 64), (0x04, 35), (0x05, 36), (0x06, 37), (0x07, 94),
    (0x08, 38), (0x09, 42), (0x0A, 40), (0x0B, 41), (0x0C, 95), (0x0D, 43), (0x0E, 8),
    (0x0F, 9), (0x10, 81), (0x11, 87), (0x12, 69), (0x13, 82), (0x14, 84), (0x15, 89),
    (0x16, 85), (0x17, 73), (0x18, 79), (0x19, 80), (0x1A, 123), (0x1B, 125), (0x1C, 13),
    (0x1E, 65), (0x1F, 83), (0x20, 68), (0x21, 70), (0x22, 71), (0x23, 72), (0x24, 74),
    (0x25, 75), (0x26, 76), (0x27, 58), (0x28, 34), (0x29, 126), (0x2B, 124), (0x2C, 90),
    (0x2D, 88), (0x2E, 67), (0x2F, 86), (0x30, 66), (0x31, 78), (0x32, 77), (0x33, 60),
    (0x34, 62), (0x35, 63), (0x37, 42), (0x39, 32), (0x47, 55), (0x48, 56), (0x49, 57),
    (0x4A, 45), (0x4B, 52), (0x4C, 53), (0x4D, 54), (0x4E, 43), (0x4F, 49), (0x50, 50),
    (0x51, 51), (0x52, 48), (0x53, 46), (0x00, 0)]"

text \<open>The keys with an E0 prefix; the cursor keys have the values of the build configuration.\<close>

definition extended_scancodes :: "(u8 \<times> u16) list" where
  "extended_scancodes = [(0x1C, 0x0D), (0x35, 47), (0x48, 0x100), (0x50, 0x101), (0x4B, 0x102), (0x4D, 0x103),
     (0x47, 0x104), (0x4F, 0x105), (0x52, 0x106), (0x53, 0x107), (0x49, 0x108), (0x51, 0x109), (0x00, 0)]"

record classic_state =
  capslock_state :: bool
  lshift :: bool
  rshift :: bool
  extended :: bool
  pause_bytes_left :: nat
  numlock :: bool
  numlock_down :: bool

definition classic_keyboard_init :: classic_state where
  "classic_keyboard_init = \<lparr>capslock_state = False, lshift = False, rshift = False, extended = False,
     pause_bytes_left = 0, numlock = True, numlock_down = False\<rparr>"

definition keyboard_set_capslock :: "classic_state \<Rightarrow> bool \<Rightarrow> classic_state" where
  [simp]: "keyboard_set_capslock k state = k\<lparr>capslock_state := state\<rparr>"

definition keyboard_get_capslock :: "classic_state \<Rightarrow> bool" where
  [simp]: "keyboard_get_capslock k = capslock_state k"

text \<open>The search for a scancode, up to the entry with scancode 0.\<close>

fun scancode_lookup :: "(u8 \<times> 'a) list \<Rightarrow> u8 \<Rightarrow> 'a option" where
  "scancode_lookup [] scancode = None"
| "scancode_lookup ((sc, x) # tab) scancode =
     (if sc = 0 then None else if sc = scancode then Some x else scancode_lookup tab scancode)"

definition classic_keyboard_scancode_to_char :: "classic_state \<Rightarrow> u8 \<Rightarrow> u8" where
  "classic_keyboard_scancode_to_char k scancode =
     (let shift = (lshift k \<or> rshift k);
          caps = keyboard_get_capslock k;
          tab = (if shift then shift_modified_scancodes
                 else if caps then uppercase_scancodes else regular_scancodes)
      in case scancode_lookup tab scancode of
           None \<Rightarrow> 0
         | Some c \<Rightarrow> if shift \<and> caps \<and> 65 \<le> c \<and> c \<le> 90 then c + (97 - 65) else c)"

definition classic_keyboard_is_keypad_digit :: "u8 \<Rightarrow> bool" where
  "classic_keyboard_is_keypad_digit scancode \<longleftrightarrow>
     0x47 \<le> scancode \<and> scancode \<le> 0x53 \<and> scancode \<noteq> 0x4A \<and> scancode \<noteq> 0x4E"

text \<open>The key that is pushed, if any.\<close>

definition classic_keyboard_handle_extended :: "u8 \<Rightarrow> u16 option" where
  "classic_keyboard_handle_extended scancode =
     (if scancode AND CLASSIC_KEYBOARD_KEY_RELEASED \<noteq> 0 then None
      else scancode_lookup extended_scancodes scancode)"

definition keyboard_toggle_capslock :: "classic_state \<Rightarrow> classic_state" where
  "keyboard_toggle_capslock k = keyboard_set_capslock k (\<not> keyboard_get_capslock k)"

definition classic_switch :: "classic_state \<Rightarrow> u8 \<Rightarrow> classic_state" where
  "classic_switch k scancode =
     (if scancode = CLASSIC_KEYBOARD_NUMLOCK
      then (if \<not> numlock_down k then k\<lparr>numlock := \<not> numlock k\<rparr> else k)\<lparr>numlock_down := True\<rparr>
      else if scancode = CLASSIC_KEYBOARD_NUMLOCK_R then k\<lparr>numlock_down := False\<rparr>
      else if scancode = CLASSIC_KEYBOARD_CAPSLOCK then keyboard_toggle_capslock k
      else if scancode = CLASSIC_KEYBOARD_LSHIFT then k\<lparr>lshift := True\<rparr>
      else if scancode = CLASSIC_KEYBOARD_LSHIFT_R then k\<lparr>lshift := False\<rparr>
      else if scancode = CLASSIC_KEYBOARD_RSHIFT then k\<lparr>rshift := True\<rparr>
      else if scancode = CLASSIC_KEYBOARD_RSHIFT_R then k\<lparr>rshift := False\<rparr>
      else k)"

definition classic_keyboard_handle_interrupt :: "classic_state \<Rightarrow> u8 \<Rightarrow> classic_state \<times> u16 option" where
  "classic_keyboard_handle_interrupt k scancode =
     (if 0 < pause_bytes_left k then (k\<lparr>pause_bytes_left := pause_bytes_left k - 1\<rparr>, None)
      else if extended k then (k\<lparr>extended := False\<rparr>, classic_keyboard_handle_extended scancode)
      else if scancode = CLASSIC_KEYBOARD_EXTENDED then (k\<lparr>extended := True\<rparr>, None)
      else if scancode = CLASSIC_KEYBOARD_PAUSE
      then (k\<lparr>pause_bytes_left := CLASSIC_KEYBOARD_PAUSE_PAYLOAD\<rparr>, None)
      else let k' = classic_switch k scancode;
               suppressed = (\<not> numlock k' \<and> classic_keyboard_is_keypad_digit scancode)
           in if scancode AND CLASSIC_KEYBOARD_KEY_RELEASED = 0 \<and> \<not> suppressed
              then let c = classic_keyboard_scancode_to_char k' scancode
                   in (k', if c \<noteq> 0 then Some (ucast c) else None)
              else (k', None))"

text \<open>The interrupt with the queue of the current process, which the key goes to.\<close>

definition classic_keyboard_irq ::
  "classic_state \<times> keyboard_buffer option \<Rightarrow> u8 \<Rightarrow> classic_state \<times> keyboard_buffer option" where
  "classic_keyboard_irq kp scancode =
     (let (k, process) = kp; (k', key) = classic_keyboard_handle_interrupt k scancode
      in (k', case key of None \<Rightarrow> process | Some c \<Rightarrow> keyboard_push process c))"

text \<open>A sequence of interrupts, with the keys they push in order.\<close>

fun classic_run :: "classic_state \<Rightarrow> u8 list \<Rightarrow> classic_state \<times> u16 list" where
  "classic_run k [] = (k, [])"
| "classic_run k (b # bs) =
     (let (k1, key) = classic_keyboard_handle_interrupt k b; (k2, keys) = classic_run k1 bs
      in (k2, (case key of None \<Rightarrow> [] | Some c \<Rightarrow> [c]) @ keys))"

section \<open>The list of drivers\<close>

text \<open>Drivers in the order of the list; a driver without an init function is refused.\<close>

record keyboard =
  kname :: string
  kinit :: "(unit \<Rightarrow> int) option"

definition keyboard_insert :: "keyboard list \<Rightarrow> keyboard \<Rightarrow> int \<times> keyboard list" where
  "keyboard_insert ks k =
     (case kinit k of None \<Rightarrow> (- errno EINVARG, ks) | Some init \<Rightarrow> (init (), ks @ [k]))"

definition keyboard_init :: "keyboard \<Rightarrow> keyboard list \<Rightarrow> keyboard list" where
  "keyboard_init classic ks = snd (keyboard_insert ks classic)"

section \<open>A bounded first-in first-out queue\<close>

text \<open>
  What the queue promises: a list of at most \<open>capacity\<close> non-zero keys, which a push extends at
  the end, or leaves alone when it is full, and a pop shortens at the front.
\<close>

datatype key_op = Push u16 | Pop

fun run_ops :: "('q \<Rightarrow> u16 \<Rightarrow> 'q) \<Rightarrow> ('q \<Rightarrow> u16 \<times> 'q) \<Rightarrow> 'q \<Rightarrow> key_op list \<Rightarrow> u16 list \<times> 'q" where
  "run_ops push pop q [] = ([], q)"
| "run_ops push pop q (Push c # ops) = run_ops push pop (push q c) ops"
| "run_ops push pop q (Pop # ops) =
     (let (c, q1) = pop q; (cs, q2) = run_ops push pop q1 ops in (c # cs, q2))"

definition fifo_push :: "nat \<Rightarrow> u16 list \<Rightarrow> u16 \<Rightarrow> u16 list" where
  "fifo_push capacity cs c = (if c = 0 \<or> capacity \<le> length cs then cs else cs @ [c])"

definition fifo_pop :: "u16 list \<Rightarrow> u16 \<times> u16 list" where
  "fifo_pop cs = (case cs of [] \<Rightarrow> (0, []) | c # cs' \<Rightarrow> (c, cs'))"

locale bounded_fifo =
  fixes inv :: "'q \<Rightarrow> bool"
    and contents :: "'q \<Rightarrow> u16 list"
    and push :: "'q \<Rightarrow> u16 \<Rightarrow> 'q"
    and pop :: "'q \<Rightarrow> u16 \<times> 'q"
    and capacity :: nat
  assumes push_inv: "inv q \<Longrightarrow> inv (push q c)"
    and push_contents: "inv q \<Longrightarrow> contents (push q c) = fifo_push capacity (contents q) c"
    and pop_inv: "inv q \<Longrightarrow> inv (snd (pop q))"
    and pop_contents: "inv q \<Longrightarrow> (fst (pop q), contents (snd (pop q))) = fifo_pop (contents q)"
begin

lemma run_refines:
  "inv q \<Longrightarrow> inv (snd (run_ops push pop q ops)) \<and>
     run_ops (fifo_push capacity) fifo_pop (contents q) ops =
       (fst (run_ops push pop q ops), contents (snd (run_ops push pop q ops)))"
proof (induction ops arbitrary: q)
  case (Cons op ops)
  show ?case
  proof (cases op)
    case (Push c)
    with Cons.IH [of "push q c"] Cons.prems show ?thesis
      by (simp add: push_inv push_contents)
  next
    case Pop
    with Cons.IH [of "snd (pop q)"] Cons.prems show ?thesis
      by (simp add: split_beta pop_inv flip: pop_contents)
  qed
qed simp

end

section \<open>The ring buffer is such a queue\<close>

text \<open>
  The keys between the two counters are the queue; every slot outside them is 0, which is what the
  test for an empty queue in \<^verbatim>\<open>keyboard_pop\<close> rests on.
\<close>

definition queued :: "keyboard_buffer \<Rightarrow> nat" where
  "queued q = unat (ktail q - khead q)"

definition slot :: "keyboard_buffer \<Rightarrow> nat \<Rightarrow> nat" where
  "slot q i = (unat (khead q) + i) mod RORTHOX_KEYBOARD_BUFFER_SIZE"

definition queued_keys :: "keyboard_buffer \<Rightarrow> u16 list" where
  "queued_keys q = map (\<lambda>i. kbuffer q ! slot q i) [0..<queued q]"

definition keyboard_buffer_wf :: "keyboard_buffer \<Rightarrow> bool" where
  "keyboard_buffer_wf q \<longleftrightarrow> length (kbuffer q) = RORTHOX_KEYBOARD_BUFFER_SIZE \<and>
     queued q \<le> RORTHOX_KEYBOARD_BUFFER_SIZE \<and>
     (\<forall>i < RORTHOX_KEYBOARD_BUFFER_SIZE. kbuffer q ! slot q i \<noteq> 0 \<longleftrightarrow> i < queued q)"

lemma index_add: "keyboard_buffer_index (w + of_nat i) = (unat w + i) mod RORTHOX_KEYBOARD_BUFFER_SIZE"
proof -
  have "i mod 4294967296 mod 1024 = i mod (1024 :: nat)" by (simp add: mod_mod_cancel)
  then have "(unat w + i mod 4294967296) mod 1024 = (unat w + i) mod (1024 :: nat)"
    by (rule mod_add_cong [OF refl])
  moreover have "x mod 4294967296 mod 1024 = x mod (1024 :: nat)" for x by (simp add: mod_mod_cancel)
  ultimately show ?thesis
    by (simp add: keyboard_buffer_index_def RORTHOX_KEYBOARD_BUFFER_SIZE_def unat_word_ariths unat_of_nat)
qed

lemma tail_index: "keyboard_get_tail_index q = slot q (queued q)"
  using index_add [of "khead q" "queued q"]
  by (simp add: keyboard_get_tail_index_def slot_def queued_def)

lemma slot_less [simp]: "slot q i < RORTHOX_KEYBOARD_BUFFER_SIZE"
  by (simp add: slot_def RORTHOX_KEYBOARD_BUFFER_SIZE_def)

lemma slot_inj:
  assumes "slot q i = slot q j" and "i \<le> j" and "j < RORTHOX_KEYBOARD_BUFFER_SIZE"
  shows "i = j"
proof -
  have "(unat (khead q) + j) mod 1024 = (unat (khead q) + i) mod 1024"
    using assms by (simp add: slot_def RORTHOX_KEYBOARD_BUFFER_SIZE_def)
  then have "1024 dvd j - i" using assms by (subst (asm) mod_eq_dvd_iff_nat) simp_all
  with assms show ?thesis
    by (auto simp: RORTHOX_KEYBOARD_BUFFER_SIZE_def dest: dvd_imp_le)
qed

lemma slot_eq_iff:
  assumes "i < RORTHOX_KEYBOARD_BUFFER_SIZE" and "j < RORTHOX_KEYBOARD_BUFFER_SIZE"
  shows "slot q i = slot q j \<longleftrightarrow> i = j"
  using slot_inj [of q i j] slot_inj [of q j i] assms by (cases "i \<le> j") auto

lemma length_queued_keys [simp]: "length (queued_keys q) = queued q"
  by (simp add: queued_keys_def)

lemma full_iff:
  assumes "keyboard_buffer_wf q"
  shows "int RORTHOX_KEYBOARD_BUFFER_SIZE \<le> sint (ktail q - khead q) \<longleftrightarrow>
    RORTHOX_KEYBOARD_BUFFER_SIZE \<le> queued q"
proof -
  have "queued q < 2147483648"
    using assms by (simp add: keyboard_buffer_wf_def RORTHOX_KEYBOARD_BUFFER_SIZE_def)
  then have "sint (ktail q - khead q) = int (queued q)"
    unfolding queued_def by (rule sint_u32_small)
  then show ?thesis by simp
qed

text \<open>A push that is accepted.\<close>

lemma push_accept:
  assumes wf: "keyboard_buffer_wf q" and c: "c \<noteq> 0" and room: "queued q < RORTHOX_KEYBOARD_BUFFER_SIZE"
    and q': "q' = q\<lparr>kbuffer := (kbuffer q)[keyboard_get_tail_index q := c], ktail := ktail q + 1\<rparr>"
  shows "queued q' = Suc (queued q)" "keyboard_buffer_wf q'" "queued_keys q' = queued_keys q @ [c]"
proof -
  have len: "length (kbuffer q) = RORTHOX_KEYBOARD_BUFFER_SIZE" using wf by (simp add: keyboard_buffer_wf_def)
  have slot: "slot q' i = slot q i" for i by (simp add: slot_def q')
  have "unat ((ktail q - khead q) + 1) = queued q + 1"
    using room unat_add_u32 [of "ktail q - khead q" 1]
    by (simp add: queued_def RORTHOX_KEYBOARD_BUFFER_SIZE_def)
  then show n: "queued q' = Suc (queued q)" by (simp add: queued_def q' algebra_simps)
  have at: "kbuffer q' ! slot q i = (if i = queued q then c else kbuffer q ! slot q i)"
    if "i < RORTHOX_KEYBOARD_BUFFER_SIZE" for i
    using slot_eq_iff [OF that room, of q] len by (auto simp: q' tail_index nth_list_update)
  show "keyboard_buffer_wf q'"
    using wf room c by (auto simp: keyboard_buffer_wf_def n slot at q' [THEN arg_cong, of "length o kbuffer", simplified])
  show "queued_keys q' = queued_keys q @ [c]"
    using room by (auto simp: queued_keys_def n slot at)
qed

lemma pop_accept:
  assumes wf: "keyboard_buffer_wf q" and some: "0 < queued q"
    and q': "q' = q\<lparr>kbuffer := (kbuffer q)[keyboard_buffer_index (khead q) := 0], khead := khead q + 1\<rparr>"
  shows "queued q = Suc (queued q')" "keyboard_buffer_wf q'"
    "queued_keys q = kbuffer q ! keyboard_buffer_index (khead q) # queued_keys q'"
proof -
  have len: "length (kbuffer q) = RORTHOX_KEYBOARD_BUFFER_SIZE" and
    bound: "queued q \<le> RORTHOX_KEYBOARD_BUFFER_SIZE"
    using wf by (simp_all add: keyboard_buffer_wf_def)
  have first: "keyboard_buffer_index (khead q) = slot q 0"
    by (simp add: keyboard_buffer_index_def slot_def)
  have slot: "slot q' i = slot q (Suc i)" for i
    using index_add [of "khead q + 1" i] index_add [of "khead q" "Suc i"]
    by (simp add: slot_def q' algebra_simps)
  have "unat ((ktail q - khead q) - 1) = queued q - 1"
    using some unat_sub_u32 [of 1 "ktail q - khead q"] by (simp add: queued_def)
  then show n: "queued q = Suc (queued q')" using some by (simp add: queued_def q' algebra_simps)
  have at: "kbuffer q' ! slot q i = (if i = 0 then 0 else kbuffer q ! slot q i)"
    if "i < RORTHOX_KEYBOARD_BUFFER_SIZE" for i
    using slot_eq_iff [OF that, of 0 q] len that by (auto simp: q' first nth_list_update)
  have wrap: "slot q RORTHOX_KEYBOARD_BUFFER_SIZE = slot q 0" by (simp add: slot_def)
  have "kbuffer q' ! slot q' i \<noteq> 0 \<longleftrightarrow> i < queued q'" if i: "i < RORTHOX_KEYBOARD_BUFFER_SIZE" for i
  proof (cases "Suc i = RORTHOX_KEYBOARD_BUFFER_SIZE")
    case True
    with n bound at [of 0] wrap slot show ?thesis by (simp add: RORTHOX_KEYBOARD_BUFFER_SIZE_def)
  next
    case False
    with i have "Suc i < RORTHOX_KEYBOARD_BUFFER_SIZE" by simp
    with at [of "Suc i"] wf n slot show ?thesis by (auto simp: keyboard_buffer_wf_def)
  qed
  moreover have "length (kbuffer q') = length (kbuffer q)" by (simp add: q')
  ultimately show "keyboard_buffer_wf q'" using len n bound by (simp add: keyboard_buffer_wf_def)
  have "kbuffer q ! slot q (Suc i) = kbuffer q' ! slot q' i" if "i < queued q'" for i
    using that at [of "Suc i"] n bound by (simp add: slot)
  then show "queued_keys q = kbuffer q ! keyboard_buffer_index (khead q) # queued_keys q'"
    by (simp add: queued_keys_def n upt_conv_Cons first del: upt_Suc flip: map_Suc_upt)
qed

text \<open>A push and a pop are the operations of the bounded queue.\<close>

lemma keyboard_push_buffer_fifo:
  assumes "keyboard_buffer_wf q"
  shows "keyboard_buffer_wf (keyboard_push_buffer q c)"
    and "queued_keys (keyboard_push_buffer q c) = fifo_push RORTHOX_KEYBOARD_BUFFER_SIZE (queued_keys q) c"
  using assms push_accept [OF assms _ _ refl, of c]
  by (auto simp: keyboard_push_buffer_def fifo_push_def full_iff)

lemma keyboard_pop_buffer_fifo:
  assumes wf: "keyboard_buffer_wf q"
  shows "keyboard_buffer_wf (snd (keyboard_pop_buffer q))"
    and "(fst (keyboard_pop_buffer q), queued_keys (snd (keyboard_pop_buffer q))) = fifo_pop (queued_keys q)"
proof -
  have "slot q 0 = keyboard_buffer_index (khead q)"
    by (simp add: keyboard_buffer_index_def slot_def)
  moreover have "kbuffer q ! slot q 0 \<noteq> 0 \<longleftrightarrow> 0 < queued q"
    using wf unfolding keyboard_buffer_wf_def RORTHOX_KEYBOARD_BUFFER_SIZE_def by simp
  ultimately have empty: "kbuffer q ! keyboard_buffer_index (khead q) = 0 \<longleftrightarrow> queued q = 0" by auto
  have nil: "queued_keys q = [] \<longleftrightarrow> queued q = 0" by (metis length_queued_keys length_0_conv)
  show "keyboard_buffer_wf (snd (keyboard_pop_buffer q))"
    using pop_accept(2) [OF wf _ refl] wf empty by (auto simp: keyboard_pop_buffer_def Let_def)
  show "(fst (keyboard_pop_buffer q), queued_keys (snd (keyboard_pop_buffer q))) = fifo_pop (queued_keys q)"
    using pop_accept(3) [OF wf _ refl] empty nil
    by (auto simp: keyboard_pop_buffer_def Let_def fifo_pop_def)
qed

interpretation keys: bounded_fifo keyboard_buffer_wf queued_keys keyboard_push_buffer keyboard_pop_buffer
  RORTHOX_KEYBOARD_BUFFER_SIZE
  by unfold_locales (fact keyboard_push_buffer_fifo keyboard_pop_buffer_fifo)+

lemma empty_queue:
  assumes "q = \<lparr>kbuffer = replicate RORTHOX_KEYBOARD_BUFFER_SIZE 0, ktail = w, khead = w\<rparr>"
  shows "keyboard_buffer_wf q" and "queued_keys q = []"
  using assms by (auto simp: keyboard_buffer_wf_def queued_def queued_keys_def)

text \<open>
  C19. The ring buffer refines a bounded queue: whatever sequence of pushes and pops runs on it, the
  keys the pops return are those of a first-in first-out list of at most 1024 keys which ignores key
  0 and drops a key when it is full; also across a wrap of the 32-bit counters.
\<close>

theorem keyboard_queue_refines_fifo:
  assumes "keyboard_buffer_wf q"
  shows "keyboard_buffer_wf (snd (run_ops keyboard_push_buffer keyboard_pop_buffer q ops)) \<and>
    run_ops (fifo_push RORTHOX_KEYBOARD_BUFFER_SIZE) fifo_pop (queued_keys q) ops =
      (fst (run_ops keyboard_push_buffer keyboard_pop_buffer q ops),
       queued_keys (snd (run_ops keyboard_push_buffer keyboard_pop_buffer q ops)))"
  using keys.run_refines [OF assms] .

theorem keyboard_queue_refines_fifo_witness:
  "fst (run_ops keyboard_push_buffer keyboard_pop_buffer
     \<lparr>kbuffer = replicate RORTHOX_KEYBOARD_BUFFER_SIZE 0, ktail = 0xFFFFFFFF, khead = 0xFFFFFFFF\<rparr>
     [Push 97, Push 0, Push 0x100, Pop, Pop, Pop]) = [97, 0x100, 0]"
  using keyboard_queue_refines_fifo [OF empty_queue(1) [OF refl], of "0xFFFFFFFF"
      "[Push 97, Push 0, Push 0x100, Pop, Pop, Pop]"]
  unfolding empty_queue(2) [OF refl]
  by (simp add: fifo_push_def fifo_pop_def RORTHOX_KEYBOARD_BUFFER_SIZE_def)

section \<open>The driver\<close>

text \<open>Between two keys the driver waits for no byte.\<close>

definition classic_idle :: "classic_state \<Rightarrow> bool" where
  "classic_idle k \<longleftrightarrow> \<not> extended k \<and> pause_bytes_left k = 0"

definition classic_wf :: "classic_state \<Rightarrow> bool" where
  "classic_wf k \<longleftrightarrow> pause_bytes_left k \<le> CLASSIC_KEYBOARD_PAUSE_PAYLOAD \<and>
     (extended k \<longrightarrow> pause_bytes_left k = 0)"

lemma classic_switch_prefix [simp]:
  "extended (classic_switch k b) = extended k"
  "pause_bytes_left (classic_switch k b) = pause_bytes_left k"
  by (simp_all add: classic_switch_def keyboard_toggle_capslock_def)

lemma classic_wf_step: "classic_wf k \<Longrightarrow> classic_wf (fst (classic_keyboard_handle_interrupt k b))"
  by (auto simp: classic_wf_def classic_keyboard_handle_interrupt_def Let_def)

lemma classic_wf_run: "classic_wf k \<Longrightarrow> classic_wf (fst (classic_run k bs))"
proof (induction bs arbitrary: k)
  case (Cons b bs)
  then show ?case
    using classic_wf_step [OF Cons.prems, of b] by (simp add: split_beta)
qed simp

lemma classic_run_append:
  "classic_run k (bs @ cs) =
     (let (k1, xs) = classic_run k bs; (k2, ys) = classic_run k1 cs in (k2, xs @ ys))"
  by (induction bs arbitrary: k) (simp_all add: split_beta)

text \<open>A byte that arrives in an idle driver.\<close>

lemma scancode_lookup_in: "scancode_lookup tab b = Some x \<Longrightarrow> (b, x) \<in> set tab \<and> b \<noteq> 0"
  by (induction tab b rule: scancode_lookup.induct) (auto split: if_splits)

lemma extended_key_nonzero: "classic_keyboard_handle_extended b = Some c \<Longrightarrow> c \<noteq> 0"
  by (auto simp: classic_keyboard_handle_extended_def extended_scancodes_def split: if_splits
      dest!: scancode_lookup_in)

lemma ucast_u8_zero: "(ucast (c :: u8) :: u16) = 0 \<longleftrightarrow> c = 0"
  by transfer (simp add: take_bit_take_bit)

text \<open>Which keys are letters.\<close>

definition letter_key :: "u8 \<Rightarrow> u8 \<Rightarrow> bool" where
  "letter_key b c \<longleftrightarrow> scancode_lookup regular_scancodes b = Some c \<and> 97 \<le> c \<and> c \<le> 122"

lemma letter_table_check:
  "list_all (\<lambda>(b, c). b \<noteq> 0 \<and> 97 \<le> c \<and> c \<le> 122 \<longrightarrow>
     scancode_lookup uppercase_scancodes b = Some (c - 32) \<and>
     scancode_lookup shift_modified_scancodes b = Some (c - 32) \<and>
     b AND CLASSIC_KEYBOARD_KEY_RELEASED = 0 \<and> \<not> classic_keyboard_is_keypad_digit b \<and>
     b \<noteq> CLASSIC_KEYBOARD_CAPSLOCK \<and> b \<noteq> CLASSIC_KEYBOARD_LSHIFT \<and> b \<noteq> CLASSIC_KEYBOARD_RSHIFT \<and>
     b \<noteq> CLASSIC_KEYBOARD_NUMLOCK \<and> b \<noteq> CLASSIC_KEYBOARD_EXTENDED \<and> b \<noteq> CLASSIC_KEYBOARD_PAUSE \<and>
     b \<noteq> CLASSIC_KEYBOARD_LSHIFT_R \<and> b \<noteq> CLASSIC_KEYBOARD_RSHIFT_R \<and>
     b \<noteq> CLASSIC_KEYBOARD_NUMLOCK_R \<and> 65 \<le> c - 32 \<and> c - 32 \<le> 90 \<and> c - 32 \<noteq> 0) regular_scancodes"
  by code_simp

lemma letter_key_facts:
  assumes "letter_key b c"
  shows "scancode_lookup uppercase_scancodes b = Some (c - 32)"
    and "scancode_lookup shift_modified_scancodes b = Some (c - 32)"
    and "b AND CLASSIC_KEYBOARD_KEY_RELEASED = 0" and "\<not> classic_keyboard_is_keypad_digit b"
    and "classic_switch k b = k"
    and "b \<noteq> CLASSIC_KEYBOARD_EXTENDED" and "b \<noteq> CLASSIC_KEYBOARD_PAUSE"
    and "65 \<le> c - 32" and "c - 32 \<le> 90" and "c - 32 \<noteq> 0"
  using assms letter_table_check scancode_lookup_in [of regular_scancodes b c]
  by (auto simp: letter_key_def list_all_iff classic_switch_def)

lemma letter_to_char:
  assumes "letter_key b c"
  shows "classic_keyboard_scancode_to_char k b =
    (if (lshift k \<or> rshift k) \<noteq> capslock_state k then c - 32 else c)"
  using assms letter_key_facts [OF assms]
  by (auto simp: classic_keyboard_scancode_to_char_def letter_key_def)

text \<open>
  C20. A letter key pushes its letter, in upper case exactly when one of Shift (left or right) and Caps
  Lock is in effect and not the other, and leaves the state of the driver as it is.
\<close>

theorem classic_letter_case:
  assumes "classic_idle k" and "letter_key b c"
  shows "classic_keyboard_handle_interrupt k b =
    (k, Some (ucast (if (lshift k \<or> rshift k) \<noteq> capslock_state k then c - 32 else c)))"
proof -
  have "c \<noteq> 0" using assms(2) by (auto simp: letter_key_def)
  with letter_key_facts [OF assms(2)] letter_to_char [OF assms(2), of k] assms(1) show ?thesis
    by (simp add: classic_keyboard_handle_interrupt_def classic_idle_def)
qed

theorem classic_letter_case_witness:
  "classic_keyboard_handle_interrupt (classic_keyboard_init\<lparr>lshift := True\<rparr>) 0x1E =
    (classic_keyboard_init\<lparr>lshift := True\<rparr>, Some 65)"
proof -
  have "classic_idle (classic_keyboard_init\<lparr>lshift := True\<rparr>)"
    by (simp add: classic_idle_def classic_keyboard_init_def)
  moreover have "letter_key 0x1E 97" by (simp add: letter_key_def regular_scancodes_def)
  ultimately show ?thesis
    using classic_letter_case [of "classic_keyboard_init\<lparr>lshift := True\<rparr>" "0x1E" 97]
    by (simp add: classic_keyboard_init_def)
qed

text \<open>Every state that bytes can lead to.\<close>

lemma classic_drop:
  assumes "0 < pause_bytes_left k"
  shows "classic_keyboard_handle_interrupt k b = (k\<lparr>pause_bytes_left := pause_bytes_left k - 1\<rparr>, None)"
  using assms by (simp add: classic_keyboard_handle_interrupt_def)

lemma classic_drop_all:
  "length bs = pause_bytes_left k \<Longrightarrow> classic_run k bs = (k\<lparr>pause_bytes_left := 0\<rparr>, [])"
proof (induction bs arbitrary: k)
  case (Cons b bs)
  then show ?case by (simp add: classic_drop split_beta)
qed simp

lemma classic_extended_byte:
  assumes "extended k" and "pause_bytes_left k = 0"
  shows "classic_run k [b] = (k\<lparr>extended := False\<rparr>,
    (case classic_keyboard_handle_extended b of None \<Rightarrow> [] | Some c \<Rightarrow> [c]))"
  using assms by (simp add: classic_keyboard_handle_interrupt_def)

lemma classic_back_to_idle:
  "\<exists>n \<le> 2. \<forall>cs. length cs = n \<longrightarrow>
      fst (classic_run (fst (classic_run classic_keyboard_init bs)) cs) =
        (fst (classic_run classic_keyboard_init bs))\<lparr>extended := False, pause_bytes_left := 0\<rparr>"
proof -
  let ?k = "fst (classic_run classic_keyboard_init bs)"
  have wf: "classic_wf ?k"
    by (rule classic_wf_run) (simp add: classic_wf_def classic_keyboard_init_def)
  show ?thesis
  proof (cases "extended ?k")
    case True
    with wf have "pause_bytes_left ?k = 0" by (simp add: classic_wf_def)
    with classic_extended_byte [OF True]
    have "\<forall>cs. length cs = 1 \<longrightarrow> fst (classic_run ?k cs) = ?k\<lparr>extended := False, pause_bytes_left := 0\<rparr>"
      by (auto simp: length_Suc_conv)
    then show ?thesis by (intro exI [of _ 1]) simp
  next
    case False
    with wf classic_drop_all [of _ ?k] show ?thesis
      by (intro exI [of _ "pause_bytes_left ?k"]) (simp add: classic_wf_def CLASSIC_KEYBOARD_PAUSE_PAYLOAD_def)
  qed
qed

text \<open>
  C21. The driver never loses its place: after any sequence of bytes since it was started, at most two
  more bytes bring it back between two keys, with the modifiers as they are. From there a Pause key
  (E1 1D 45 E1 9D C5) pushes nothing and leaves every modifier, Num Lock included, and after an E0
  prefix exactly one byte is taken as an extended key and changes no modifier, so that the fake
  shifts a keyboard sends (E0 2A, E0 AA) do nothing.
\<close>

theorem classic_resynchronises:
  "(\<exists>n \<le> 2. \<forall>cs. length cs = n \<longrightarrow>
      fst (classic_run (fst (classic_run classic_keyboard_init bs)) cs) =
        (fst (classic_run classic_keyboard_init bs))\<lparr>extended := False, pause_bytes_left := 0\<rparr>) \<and>
   (classic_idle k \<longrightarrow> classic_run k [0xE1, 0x1D, 0x45, 0xE1, 0x9D, 0xC5] = (k, []) \<and>
      classic_run k [0xE0, b] =
        (k, case classic_keyboard_handle_extended b of None \<Rightarrow> [] | Some c \<Rightarrow> [c]) \<and>
      classic_run k [0xE0, 0x2A, 0xE0, 0xAA] = (k, []))"
  using classic_back_to_idle [of bs]
  by (simp add: classic_idle_def classic_keyboard_handle_interrupt_def classic_consts
      classic_keyboard_handle_extended_def extended_scancodes_def Let_def split: option.split)

theorem classic_resynchronises_witness:
  "classic_run classic_keyboard_init [0xE1, 0x1D, 0x45, 0xE1, 0x9D, 0xC5] = (classic_keyboard_init, []) \<and>
   classic_run classic_keyboard_init [0xE0, 0x48] = (classic_keyboard_init, [0x100])"
  using classic_resynchronises [of _ classic_keyboard_init "0x48"]
  by (simp add: classic_idle_def classic_keyboard_init_def classic_keyboard_handle_extended_def
      classic_consts extended_scancodes_def)

end
