(* ===== verification/Disk.thy ===== *)
theory Disk
  imports Kernel_Prelude
begin

text \<open>
  The ATA driver \<^verbatim>\<open>kernel/disk/disk.c\<close>: LBA28 programmed I/O on the primary master. The drive is not
  code: it is the parameter \<open>io\<close>, four functions on a drive state that stand for the port
  instructions of \<^verbatim>\<open>kernel/io/io.asm\<close>. A C \<^verbatim>\<open>int\<close> that is 0 or a negated status code is a \<open>unit result\<close>.
\<close>

section \<open>Ports\<close>

record 'd ports =
  insb :: "u16 \<Rightarrow> 'd \<Rightarrow> u8 \<times> 'd"
  insw :: "u16 \<Rightarrow> 'd \<Rightarrow> u16 \<times> 'd"
  outb :: "u16 \<Rightarrow> u8 \<Rightarrow> 'd \<Rightarrow> 'd"
  outw :: "u16 \<Rightarrow> u16 \<Rightarrow> 'd \<Rightarrow> 'd"

definition ATA_DATA :: u16 where "ATA_DATA = 0x1F0"
definition ATA_ERROR :: u16 where "ATA_ERROR = 0x1F1"
definition ATA_SECTOR_COUNT :: u16 where "ATA_SECTOR_COUNT = 0x1F2"
definition ATA_LBA_LOW :: u16 where "ATA_LBA_LOW = 0x1F3"
definition ATA_LBA_MID :: u16 where "ATA_LBA_MID = 0x1F4"
definition ATA_LBA_HIGH :: u16 where "ATA_LBA_HIGH = 0x1F5"
definition ATA_DRIVE_HEAD :: u16 where "ATA_DRIVE_HEAD = 0x1F6"
definition ATA_STATUS :: u16 where "ATA_STATUS = 0x1F7"
definition ATA_COMMAND :: u16 where "ATA_COMMAND = 0x1F7"
definition ATA_ALT_STATUS :: u16 where "ATA_ALT_STATUS = 0x3F6"

definition ATA_SR_ERR :: u8 where "ATA_SR_ERR = 0x01"
definition ATA_SR_DRQ :: u8 where "ATA_SR_DRQ = 0x08"
definition ATA_SR_DF :: u8 where "ATA_SR_DF = 0x20"
definition ATA_SR_DRDY :: u8 where "ATA_SR_DRDY = 0x40"
definition ATA_SR_BSY :: u8 where "ATA_SR_BSY = 0x80"
definition ATA_ER_ABRT :: u8 where "ATA_ER_ABRT = 0x04"

definition ATA_CMD_READ_SECTORS :: u8 where "ATA_CMD_READ_SECTORS = 0x20"
definition ATA_CMD_WRITE_SECTORS :: u8 where "ATA_CMD_WRITE_SECTORS = 0x30"
definition ATA_CMD_FLUSH_CACHE :: u8 where "ATA_CMD_FLUSH_CACHE = 0xE7"
definition ATA_CMD_IDENTIFY :: u8 where "ATA_CMD_IDENTIFY = 0xEC"
definition ATA_DRIVE_MASTER_LBA :: u8 where "ATA_DRIVE_MASTER_LBA = 0xE0"
definition ATA_LBA28_LIMIT :: u32 where "ATA_LBA28_LIMIT = 0x10000000"
definition ATA_MAX_SECTORS :: int where "ATA_MAX_SECTORS = 256"
definition ATA_POLL_LIMIT :: nat where "ATA_POLL_LIMIT = 1000000"
definition ATA_FLUSH_POLL_LIMIT :: nat where "ATA_FLUSH_POLL_LIMIT = 100000000"
definition ATA_LBA28_SECTORS :: u32 where "ATA_LBA28_SECTORS = 0x0FFFFFFF"
definition RORTHOX_SECTOR_SIZE :: nat where "RORTHOX_SECTOR_SIZE = 512"

lemmas ata_ports = ATA_DATA_def ATA_ERROR_def ATA_SECTOR_COUNT_def ATA_LBA_LOW_def ATA_LBA_MID_def
  ATA_LBA_HIGH_def ATA_DRIVE_HEAD_def ATA_STATUS_def ATA_COMMAND_def ATA_ALT_STATUS_def
lemmas ata_bits = ATA_SR_ERR_def ATA_SR_DRQ_def ATA_SR_DF_def ATA_SR_DRDY_def ATA_SR_BSY_def ATA_ER_ABRT_def
lemmas ata_cmds = ATA_CMD_READ_SECTORS_def ATA_CMD_WRITE_SECTORS_def ATA_CMD_FLUSH_CACHE_def
  ATA_CMD_IDENTIFY_def

section \<open>Waiting for the drive\<close>

definition ata_pause :: "'d ports \<Rightarrow> 'd \<Rightarrow> 'd" where
  "ata_pause io d = ((\<lambda>d. snd (insb io ATA_ALT_STATUS d)) ^^ 4) d"

text \<open>A poll loop reads the status at most \<open>limit\<close> times.\<close>

fun ata_wait_idle_loop :: "nat \<Rightarrow> 'd ports \<Rightarrow> 'd \<Rightarrow> unit result \<times> 'd" where
  "ata_wait_idle_loop limit io d =
     (if limit = 0 then (Inl EIO, d)
      else let (status, d1) = insb io ATA_STATUS d
           in if status AND (ATA_SR_BSY OR ATA_SR_DRQ) = 0 then (Inr (), d1)
              else ata_wait_idle_loop (limit - 1) io d1)"

definition ata_wait_idle :: "'d ports \<Rightarrow> 'd \<Rightarrow> unit result \<times> 'd" where
  "ata_wait_idle io d = ata_wait_idle_loop ATA_POLL_LIMIT io d"

fun ata_wait_data_loop :: "nat \<Rightarrow> 'd ports \<Rightarrow> 'd \<Rightarrow> unit result \<times> 'd" where
  "ata_wait_data_loop limit io d =
     (if limit = 0 then (Inl EIO, d)
      else let (status, d1) = insb io ATA_STATUS d
           in if status AND ATA_SR_BSY \<noteq> 0 then ata_wait_data_loop (limit - 1) io d1
              else if status AND (ATA_SR_ERR OR ATA_SR_DF) \<noteq> 0 then (Inl EIO, d1)
              else if status AND ATA_SR_DRQ \<noteq> 0 then (Inr (), d1)
              else ata_wait_data_loop (limit - 1) io d1)"

definition ata_wait_data :: "'d ports \<Rightarrow> 'd \<Rightarrow> unit result \<times> 'd" where
  "ata_wait_data io d = ata_wait_data_loop ATA_POLL_LIMIT io d"

fun ata_wait_end :: "nat \<Rightarrow> 'd ports \<Rightarrow> 'd \<Rightarrow> unit result \<times> 'd" where
  "ata_wait_end limit io d =
     (if limit = 0 then (Inl EIO, d)
      else let (status, d1) = insb io ATA_STATUS d
           in if status AND ATA_SR_BSY \<noteq> 0 then ata_wait_end (limit - 1) io d1
              else if status AND (ATA_SR_ERR OR ATA_SR_DF OR ATA_SR_DRQ) \<noteq> 0 then (Inl EIO, d1)
              else (Inr (), d1))"

definition ata_wait_done :: "'d ports \<Rightarrow> 'd \<Rightarrow> unit result \<times> 'd" where
  "ata_wait_done io d = ata_wait_end ATA_POLL_LIMIT io d"

fun ata_wait_ready_loop :: "nat \<Rightarrow> 'd ports \<Rightarrow> 'd \<Rightarrow> unit result \<times> 'd" where
  "ata_wait_ready_loop limit io d =
     (if limit = 0 then (Inl EIO, d)
      else let (status, d1) = insb io ATA_STATUS d
           in if status AND (ATA_SR_BSY OR ATA_SR_DRQ) = 0 \<and> status AND ATA_SR_DRDY \<noteq> 0
              then (Inr (), d1) else ata_wait_ready_loop (limit - 1) io d1)"

definition ata_wait_ready :: "'d ports \<Rightarrow> 'd \<Rightarrow> unit result \<times> 'd" where
  "ata_wait_ready io d = ata_wait_ready_loop ATA_POLL_LIMIT io d"

declare ata_wait_idle_loop.simps [simp del] ata_wait_data_loop.simps [simp del]
  ata_wait_end.simps [simp del] ata_wait_ready_loop.simps [simp del]

text \<open>The early returns of the driver: the next step runs when the one before succeeded.\<close>

definition and_then :: "'a result \<times> 'd \<Rightarrow> ('a \<Rightarrow> 'd \<Rightarrow> 'b result \<times> 'd) \<Rightarrow> 'b result \<times> 'd" where
  "and_then p f = (case fst p of Inl e \<Rightarrow> (Inl e, snd p) | Inr x \<Rightarrow> f x (snd p))"

lemma and_then_simps [simp]:
  "and_then (Inl e, d) f = (Inl e, d)"
  "and_then (Inr x, d) f = f x d"
  by (simp_all add: and_then_def)

definition drive_head :: "u32 \<Rightarrow> u8" where
  "drive_head lba = ATA_DRIVE_MASTER_LBA OR ucast (drop_bit 24 lba AND 0x0F)"

definition ata_select :: "'d ports \<Rightarrow> u32 \<Rightarrow> 'd \<Rightarrow> unit result \<times> 'd" where
  "ata_select io lba d = and_then (ata_wait_idle io d) (\<lambda>_ d.
     ata_wait_ready io (ata_pause io (outb io ATA_DRIVE_HEAD (drive_head lba) d)))"

section \<open>Sectors\<close>

text \<open>The bytes of a word as \<^verbatim>\<open>insw\<close> stores it, and the word of two bytes.\<close>

definition word_bytes :: "u16 \<Rightarrow> u8 list" where
  "word_bytes w = [ucast w, ucast (drop_bit 8 w)]"

definition bytes_word :: "u8 \<Rightarrow> u8 \<Rightarrow> u16" where
  "bytes_word a b = ucast a OR push_bit 8 (ucast b)"

fun read_words :: "nat \<Rightarrow> 'd ports \<Rightarrow> 'd \<Rightarrow> u16 list \<times> 'd" where
  "read_words 0 io d = ([], d)"
| "read_words (Suc n) io d =
     (let (w, d1) = insw io ATA_DATA d; (ws, d2) = read_words n io d1 in (w # ws, d2))"

fun write_words :: "'d ports \<Rightarrow> u8 list \<Rightarrow> 'd \<Rightarrow> 'd" where
  "write_words io (a # b # bs) d = write_words io bs (outw io ATA_DATA (bytes_word a b) d)"
| "write_words io _ d = d"

text \<open>The registers of a transfer and its command.\<close>

definition ata_command :: "'d ports \<Rightarrow> u32 \<Rightarrow> int \<Rightarrow> u8 \<Rightarrow> 'd \<Rightarrow> 'd" where
  "ata_command io lba cnt command d =
     (let d = outb io ATA_SECTOR_COUNT (word_of_int cnt) d;
          d = outb io ATA_LBA_LOW (ucast (lba AND 0xFF)) d;
          d = outb io ATA_LBA_MID (ucast (drop_bit 8 lba AND 0xFF)) d;
          d = outb io ATA_LBA_HIGH (ucast (drop_bit 16 lba AND 0xFF)) d;
          d = outb io ATA_COMMAND command d
      in ata_pause io d)"

fun read_sectors :: "nat \<Rightarrow> 'd ports \<Rightarrow> 'd \<Rightarrow> u8 list result \<times> 'd" where
  "read_sectors 0 io d = (Inr [], d)"
| "read_sectors (Suc n) io d = and_then (ata_wait_data io d) (\<lambda>_ d.
     let (ws, d) = read_words (RORTHOX_SECTOR_SIZE div 2) io d
     in and_then (read_sectors n io (ata_pause io d)) (\<lambda>rest d. (Inr (concat (map word_bytes ws) @ rest), d)))"

definition request_bad :: "bool \<Rightarrow> u32 \<Rightarrow> int \<Rightarrow> bool" where
  "request_bad null lba cnt \<longleftrightarrow> null \<or> cnt < 1 \<or> cnt > ATA_MAX_SECTORS \<or>
     lba \<ge> ATA_LBA28_LIMIT \<or> word_of_int (cnt - 1) > ATA_LBA28_LIMIT - 1 - lba"

text \<open>\<open>buf_null\<close> is \<^verbatim>\<open>!buf\<close>. The result is what the buffer holds after a success; no caller uses it after a failure.\<close>

definition disk_read_sector :: "'d ports \<Rightarrow> u32 \<Rightarrow> int \<Rightarrow> bool \<Rightarrow> 'd \<Rightarrow> u8 list result \<times> 'd" where
  "disk_read_sector io lba cnt buf_null d =
     (if request_bad buf_null lba cnt then (Inl EINVARG, d)
      else and_then (ata_wait_idle io d) (\<lambda>_ d.
        and_then (ata_wait_idle io (ata_pause io (outb io ATA_DRIVE_HEAD (drive_head lba) d))) (\<lambda>_ d.
          and_then (read_sectors (nat cnt) io (ata_command io lba cnt ATA_CMD_READ_SECTORS d)) (\<lambda>bs d.
            and_then (ata_wait_done io d) (\<lambda>_ d. (Inr bs, d))))))"

definition identify_check :: "u16 list \<Rightarrow> u32 result" where
  "identify_check ws =
     (let general = ws ! 0; capabilities = ws ! 49; lba_low = ws ! 60; lba_high = ws ! 61;
          command_set = ws ! 83; sector_size = ws ! 106; words_low = ws ! 117; words_high = ws ! 118;
          sectors = ucast lba_low OR push_bit 16 (ucast lba_high) :: u32
      in if general AND 0x8004 \<noteq> 0 \<or> capabilities AND 0x0200 = 0 then Inl ERDONLY
         else if sectors = 0 then Inl ERDONLY
         else if command_set AND 0xC000 \<noteq> 0x4000 \<or> command_set AND 0x1000 = 0 then Inl ERDONLY
         else if sector_size AND 0xC000 = 0x4000 \<and> sector_size AND 0x1000 \<noteq> 0 \<and>
           (ucast words_low OR push_bit 16 (ucast words_high) :: u32) \<noteq> of_nat (RORTHOX_SECTOR_SIZE div 2)
         then Inl ERDONLY
         else Inr (if sectors > ATA_LBA28_SECTORS then ATA_LBA28_SECTORS else sectors))"

definition identify_refused :: "'d ports \<Rightarrow> error \<Rightarrow> 'd \<Rightarrow> u32 result \<times> 'd" where
  "identify_refused io res d =
     (let (status, d) = insb io ATA_ALT_STATUS d
      in if status AND (ATA_SR_BSY OR ATA_SR_DF OR ATA_SR_ERR) = ATA_SR_ERR
         then let (err, d) = insb io ATA_ERROR d
              in (if err AND ATA_ER_ABRT \<noteq> 0 then Inl ERDONLY else Inl res, d)
         else (Inl res, d))"

definition ata_identify :: "'d ports \<Rightarrow> 'd \<Rightarrow> u32 result \<times> 'd" where
  "ata_identify io d = and_then (ata_wait_idle io d) (\<lambda>_ d.
     let d = ata_pause io (outb io ATA_DRIVE_HEAD ATA_DRIVE_MASTER_LBA d);
         (status, d) = insb io ATA_STATUS d
     in if status = 0x00 \<or> status = 0xFF then (Inl ERDONLY, d)
        else and_then (ata_wait_ready io d) (\<lambda>_ d.
          let (r, d) = ata_wait_data io (ata_pause io (outb io ATA_COMMAND ATA_CMD_IDENTIFY d))
          in case r of
               Inl res \<Rightarrow> identify_refused io res d
             | Inr _ \<Rightarrow>
                 let (ws, d) = read_words (RORTHOX_SECTOR_SIZE div 2) io d
                 in and_then (ata_wait_done io (ata_pause io d)) (\<lambda>_ d. (identify_check ws, d))))"

fun write_sectors_loop :: "nat \<Rightarrow> 'd ports \<Rightarrow> u8 list \<Rightarrow> 'd \<Rightarrow> unit result \<times> 'd" where
  "write_sectors_loop 0 io buf d = (Inr (), d)"
| "write_sectors_loop (Suc n) io buf d = and_then (ata_wait_data io d) (\<lambda>_ d.
     write_sectors_loop n io (drop RORTHOX_SECTOR_SIZE buf)
       (ata_pause io (write_words io (take RORTHOX_SECTOR_SIZE buf) d)))"

definition ata_write_sectors :: "'d ports \<Rightarrow> u32 \<Rightarrow> int \<Rightarrow> u8 list \<Rightarrow> 'd \<Rightarrow> unit result \<times> 'd" where
  "ata_write_sectors io lba cnt buf d = and_then (ata_select io lba d) (\<lambda>_ d.
     and_then (write_sectors_loop (nat cnt) io buf (ata_command io lba cnt ATA_CMD_WRITE_SECTORS d))
       (\<lambda>_ d. ata_wait_done io d))"

section \<open>The disk\<close>

text \<open>
  \<^verbatim>\<open>struct disk\<close>, with the drive behind it. There is one, so a \<^verbatim>\<open>struct disk *\<close> is \<open>Some ()\<close> or NULL; the
  fields the file system fills in belong to the model of the file system.
\<close>

type_synonym disk_ptr = "unit option"

record 'd disk =
  drive :: 'd
  sector_size :: int
  disk_id :: int
  write_checked :: bool
  write_status :: "unit result"
  write_sectors :: u32

definition disk_check_writable :: "'d ports \<Rightarrow> 'd disk \<Rightarrow> unit result \<times> 'd disk" where
  "disk_check_writable io k =
     (if write_checked k then (write_status k, k)
      else let (r, d) = ata_identify io (drive k);
               status = (case r of Inl e \<Rightarrow> Inl e | Inr _ \<Rightarrow> Inr ());
               k' = k\<lparr>drive := d, write_status := status,
                      write_sectors := (case r of Inl _ \<Rightarrow> 0 | Inr n \<Rightarrow> n), write_checked := True\<rparr>
           in (status, k'))"

text \<open>A step on the drive of a disk.\<close>

definition on_drive :: "('d \<Rightarrow> 'a \<times> 'd) \<Rightarrow> 'd disk \<Rightarrow> 'a \<times> 'd disk" where
  "on_drive f k = (let (x, d) = f (drive k) in (x, k\<lparr>drive := d\<rparr>))"

definition disk_write_capacity :: "'d ports \<Rightarrow> disk_ptr \<Rightarrow> bool \<Rightarrow> 'd disk \<Rightarrow> u32 result \<times> 'd disk" where
  "disk_write_capacity io idisk sectors_null k =
     (if idisk \<noteq> Some () then (Inl EIO, k)
      else if sectors_null then (Inl EINVARG, k)
      else and_then (disk_check_writable io k) (\<lambda>_ k. (Inr (write_sectors k), k)))"

definition disk_write_block ::
  "'d ports \<Rightarrow> disk_ptr \<Rightarrow> u32 \<Rightarrow> int \<Rightarrow> u8 list option \<Rightarrow> 'd disk \<Rightarrow> unit result \<times> 'd disk" where
  "disk_write_block io idisk lba cnt buf k =
     (if idisk \<noteq> Some () then (Inl EIO, k)
      else if request_bad (buf = None) lba cnt then (Inl EINVARG, k)
      else and_then (disk_check_writable io k) (\<lambda>_ k.
        if lba \<ge> write_sectors k \<or> word_of_int cnt > write_sectors k - lba then (Inl EINVARG, k)
        else on_drive (ata_write_sectors io lba cnt (the buf)) k))"

definition disk_flush :: "'d ports \<Rightarrow> disk_ptr \<Rightarrow> 'd disk \<Rightarrow> unit result \<times> 'd disk" where
  "disk_flush io idisk k =
     (if idisk \<noteq> Some () then (Inl EIO, k)
      else and_then (disk_check_writable io k) (\<lambda>_ k.
        on_drive (\<lambda>d. and_then (ata_select io 0 d) (\<lambda>_ d.
          ata_wait_end ATA_FLUSH_POLL_LIMIT io
            (ata_pause io (outb io ATA_COMMAND ATA_CMD_FLUSH_CACHE d)))) k))"

text \<open>The disk at boot; the file system is looked for afterwards.\<close>

definition disk_search_and_init :: "'d \<Rightarrow> 'd disk" where
  "disk_search_and_init d = \<lparr>drive = d, sector_size = int RORTHOX_SECTOR_SIZE, disk_id = 0,
     write_checked = False, write_status = Inr (), write_sectors = 0\<rparr>"

definition disk_get :: "int \<Rightarrow> disk_ptr" where
  "disk_get index = (if index \<noteq> 0 then None else Some ())"

definition disk_read_block ::
  "'d ports \<Rightarrow> disk_ptr \<Rightarrow> u32 \<Rightarrow> int \<Rightarrow> bool \<Rightarrow> 'd disk \<Rightarrow> u8 list result \<times> 'd disk" where
  "disk_read_block io idisk lba cnt buf_null k =
     (if idisk \<noteq> Some () then (Inl EIO, k) else on_drive (disk_read_sector io lba cnt buf_null) k)"

section \<open>What reaches a drive\<close>

text \<open>
  The port writes of the driver, recorded beside an arbitrary drive: nothing is assumed about the
  values the drive returns.
\<close>

type_synonym port_log = "(u16 \<times> u8) list"

definition logged :: "'d ports \<Rightarrow> ('d \<times> port_log) ports" where
  "logged io = \<lparr>insb = \<lambda>p (d, l). (let (v, d') = insb io p d in (v, d', l)),
     insw = \<lambda>p (d, l). (let (v, d') = insw io p d in (v, d', l)),
     outb = \<lambda>p v (d, l). (outb io p v d, l @ [(p, v)]),
     outw = \<lambda>p v (d, l). (outw io p v d, l)\<rparr>"

lemma logged_sel [simp]:
  "snd (snd (insb (logged io) p d)) = snd d" "snd (snd (insw (logged io) p d)) = snd d"
  "snd (outb (logged io) p v d) = snd d @ [(p, v)]" "snd (outw (logged io) p' w d) = snd d"
  by (cases d; simp add: logged_def split_beta)+

lemma log_pause [simp]: "snd (ata_pause (logged io) d) = snd d"
  by (simp add: ata_pause_def eval_nat_numeral)

lemma log_idle_loop [simp]: "snd (snd (ata_wait_idle_loop n (logged io) d)) = snd d"
proof (induction n arbitrary: d)
  case (Suc n)
  then show ?case by (subst ata_wait_idle_loop.simps) (simp add: split_beta)
qed (simp add: ata_wait_idle_loop.simps)

lemma log_data_loop [simp]: "snd (snd (ata_wait_data_loop n (logged io) d)) = snd d"
proof (induction n arbitrary: d)
  case (Suc n)
  then show ?case by (subst ata_wait_data_loop.simps) (simp add: split_beta)
qed (simp add: ata_wait_data_loop.simps)

lemma log_end_loop [simp]: "snd (snd (ata_wait_end n (logged io) d)) = snd d"
proof (induction n arbitrary: d)
  case (Suc n)
  then show ?case by (subst ata_wait_end.simps) (simp add: split_beta)
qed (simp add: ata_wait_end.simps)

lemma log_ready_loop [simp]: "snd (snd (ata_wait_ready_loop n (logged io) d)) = snd d"
proof (induction n arbitrary: d)
  case (Suc n)
  then show ?case by (subst ata_wait_ready_loop.simps) (simp add: split_beta)
qed (simp add: ata_wait_ready_loop.simps)

lemma log_waits [simp]:
  "snd (snd (ata_wait_idle (logged io) d)) = snd d" "snd (snd (ata_wait_data (logged io) d)) = snd d"
  "snd (snd (ata_wait_done (logged io) d)) = snd d" "snd (snd (ata_wait_ready (logged io) d)) = snd d"
  by (simp_all add: ata_wait_idle_def ata_wait_data_def ata_wait_done_def ata_wait_ready_def)

lemma log_read_words [simp]: "snd (snd (read_words n (logged io) d)) = snd d"
  by (induction n arbitrary: d) (simp_all add: split_beta)

lemma log_write_words [simp]: "snd (write_words (logged io) bs d) = snd d"
  by (induction "logged io" bs d rule: write_words.induct) simp_all

lemma snd_and_then: "snd (and_then p f) = (case fst p of Inl e \<Rightarrow> snd p | Inr x \<Rightarrow> snd (f x (snd p)))"
  by (simp add: and_then_def split: sum.split)

lemma log_write_loop [simp]: "snd (snd (write_sectors_loop n (logged io) buf d)) = snd d"
  by (induction n arbitrary: buf d) (simp_all add: snd_and_then split: sum.split)

lemma log_command [simp]:
  "snd (ata_command (logged io) lba n c d) = snd d @ [(ATA_SECTOR_COUNT, word_of_int n),
     (ATA_LBA_LOW, ucast (lba AND 0xFF)), (ATA_LBA_MID, ucast (drop_bit 8 lba AND 0xFF)),
     (ATA_LBA_HIGH, ucast (drop_bit 16 lba AND 0xFF)), (ATA_COMMAND, c)]"
  by (simp add: ata_command_def)

text \<open>The request that a task file encodes.\<close>

definition task_file :: "u32 \<Rightarrow> int \<Rightarrow> u8 \<Rightarrow> port_log" where
  "task_file lba n c = [(ATA_DRIVE_HEAD, drive_head lba), (ATA_SECTOR_COUNT, word_of_int n),
     (ATA_LBA_LOW, ucast (lba AND 0xFF)), (ATA_LBA_MID, ucast (drop_bit 8 lba AND 0xFF)),
     (ATA_LBA_HIGH, ucast (drop_bit 16 lba AND 0xFF)), (ATA_COMMAND, c)]"

fun task_file_decode :: "port_log \<Rightarrow> (nat \<times> nat \<times> u8) option" where
  "task_file_decode [(p1, head), (p2, count), (p3, low), (p4, mid), (p5, high), (p6, command)] =
     (if p1 = 0x1F6 \<and> p2 = 0x1F2 \<and> p3 = 0x1F3 \<and> p4 = 0x1F4 \<and> p5 = 0x1F5 \<and> p6 = 0x1F7 \<and> head AND 0xF0 = 0xE0
      then Some (unat (head AND 0x0F) * 2 ^ 24 + unat high * 2 ^ 16 + unat mid * 2 ^ 8 + unat low,
                 if count = 0 then 256 else unat count, command)
      else None)"
| "task_file_decode _ = None"

section \<open>Register encodings\<close>

lemma unat_drop_bit: "unat (drop_bit k (w :: u32)) = unat w div 2 ^ k"
  unfolding unsigned_drop_bit_eq drop_bit_eq_div [where 'a = nat]
  using unat_u32_less [of w] by (simp add: take_bit_nat_eq_self)

lemma unat_and_mask: "unat ((w :: u32) AND mask n) = unat w mod 2 ^ n"
  unfolding take_bit_eq_mask [symmetric] unsigned_take_bit_eq take_bit_eq_mod [where 'a = nat] ..

lemma unat_byte_of: "unat (ucast (drop_bit k (w :: u32) AND 0xFF) :: u8) = unat w div 2 ^ k mod 256"
proof -
  have "0xFF = (mask 8 :: u32)" by (simp add: mask_eq_exp_minus_1)
  then have "unat (drop_bit k w AND 0xFF) = unat w div 2 ^ k mod 256"
    using unat_and_mask [of "drop_bit k w" 8] by (simp only: unat_drop_bit) simp
  then show ?thesis by (simp add: unsigned_ucast_eq take_bit_eq_mod)
qed

lemma nibble_cases:
  fixes w :: u32
  obtains i where "i < 16" "w AND 0x0F = of_nat i" "i = unat w mod 16"
proof
  have "0x0F = (mask 4 :: u32)" by (simp add: mask_eq_exp_minus_1)
  then have "unat (w AND 0x0F) = unat w mod 16" using unat_and_mask [of w 4] by simp
  then show "w AND 0x0F = of_nat (unat w mod 16)" by (metis of_nat_unat ucast_id)
qed simp_all

lemma head_nibble: "i < 16 \<Longrightarrow> (0xE0 OR ucast (of_nat i :: u32)) AND 0xF0 = (0xE0 :: u8) \<and>
    unat ((0xE0 OR ucast (of_nat i :: u32)) AND 0x0F :: u8) = i"
proof -
  assume "i < 16"
  then have "i \<in> set [0..<16]" by simp
  then show ?thesis by (simp add: upt_rec eval_nat_numeral) (elim disjE; simp)
qed

lemma drive_head_bits:
  assumes "lba < ATA_LBA28_LIMIT"
  shows "drive_head lba AND 0xF0 = 0xE0" and "unat (drive_head lba AND 0x0F) = unat lba div 2 ^ 24"
proof -
  obtain i where i: "i < 16" "drop_bit 24 lba AND 0x0F = of_nat i" "i = unat (drop_bit 24 lba) mod 16"
    by (rule nibble_cases)
  have "unat lba < 268435456" using assms by (simp add: ATA_LBA28_LIMIT_def word_less_nat_alt)
  then have "i = unat lba div 2 ^ 24"
    using i(3) unfolding unat_drop_bit by simp
  with i head_nibble [OF i(1)] show "drive_head lba AND 0xF0 = 0xE0"
    and "unat (drive_head lba AND 0x0F) = unat lba div 2 ^ 24"
    by (simp_all add: drive_head_def ATA_DRIVE_MASTER_LBA_def)
qed

lemma byte_digits:
  assumes "(x :: nat) < 268435456"
  shows "x div 16777216 * 16777216 + x div 65536 mod 256 * 65536 + x div 256 mod 256 * 256 + x mod 256 = x"
proof -
  have "x div 16777216 * 16777216 + x div 65536 mod 256 * 65536 = x div 65536 * 65536"
    using div_mult_mod_eq [of "x div 65536" 256] by (simp add: div_mult2_eq [symmetric])
  moreover have "x div 65536 * 65536 + x div 256 mod 256 * 256 = x div 256 * 256"
    using div_mult_mod_eq [of "x div 256" 256] by (simp add: div_mult2_eq [symmetric])
  ultimately show ?thesis using div_mult_mod_eq [of x 256] by linarith
qed

lemma task_file_decode:
  assumes "lba < ATA_LBA28_LIMIT" and "1 \<le> n" and "n \<le> 256"
  shows "task_file_decode (task_file lba n c) = Some (unat lba, nat n, c)"
proof -
  have "unat lba < 268435456" using assms(1) by (simp add: ATA_LBA28_LIMIT_def word_less_nat_alt)
  note lba = byte_digits [OF this]
  have "n = 256 \<or> unat (word_of_int n :: u8) = nat n \<and> (word_of_int n :: u8) \<noteq> 0"
    using assms(2,3) by (auto simp: unat_eq_nat_uint uint_word_of_int word_of_int_eq_0_iff zdvd_not_zless)
  then show ?thesis
    using lba drive_head_bits [OF assms(1)] unat_byte_of [of 0 lba] unat_byte_of [of 8 lba] unat_byte_of [of 16 lba]
    by (auto simp: task_file_def ata_ports)
qed

section \<open>Writes stay inside the drive\<close>

lemma unat_word_of_int_u32: "0 \<le> n \<Longrightarrow> n < 4294967296 \<Longrightarrow> unat (word_of_int n :: u32) = nat n"
  by (simp add: unat_eq_nat_uint uint_word_of_int)

lemma request_ok_iff:
  "\<not> request_bad null lba n \<longleftrightarrow> \<not> null \<and> 1 \<le> n \<and> n \<le> 256 \<and> unat lba + nat n \<le> 2 ^ 28"
proof -
  have small: "lba \<ge> ATA_LBA28_LIMIT \<longleftrightarrow> 268435456 \<le> unat lba"
    by (simp add: ATA_LBA28_LIMIT_def word_le_nat_alt)
  have "word_of_int (n - 1) > ATA_LBA28_LIMIT - 1 - lba \<longleftrightarrow> 268435455 - unat lba < nat (n - 1)"
    if "1 \<le> n" "n \<le> 256" "unat lba < 268435456"
  proof -
    have "unat (ATA_LBA28_LIMIT - 1 - lba) = 268435455 - unat lba"
      using that(3) unat_sub_u32 [of lba "ATA_LBA28_LIMIT - 1"] by (simp add: ATA_LBA28_LIMIT_def)
    moreover have "unat (word_of_int (n - 1) :: u32) = nat (n - 1)"
      using that by (intro unat_word_of_int_u32) simp_all
    ultimately show ?thesis by (simp only: word_less_nat_alt)
  qed
  moreover have "268435455 - unat lba < nat (n - 1) \<longleftrightarrow> 268435456 < unat lba + nat n"
    if "1 \<le> n" "unat lba < 268435456" using that by linarith
  ultimately show ?thesis
    unfolding request_bad_def ATA_MAX_SECTORS_def small
    by (cases "1 \<le> n \<and> n \<le> 256 \<and> unat lba < 268435456") (simp_all, linarith+)
qed

lemma capacity_ok_iff:
  assumes "1 \<le> n" and "n \<le> 256"
  shows "\<not> (lba \<ge> s \<or> word_of_int n > s - lba) \<longleftrightarrow> unat lba + nat n \<le> unat (s :: u32)"
proof -
  have "unat (word_of_int n :: u32) = nat n" using assms by (intro unat_word_of_int_u32) simp_all
  moreover have "unat (s - lba) = unat s - unat lba" if "lba < s"
    using that by (simp add: unat_sub_u32 word_less_nat_alt)
  ultimately show ?thesis using assms by (auto simp: not_le not_less word_le_nat_alt word_less_nat_alt)
qed

definition identify_writes :: "(u16 \<times> u8) set" where
  "identify_writes = {(ATA_DRIVE_HEAD, ATA_DRIVE_MASTER_LBA), (ATA_COMMAND, ATA_CMD_IDENTIFY)}"

lemma log_identify_refused [simp]: "snd (snd (identify_refused (logged io) e d)) = snd d"
  by (simp add: identify_refused_def split_beta)

lemma log_identify: "\<exists>xs. snd (snd (ata_identify (logged io) d)) = snd d @ xs \<and> set xs \<subseteq> identify_writes"
  unfolding ata_identify_def
  by (auto simp: snd_and_then split_beta Let_def identify_writes_def split: sum.split)

lemma log_check_writable:
  assumes "disk_check_writable (logged io) k = (r, k')"
  shows "\<exists>xs. snd (drive k') = snd (drive k) @ xs \<and> set xs \<subseteq> identify_writes" and "write_checked k'"
    and "r = write_status k'"
  using assms log_identify [of io "drive k"] by (auto simp: disk_check_writable_def split_beta Let_def split: if_splits)

lemma log_write_sectors:
  fixes io :: "'d ports" and d :: "'d \<times> port_log"
  assumes "ata_write_sectors (logged io) lba n buf d = (r, d')"
  shows "snd d' = snd d @ task_file lba n ATA_CMD_WRITE_SECTORS \<or>
    snd d' \<in> {snd d, snd d @ [(ATA_DRIVE_HEAD, drive_head lba)]} \<and> r \<noteq> Inr ()"
proof -
  have "snd d' = snd (snd (ata_write_sectors (logged io) lba n buf d))"
    and "r = fst (ata_write_sectors (logged io) lba n buf d)" using assms by simp_all
  then show ?thesis
    by (auto simp: ata_write_sectors_def ata_select_def and_then_def task_file_def split: sum.split)
qed

text \<open>
  C22. Whatever the drive answers, \<^verbatim>\<open>disk_write_block\<close> refuses a malformed request or one beyond 28 bits
  without touching a port, and when it issues WRITE SECTORS the drive was identified as writable, the
  command is the last thing it sends, the registers before it encode exactly the requested first
  sector and count, and all these sectors lie inside the drive. Success is only reported after that.
\<close>

theorem disk_write_block_safe:
  assumes "disk_write_block (logged io) (Some ()) lba n buf k = (r, k')" and "drive k = (d, [])"
  shows "(buf = None \<or> n < 1 \<or> n > 256 \<or> 2 ^ 28 < unat lba + nat n \<longrightarrow> r = Inl EINVARG \<and> k' = k) \<and>
    ((ATA_COMMAND, ATA_CMD_WRITE_SECTORS) \<in> set (snd (drive k')) \<longrightarrow>
       write_checked k' \<and> write_status k' = Inr () \<and> unat lba + nat n \<le> unat (write_sectors k') \<and>
       (\<exists>before regs. snd (drive k') = before @ regs \<and>
          (ATA_COMMAND, ATA_CMD_WRITE_SECTORS) \<notin> set before \<and>
          task_file_decode regs = Some (unat lba, nat n, ATA_CMD_WRITE_SECTORS))) \<and>
    (r = Inr () \<longrightarrow> (ATA_COMMAND, ATA_CMD_WRITE_SECTORS) \<in> set (snd (drive k')))"
proof (cases "request_bad (buf = None) lba n")
  case True
  with assms show ?thesis using request_ok_iff [of "buf = None" lba n] by (auto simp: disk_write_block_def)
next
  case False
  then have ok: "buf \<noteq> None" "1 \<le> n" "n \<le> 256" "unat lba + nat n \<le> 2 ^ 28"
    using request_ok_iff [of "buf = None" lba n] by simp_all
  obtain r1 k1 where c: "disk_check_writable (logged io) k = (r1, k1)" by force
  note log = log_check_writable [OF c, unfolded assms(2) snd_conv append_Nil]
  from log(1) obtain xs where xs: "snd (drive k1) = xs" "set xs \<subseteq> identify_writes" by auto
  have quiet: "(ATA_COMMAND, ATA_CMD_WRITE_SECTORS) \<notin> set xs"
    using xs(2) by (auto simp: identify_writes_def ata_ports ata_cmds)
  show ?thesis
  proof (cases "r1 = Inr () \<and> unat lba + nat n \<le> unat (write_sectors k1)")
    case False
    then have "k' = k1 \<and> r \<noteq> Inr ()"
      using assms(1) \<open>\<not> request_bad _ _ _\<close> c capacity_ok_iff [OF ok(2,3), of "write_sectors k1" lba]
      by (cases r1) (auto simp: disk_write_block_def)
    with ok xs quiet show ?thesis by auto
  next
    case True
    obtain r2 d2 where w: "ata_write_sectors (logged io) lba n (the buf) (drive k1) = (r2, d2)"
      by (cases "ata_write_sectors (logged io) lba n (the buf) (drive k1)") blast
    have k': "r = r2" "k' = k1\<lparr>drive := d2\<rparr>"
      using assms(1) \<open>\<not> request_bad _ _ _\<close> c True w capacity_ok_iff [OF ok(2,3), of "write_sectors k1" lba]
      by (auto simp: disk_write_block_def on_drive_def)
    have dec: "task_file_decode (task_file lba n ATA_CMD_WRITE_SECTORS) = Some (unat lba, nat n, ATA_CMD_WRITE_SECTORS)"
      by (rule task_file_decode) (use ok in \<open>auto simp: ATA_LBA28_LIMIT_def word_less_nat_alt\<close>)
    have "(ATA_COMMAND, ATA_CMD_WRITE_SECTORS) \<in> set (task_file lba n ATA_CMD_WRITE_SECTORS)"
      by (simp add: task_file_def)
    moreover have "(ATA_COMMAND, ATA_CMD_WRITE_SECTORS) \<noteq> (ATA_DRIVE_HEAD, drive_head lba)"
      by (simp add: ata_ports)
    ultimately show ?thesis
      using log_write_sectors [OF w] log(2,3) True quiet xs(1) dec ok by (auto simp: k' )
  qed
qed

section \<open>A drive that follows the ATA protocol\<close>

text \<open>
  An instance of \<open>io\<close>: a master drive with LBA28, as the ATA standard describes programmed I/O. After
  a command and after every sector it is busy for \<open>latency\<close> status reads.
\<close>

datatype ata_phase = Ready | DataIn "u16 list" nat nat | DataOut "u16 list" nat nat

record ata_drive =
  media :: "nat \<Rightarrow> u8 list"
  nsectors :: nat
  latency :: nat
  busy :: nat
  phase :: ata_phase
  rcount :: u8
  rlow :: u8
  rmid :: u8
  rhigh :: u8
  rhead :: u8

fun words_of_bytes :: "u8 list \<Rightarrow> u16 list" where
  "words_of_bytes (a # b # bs) = bytes_word a b # words_of_bytes bs"
| "words_of_bytes _ = []"

definition identify_data :: "nat \<Rightarrow> u16 list" where
  "identify_data n = (replicate 256 0)[49 := 0x0200, 60 := of_nat n, 61 := of_nat (n div 65536), 83 := 0x5000]"

definition drive_lba :: "ata_drive \<Rightarrow> nat" where
  "drive_lba d = unat (rhead d AND 0x0F) * 2 ^ 24 + unat (rhigh d) * 2 ^ 16 + unat (rmid d) * 2 ^ 8 + unat (rlow d)"

definition drive_count :: "ata_drive \<Rightarrow> nat" where
  "drive_count d = (if rcount d = 0 then 256 else unat (rcount d))"

definition drive_insb :: "u16 \<Rightarrow> ata_drive \<Rightarrow> u8 \<times> ata_drive" where
  "drive_insb p d =
     (if p = ATA_STATUS \<or> p = ATA_ALT_STATUS
      then if 0 < busy d then (0x80, d\<lparr>busy := busy d - 1\<rparr>)
           else (if phase d = Ready then 0x40 else 0x48, d)
      else (0, d))"

definition drive_insw :: "u16 \<Rightarrow> ata_drive \<Rightarrow> u16 \<times> ata_drive" where
  "drive_insw p d = (case phase d of
     DataIn (w # ws) lba n \<Rightarrow>
       (w, if ws \<noteq> [] then d\<lparr>phase := DataIn ws lba n\<rparr>
           else if n = 0 then d\<lparr>phase := Ready, busy := latency d\<rparr>
           else d\<lparr>phase := DataIn (words_of_bytes (media d lba)) (Suc lba) (n - 1), busy := latency d\<rparr>)
   | _ \<Rightarrow> (0, d))"

definition drive_execute :: "u8 \<Rightarrow> ata_drive \<Rightarrow> ata_drive" where
  "drive_execute c d =
     (let lba = drive_lba d; n = drive_count d
      in (if c = ATA_CMD_READ_SECTORS
          then d\<lparr>phase := DataIn (words_of_bytes (media d lba)) (Suc lba) (n - 1)\<rparr>
          else if c = ATA_CMD_WRITE_SECTORS then d\<lparr>phase := DataOut [] lba (n - 1)\<rparr>
          else if c = ATA_CMD_IDENTIFY then d\<lparr>phase := DataIn (identify_data (nsectors d)) 0 0\<rparr>
          else d\<lparr>phase := Ready\<rparr>)\<lparr>busy := latency d\<rparr>)"

definition drive_outb :: "u16 \<Rightarrow> u8 \<Rightarrow> ata_drive \<Rightarrow> ata_drive" where
  "drive_outb p v d =
     (if p = ATA_SECTOR_COUNT then d\<lparr>rcount := v\<rparr>
      else if p = ATA_LBA_LOW then d\<lparr>rlow := v\<rparr>
      else if p = ATA_LBA_MID then d\<lparr>rmid := v\<rparr>
      else if p = ATA_LBA_HIGH then d\<lparr>rhigh := v\<rparr>
      else if p = ATA_DRIVE_HEAD then d\<lparr>rhead := v\<rparr>
      else if p = ATA_COMMAND then drive_execute v d
      else d)"

definition drive_outw :: "u16 \<Rightarrow> u16 \<Rightarrow> ata_drive \<Rightarrow> ata_drive" where
  "drive_outw p w d = (case phase d of
     DataOut ws lba n \<Rightarrow>
       if length ws < 255 then d\<lparr>phase := DataOut (ws @ [w]) lba n\<rparr>
       else d\<lparr>media := (media d)(lba := concat (map word_bytes (ws @ [w]))),
              phase := (if n = 0 then Ready else DataOut [] (Suc lba) (n - 1)), busy := latency d\<rparr>
   | _ \<Rightarrow> d)"

definition ata_io :: "ata_drive ports" where
  "ata_io = \<lparr>insb = drive_insb, insw = drive_insw, outb = drive_outb, outw = drive_outw\<rparr>"

lemma ata_io_sel [simp]:
  "insb ata_io = drive_insb" "insw ata_io = drive_insw" "outb ata_io = drive_outb" "outw ata_io = drive_outw"
  by (simp_all add: ata_io_def)

subsection \<open>Waiting for it\<close>

lemma drive_status: "drive_insb ATA_STATUS d =
    (if 0 < busy d then (0x80, d\<lparr>busy := busy d - 1\<rparr>) else (if phase d = Ready then 0x40 else 0x48, d))"
  by (simp add: drive_insb_def)

lemma drive_alt: "drive_insb ATA_ALT_STATUS d =
    (if 0 < busy d then (0x80, d\<lparr>busy := busy d - 1\<rparr>) else (if phase d = Ready then 0x40 else 0x48, d))"
  by (simp add: drive_insb_def)

lemma drive_pause [simp]: "ata_pause ata_io d = d\<lparr>busy := busy d - 4\<rparr>"
  by (simp add: ata_pause_def drive_alt eval_nat_numeral)

lemma drive_idle_loop:
  "busy d < limit \<Longrightarrow> phase d = Ready \<Longrightarrow> ata_wait_idle_loop limit ata_io d = (Inr (), d\<lparr>busy := 0\<rparr>)"
proof (induction limit arbitrary: d)
  case (Suc limit)
  then show ?case by (subst ata_wait_idle_loop.simps) (auto simp: drive_status ata_bits)
qed simp

lemma drive_data_loop:
  "busy d < limit \<Longrightarrow> phase d \<noteq> Ready \<Longrightarrow> ata_wait_data_loop limit ata_io d = (Inr (), d\<lparr>busy := 0\<rparr>)"
proof (induction limit arbitrary: d)
  case (Suc limit)
  then show ?case by (subst ata_wait_data_loop.simps) (auto simp: drive_status ata_bits)
qed simp

lemma drive_end_loop:
  "busy d < limit \<Longrightarrow> phase d = Ready \<Longrightarrow> ata_wait_end limit ata_io d = (Inr (), d\<lparr>busy := 0\<rparr>)"
proof (induction limit arbitrary: d)
  case (Suc limit)
  then show ?case by (subst ata_wait_end.simps) (auto simp: drive_status ata_bits)
qed simp

lemma drive_ready_loop:
  "busy d < limit \<Longrightarrow> phase d = Ready \<Longrightarrow> ata_wait_ready_loop limit ata_io d = (Inr (), d\<lparr>busy := 0\<rparr>)"
proof (induction limit arbitrary: d)
  case (Suc limit)
  then show ?case by (subst ata_wait_ready_loop.simps) (auto simp: drive_status ata_bits)
qed simp

lemma drive_waits:
  assumes "busy d < ATA_POLL_LIMIT"
  shows "phase d = Ready \<Longrightarrow> ata_wait_idle ata_io d = (Inr (), d\<lparr>busy := 0\<rparr>)"
    and "phase d = Ready \<Longrightarrow> ata_wait_ready ata_io d = (Inr (), d\<lparr>busy := 0\<rparr>)"
    and "phase d = Ready \<Longrightarrow> ata_wait_done ata_io d = (Inr (), d\<lparr>busy := 0\<rparr>)"
    and "phase d \<noteq> Ready \<Longrightarrow> ata_wait_data ata_io d = (Inr (), d\<lparr>busy := 0\<rparr>)"
  using assms by (simp_all add: ata_wait_idle_def ata_wait_ready_def ata_wait_done_def ata_wait_data_def
      drive_idle_loop drive_ready_loop drive_end_loop drive_data_loop)

subsection \<open>Transfers\<close>

lemma bytes_word_bytes: "word_bytes (bytes_word a b) = [a, b]"
proof -
  have "(ucast (bytes_word a b) :: u8) = a"
    by (rule bit_word_eqI) (auto simp: bytes_word_def bit_simps)
  moreover have "(ucast (drop_bit 8 (bytes_word a b)) :: u8) = b"
    by (rule bit_word_eqI) (auto simp: bytes_word_def bit_simps dest: bit_imp_le_length)
  ultimately show ?thesis by (simp add: word_bytes_def)
qed

lemma words_bytes: "even (length bs) \<Longrightarrow> concat (map word_bytes (words_of_bytes bs)) = bs"
  by (induction bs rule: words_of_bytes.induct) (simp_all add: bytes_word_bytes)

lemma length_words: "length (words_of_bytes bs) = length bs div 2"
  by (induction bs rule: words_of_bytes.induct) simp_all

definition drive_next :: "ata_drive \<Rightarrow> nat \<Rightarrow> nat \<Rightarrow> ata_phase" where
  "drive_next d lba n = (if n = 0 then Ready else DataIn (words_of_bytes (media d lba)) (Suc lba) (n - 1))"

lemma drive_read_words:
  "phase d = DataIn ws lba n \<Longrightarrow> ws \<noteq> [] \<Longrightarrow>
     read_words (length ws) ata_io d = (ws, d\<lparr>phase := drive_next d lba n, busy := latency d\<rparr>)"
proof (induction ws arbitrary: d)
  case (Cons w ws)
  show ?case
  proof (cases "ws = []")
    case True
    with Cons.prems show ?thesis by (simp add: drive_insw_def drive_next_def)
  next
    case False
    with Cons.prems Cons.IH [of "d\<lparr>phase := DataIn ws lba n\<rparr>"] show ?thesis
      by (simp add: drive_insw_def drive_next_def)
  qed
qed simp

definition drive_fit :: "ata_drive \<Rightarrow> bool" where
  "drive_fit d \<longleftrightarrow> latency d < ATA_POLL_LIMIT \<and> busy d \<le> latency d \<and> 0 < nsectors d \<and> nsectors d < 2 ^ 28 \<and>
     (\<forall>lba. length (media d lba) = RORTHOX_SECTOR_SIZE)"

lemma drive_fit_upd [simp]:
  "drive_fit d \<Longrightarrow> drive_fit (d\<lparr>phase := p\<rparr>)" "drive_fit d \<Longrightarrow> b \<le> latency d \<Longrightarrow> drive_fit (d\<lparr>busy := b\<rparr>)"
  "drive_fit d \<Longrightarrow> drive_fit (d\<lparr>rcount := v\<rparr>)" "drive_fit d \<Longrightarrow> drive_fit (d\<lparr>rlow := v\<rparr>)"
  "drive_fit d \<Longrightarrow> drive_fit (d\<lparr>rmid := v\<rparr>)" "drive_fit d \<Longrightarrow> drive_fit (d\<lparr>rhigh := v\<rparr>)"
  "drive_fit d \<Longrightarrow> drive_fit (d\<lparr>rhead := v\<rparr>)"
  by (simp_all add: drive_fit_def)

lemma drive_fit_busy: "drive_fit d \<Longrightarrow> busy d < ATA_POLL_LIMIT" "drive_fit d \<Longrightarrow> busy d \<le> latency d"
  "drive_fit d \<Longrightarrow> latency d < ATA_POLL_LIMIT"
  by (auto simp: drive_fit_def)

text \<open>A read of \<open>Suc n\<close> sectors, from the first data request on.\<close>

lemma drive_read_sectors:
  "drive_fit d \<Longrightarrow> phase d = DataIn (words_of_bytes (media d lba)) (Suc lba) n \<Longrightarrow>
     \<exists>b \<le> latency d. read_sectors (Suc n) ata_io d =
       (Inr (concat (map (media d) [lba..<lba + Suc n])), d\<lparr>phase := Ready, busy := b\<rparr>)"
proof (induction n arbitrary: lba d)
  case (0 lba d)
  have len: "length (words_of_bytes (media d lba)) = RORTHOX_SECTOR_SIZE div 2"
    and bs: "concat (map word_bytes (words_of_bytes (media d lba))) = media d lba"
    using 0 by (simp_all add: length_words words_bytes drive_fit_def RORTHOX_SECTOR_SIZE_def)
  then have ne: "words_of_bytes (media d lba) \<noteq> []" by (auto simp: RORTHOX_SECTOR_SIZE_def)
  show ?case
    using 0 drive_read_words [of "d\<lparr>busy := 0\<rparr>" "words_of_bytes (media d lba)" "Suc lba" 0] ne bs
    by (simp add: drive_waits drive_fit_busy len drive_next_def) (intro exI [of _ "latency d - 4"], simp)
next
  case (Suc n lba d)
  let ?d = "d\<lparr>phase := DataIn (words_of_bytes (media d (Suc lba))) (Suc (Suc lba)) n, busy := latency d - 4\<rparr>"
  have len: "length (words_of_bytes (media d lba)) = RORTHOX_SECTOR_SIZE div 2"
    and bs: "concat (map word_bytes (words_of_bytes (media d lba))) = media d lba"
    using Suc.prems by (simp_all add: length_words words_bytes drive_fit_def RORTHOX_SECTOR_SIZE_def)
  then have ne: "words_of_bytes (media d lba) \<noteq> []" by (auto simp: RORTHOX_SECTOR_SIZE_def)
  obtain b where b: "b \<le> latency d" and r: "read_sectors (Suc n) ata_io ?d =
      (Inr (concat (map (media d) [Suc lba..<Suc lba + Suc n])), ?d\<lparr>phase := Ready, busy := b\<rparr>)"
    using Suc.IH [of ?d "Suc lba"] Suc.prems by auto
  have "read_sectors (Suc (Suc n)) ata_io d =
      and_then (read_sectors (Suc n) ata_io ?d) (\<lambda>rest d'. (Inr (media d lba @ rest), d'))"
    using Suc.prems drive_read_words [of "d\<lparr>busy := 0\<rparr>" "words_of_bytes (media d lba)" "Suc lba" "Suc n"] ne bs
    by (subst read_sectors.simps) (simp add: drive_waits drive_fit_busy len drive_next_def del: read_sectors.simps)
  with b show ?case by (simp add: r upt_conv_Cons del: upt_Suc read_sectors.simps) blast
qed

lemma drive_write_words:
  "phase d = DataOut ws lba n \<Longrightarrow> length ws + length bs div 2 = 256 \<Longrightarrow> even (length bs) \<Longrightarrow> bs \<noteq> [] \<Longrightarrow>
     write_words ata_io bs d = d\<lparr>media := (media d)(lba := concat (map word_bytes ws) @ bs),
       phase := (if n = 0 then Ready else DataOut [] (Suc lba) (n - 1)), busy := latency d\<rparr>"
proof (induction bs arbitrary: ws d rule: words_of_bytes.induct)
  case (1 a b bs ws d)
  show ?case
  proof (cases "bs = []")
    case True
    with "1.prems" show ?thesis by (simp add: drive_outw_def bytes_word_bytes fun_upd_def)
  next
    case False
    with "1.prems"(3) obtain c e cs where bs: "bs = c # e # cs"
      by (cases bs rule: words_of_bytes.cases) auto
    with "1.prems" have "length ws < 255" by simp
    with False "1.prems" "1.IH" [of "d\<lparr>phase := DataOut (ws @ [bytes_word a b]) lba n\<rparr>" "ws @ [bytes_word a b]"]
    show ?thesis by (simp add: drive_outw_def bytes_word_bytes)
  qed
qed simp_all

definition store_sectors :: "(nat \<Rightarrow> u8 list) \<Rightarrow> nat \<Rightarrow> nat \<Rightarrow> u8 list \<Rightarrow> nat \<Rightarrow> u8 list" where
  "store_sectors m lba n buf =
     (\<lambda>i. if lba \<le> i \<and> i < lba + n then take 512 (drop (512 * (i - lba)) buf) else m i)"

lemma store_sectors_Suc:
  "store_sectors (m(lba := take 512 buf)) (Suc lba) n (drop 512 buf) = store_sectors m lba (Suc n) buf"
proof
  fix i
  have "i - lba = Suc (i - Suc lba)" if "Suc lba \<le> i" using that by simp
  then show "store_sectors (m(lba := take 512 buf)) (Suc lba) n (drop 512 buf) i = store_sectors m lba (Suc n) buf i"
    by (auto simp: store_sectors_def algebra_simps not_le le_less Suc_le_eq)
qed

lemma store_sectors_one: "store_sectors m lba 1 buf = m(lba := take 512 buf)"
  by (auto simp: store_sectors_def le_antisym)

lemma drive_write_sectors:
  "drive_fit d \<Longrightarrow> phase d = DataOut [] lba n \<Longrightarrow> length buf = 512 * Suc n \<Longrightarrow>
     \<exists>b \<le> latency d. write_sectors_loop (Suc n) ata_io buf d =
       (Inr (), d\<lparr>media := store_sectors (media d) lba (Suc n) buf, phase := Ready, busy := b\<rparr>)"
proof (induction n arbitrary: lba d buf)
  case (0 lba d buf)
  then have "buf \<noteq> []" by auto
  with 0 have "write_words ata_io (take 512 buf) (d\<lparr>busy := 0\<rparr>) =
      d\<lparr>media := (media d)(lba := buf), phase := Ready, busy := latency d\<rparr>"
    using drive_write_words [of "d\<lparr>busy := 0\<rparr>" "[]" lba 0 buf] by auto
  with 0 show ?case
    by (simp add: drive_waits drive_fit_busy RORTHOX_SECTOR_SIZE_def store_sectors_one [simplified] fun_upd_def)
      (intro exI [of _ "latency d - 4"], simp)
next
  case (Suc n lba d buf)
  let ?d = "d\<lparr>media := (media d)(lba := take 512 buf), phase := DataOut [] (Suc lba) n, busy := latency d - 4\<rparr>"
  have w: "write_words ata_io (take 512 buf) (d\<lparr>busy := 0\<rparr>) =
      d\<lparr>media := (media d)(lba := take 512 buf), phase := DataOut [] (Suc lba) n, busy := latency d\<rparr>"
    using drive_write_words [of "d\<lparr>busy := 0\<rparr>" "[]" lba "Suc n" "take 512 buf"] Suc.prems by (cases buf) auto
  have fit: "drive_fit ?d" using Suc.prems by (simp add: drive_fit_def RORTHOX_SECTOR_SIZE_def)
  obtain b where b: "b \<le> latency d" and r: "write_sectors_loop (Suc n) ata_io (drop 512 buf) ?d =
      (Inr (), ?d\<lparr>media := store_sectors (media ?d) (Suc lba) (Suc n) (drop 512 buf), phase := Ready, busy := b\<rparr>)"
    using Suc.IH [OF fit, of "Suc lba" "drop 512 buf"] Suc.prems
    by (auto simp del: fun_upd_apply write_sectors_loop.simps)
  have "write_sectors_loop (Suc (Suc n)) ata_io buf d = write_sectors_loop (Suc n) ata_io (drop 512 buf) ?d"
    using Suc.prems w
    by (subst write_sectors_loop.simps) (simp add: drive_waits drive_fit_busy RORTHOX_SECTOR_SIZE_def del: write_sectors_loop.simps)
  with b show ?case
    by (simp add: r store_sectors_Suc del: write_sectors_loop.simps) blast
qed

subsection \<open>The driver on this drive\<close>

lemma drive_registers:
  "drive_outb ATA_SECTOR_COUNT v d = d\<lparr>rcount := v\<rparr>" "drive_outb ATA_LBA_LOW v d = d\<lparr>rlow := v\<rparr>"
  "drive_outb ATA_LBA_MID v d = d\<lparr>rmid := v\<rparr>" "drive_outb ATA_LBA_HIGH v d = d\<lparr>rhigh := v\<rparr>"
  "drive_outb ATA_DRIVE_HEAD v d = d\<lparr>rhead := v\<rparr>" "drive_outb ATA_COMMAND v d = drive_execute v d"
  by (simp_all add: drive_outb_def ata_ports)

text \<open>The drive with the registers of a request.\<close>

definition with_registers :: "ata_drive \<Rightarrow> u32 \<Rightarrow> int \<Rightarrow> ata_drive" where
  "with_registers d lba n = d\<lparr>rhead := drive_head lba, rcount := word_of_int n,
     rlow := ucast (lba AND 0xFF), rmid := ucast (drop_bit 8 lba AND 0xFF),
     rhigh := ucast (drop_bit 16 lba AND 0xFF)\<rparr>"

lemma with_registers_sel [simp]:
  "media (with_registers d lba n) = media d" "nsectors (with_registers d lba n) = nsectors d"
  "latency (with_registers d lba n) = latency d" "busy (with_registers d lba n) = busy d"
  "phase (with_registers d lba n) = phase d" "drive_fit (with_registers d lba n) = drive_fit d"
  by (simp_all add: with_registers_def drive_fit_def)

lemma with_registers_request:
  assumes "unat lba + nat n \<le> 2 ^ 28" and "1 \<le> n" and "n \<le> 256"
  shows "drive_lba (with_registers d lba n) = unat lba" and "drive_count (with_registers d lba n) = nat n"
proof -
  have "lba < ATA_LBA28_LIMIT" using assms by (simp add: ATA_LBA28_LIMIT_def word_less_nat_alt)
  then have "task_file_decode (task_file lba n 0) = Some (unat lba, nat n, 0)"
    using assms by (intro task_file_decode)
  then show "drive_lba (with_registers d lba n) = unat lba" "drive_count (with_registers d lba n) = nat n"
    by (auto simp: task_file_def with_registers_def drive_lba_def drive_count_def split: if_splits)
qed

lemma with_registers_head [simp]:
  "with_registers (d\<lparr>rhead := v, busy := b\<rparr>) lba n = with_registers (d\<lparr>busy := b\<rparr>) lba n"
  by (simp add: with_registers_def)

lemma drive_execute_busy: "drive_execute c d = (drive_execute c d)\<lparr>busy := latency d\<rparr>"
  by (simp add: drive_execute_def Let_def)

lemma drive_command:
  assumes "rhead d = drive_head lba"
  shows "ata_command ata_io lba n c d = (drive_execute c (with_registers d lba n))\<lparr>busy := latency d - 4\<rparr>"
proof -
  have "with_registers d lba n = d\<lparr>rcount := word_of_int n, rlow := ucast (lba AND 0xFF),
      rmid := ucast (drop_bit 8 lba AND 0xFF), rhigh := ucast (drop_bit 16 lba AND 0xFF)\<rparr>"
    using assms by (cases d) (simp add: with_registers_def)
  then have "ata_command ata_io lba n c d = ata_pause ata_io (drive_execute c (with_registers d lba n))"
    by (simp add: ata_command_def drive_registers Let_def)
  then show ?thesis
    by (metis drive_pause drive_execute_busy ata_drive.select_convs(4) ata_drive.surjective
        ata_drive.update_convs(4) with_registers_sel(3))
qed

lemma poll_limit_pos [simp]: "0 < ATA_POLL_LIMIT"
  by (simp add: ATA_POLL_LIMIT_def)

lemma drive_select:
  assumes "drive_fit d" and "phase d = Ready"
  shows "ata_select ata_io lba d = (Inr (), d\<lparr>rhead := drive_head lba, busy := 0\<rparr>)"
  using assms by (simp add: ata_select_def drive_waits drive_fit_busy drive_registers)

lemma disk_read_sector_drive:
  assumes d: "drive_fit d" "phase d = Ready" and r: "unat lba + nat n \<le> 2 ^ 28" "1 \<le> n" "n \<le> 256"
  shows "disk_read_sector ata_io lba n False d =
    (Inr (concat (map (media d) [unat lba..<unat lba + nat n])), (with_registers d lba n)\<lparr>busy := 0\<rparr>)"
proof -
  let ?d = "(drive_execute ATA_CMD_READ_SECTORS (with_registers (d\<lparr>busy := 0\<rparr>) lba n))\<lparr>busy := latency d - 4\<rparr>"
  have ok: "\<not> request_bad False lba n" using r by (simp add: request_ok_iff)
  have n: "nat n = Suc (nat n - 1)" using r by simp
  have "drive_fit ?d" "latency ?d = latency d" "media ?d = media d"
    "phase ?d = DataIn (words_of_bytes (media d (unat lba))) (Suc (unat lba)) (nat n - 1)"
    using d r with_registers_request [OF r, of "d\<lparr>busy := 0\<rparr>"]
    by (simp_all add: drive_execute_def Let_def ata_cmds)
  from drive_read_sectors [OF this(1), of "unat lba" "nat n - 1"] this n obtain b where b: "b \<le> latency d"
    "read_sectors (nat n) ata_io ?d = (Inr (concat (map (media d) [unat lba..<unat lba + nat n])), ?d\<lparr>phase := Ready, busy := b\<rparr>)"
    by auto
  have eq: "?d\<lparr>phase := Ready, busy := 0\<rparr> = (with_registers d lba n)\<lparr>busy := 0\<rparr>"
    using d by (simp add: drive_execute_def Let_def ata_cmds with_registers_def)
  have "ata_wait_done ata_io (?d\<lparr>phase := Ready, busy := b\<rparr>) = (Inr (), (with_registers d lba n)\<lparr>busy := 0\<rparr>)"
    using b(1) drive_fit_busy(3) [OF d(1)] eq by (subst drive_waits(3)) simp_all
  with b(2) show ?thesis
    using d ok by (simp add: disk_read_sector_def drive_waits drive_fit_busy drive_registers drive_command)
qed

lemma ata_write_sectors_drive:
  assumes d: "drive_fit d" "phase d = Ready" and r: "unat lba + nat n \<le> 2 ^ 28" "1 \<le> n" "n \<le> 256"
    and buf: "length buf = 512 * nat n"
  shows "ata_write_sectors ata_io lba n buf d =
    (Inr (), (with_registers d lba n)\<lparr>media := store_sectors (media d) (unat lba) (nat n) buf, busy := 0\<rparr>)"
proof -
  let ?d = "(drive_execute ATA_CMD_WRITE_SECTORS (with_registers (d\<lparr>busy := 0\<rparr>) lba n))\<lparr>busy := latency d - 4\<rparr>"
  have n: "nat n = Suc (nat n - 1)" using r by simp
  have "drive_fit ?d" "latency ?d = latency d" "media ?d = media d" "phase ?d = DataOut [] (unat lba) (nat n - 1)"
    using d r with_registers_request [OF r, of "d\<lparr>busy := 0\<rparr>"]
    by (simp_all add: drive_execute_def Let_def ata_cmds)
  from drive_write_sectors [OF this(1,4), of buf] this n buf obtain b where b: "b \<le> latency d"
    "write_sectors_loop (nat n) ata_io buf ?d =
       (Inr (), ?d\<lparr>media := store_sectors (media d) (unat lba) (nat n) buf, phase := Ready, busy := b\<rparr>)"
    by auto
  have eq: "?d\<lparr>media := m, phase := Ready, busy := 0\<rparr> = (with_registers d lba n)\<lparr>media := m, busy := 0\<rparr>" for m
    using d by (simp add: drive_execute_def Let_def ata_cmds with_registers_def)
  have "ata_wait_done ata_io (?d\<lparr>media := store_sectors (media d) (unat lba) (nat n) buf, phase := Ready, busy := b\<rparr>) =
      (Inr (), (with_registers d lba n)\<lparr>media := store_sectors (media d) (unat lba) (nat n) buf, busy := 0\<rparr>)"
    using b(1) drive_fit_busy(3) [OF d(1)] eq by (subst drive_waits(3)) simp_all
  with b(2) show ?thesis
    using d drive_select [OF d] by (simp add: ata_write_sectors_def drive_command)
qed

subsection \<open>Identification\<close>

lemma identify_sectors:
  assumes "n < 2 ^ 32"
  shows "(ucast (of_nat n :: u16) OR push_bit 16 (ucast (of_nat (n div 65536) :: u16)) :: u32) = of_nat n"
proof (rule bit_word_eqI)
  fix i assume i: "i < LENGTH(32)"
  have "n div 65536 = drop_bit 16 n" by (simp add: drop_bit_eq_div)
  with i show "bit (ucast (of_nat n :: u16) OR push_bit 16 (ucast (of_nat (n div 65536) :: u16)) :: u32) i = bit (of_nat n :: u32) i"
    by (auto simp: bit_simps)
qed

lemma identify_check_drive:
  assumes "0 < n" and "n < 2 ^ 28"
  shows "identify_check (identify_data n) = Inr (of_nat n)"
proof -
  have "unat (of_nat n :: u32) = n" using assms by (intro unat_of_nat_u32) simp
  then have "(of_nat n :: u32) \<noteq> 0" using assms by auto
  moreover have "\<not> (of_nat n :: u32) > ATA_LBA28_SECTORS"
    using assms unat_of_nat_u32 [of n] by (simp add: ATA_LBA28_SECTORS_def word_less_nat_alt)
  ultimately show ?thesis
    using identify_sectors [of n] assms
    by (simp add: identify_check_def identify_data_def Let_def)
qed

lemma ata_identify_drive:
  assumes d: "drive_fit d" "phase d = Ready"
  shows "ata_identify ata_io d = (Inr (of_nat (nsectors d)), d\<lparr>rhead := ATA_DRIVE_MASTER_LBA, busy := 0\<rparr>)"
proof -
  let ?d = "d\<lparr>rhead := ATA_DRIVE_MASTER_LBA, phase := DataIn (identify_data (nsectors d)) 0 0, busy := 0\<rparr>"
  have len: "length (identify_data (nsectors d)) = RORTHOX_SECTOR_SIZE div 2"
    by (simp add: identify_data_def RORTHOX_SECTOR_SIZE_def)
  then have "identify_data (nsectors d) \<noteq> []" by (auto simp: RORTHOX_SECTOR_SIZE_def)
  then have r: "read_words (RORTHOX_SECTOR_SIZE div 2) ata_io ?d =
      (identify_data (nsectors d), ?d\<lparr>phase := Ready, busy := latency d\<rparr>)"
    using drive_read_words [of ?d "identify_data (nsectors d)" 0 0] by (simp add: len drive_next_def)
  let ?e = "d\<lparr>rhead := ATA_DRIVE_MASTER_LBA, busy := 0\<rparr>"
  have lat: "latency d < ATA_POLL_LIMIT" and busy: "busy d < ATA_POLL_LIMIT"
    using drive_fit_busy [OF d(1)] by simp_all
  have a: "ata_wait_idle ata_io d = (Inr (), d\<lparr>busy := 0\<rparr>)"
    and b: "ata_pause ata_io (outb ata_io ATA_DRIVE_HEAD ATA_DRIVE_MASTER_LBA (d\<lparr>busy := 0\<rparr>)) = ?e"
    and c: "insb ata_io ATA_STATUS ?e = (0x40, ?e)" and e: "ata_wait_ready ata_io ?e = (Inr (), ?e)"
    using d busy by (simp_all add: drive_waits drive_registers drive_status)
  have f: "ata_pause ata_io (outb ata_io ATA_COMMAND ATA_CMD_IDENTIFY ?e) = ?d\<lparr>busy := latency d - 4\<rparr>"
    by (simp add: drive_registers drive_execute_def Let_def ata_cmds)
  have g: "ata_wait_data ata_io (?d\<lparr>busy := latency d - 4\<rparr>) = (Inr (), ?d)"
    and h: "ata_wait_done ata_io (?d\<lparr>phase := Ready, busy := latency d - 4\<rparr>) = (Inr (), ?e)"
    using lat d(2) by (simp_all add: drive_waits)
  have i: "ata_pause ata_io (?d\<lparr>phase := Ready, busy := latency d\<rparr>) = ?d\<lparr>phase := Ready, busy := latency d - 4\<rparr>"
    by simp
  have j: "identify_check (identify_data (nsectors d)) = Inr (of_nat (nsectors d))"
    using d by (intro identify_check_drive) (simp_all add: drive_fit_def)
  show ?thesis
    unfolding ata_identify_def a b c e f g h i j r and_then_simps Let_def prod.case sum.case by simp
qed

section \<open>The disk as a medium\<close>

text \<open>
  What the file system relies on: sectors that keep what was written, one at a time.
\<close>

locale media_disk =
  fixes io :: "'d ports"
    and disk_ok :: "'d disk \<Rightarrow> bool"
    and content :: "'d disk \<Rightarrow> nat \<Rightarrow> u8 list"
    and capacity :: "'d disk \<Rightarrow> nat"
  assumes sector_length: "disk_ok k \<Longrightarrow> length (content k s) = RORTHOX_SECTOR_SIZE"
    and geometry: "disk_ok k \<Longrightarrow> sector_size k = int RORTHOX_SECTOR_SIZE \<and> disk_id k = 0 \<and> capacity k < 2 ^ 28"
    and read_block: "disk_ok k \<Longrightarrow> unat lba < capacity k \<Longrightarrow>
      \<exists>k'. disk_read_block io (Some ()) lba 1 False k = (Inr (content k (unat lba)), k') \<and>
        disk_ok k' \<and> content k' = content k \<and> capacity k' = capacity k"
    and write_block: "disk_ok k \<Longrightarrow> unat lba < capacity k \<Longrightarrow> length data = RORTHOX_SECTOR_SIZE \<Longrightarrow>
      \<exists>k'. disk_write_block io (Some ()) lba 1 (Some data) k = (Inr (), k') \<and>
        disk_ok k' \<and> content k' = (content k)(unat lba := data) \<and> capacity k' = capacity k"
    and flush: "disk_ok k \<Longrightarrow> \<exists>k'. disk_flush io (Some ()) k = (Inr (), k') \<and>
        disk_ok k' \<and> content k' = content k \<and> capacity k' = capacity k"
    and write_capacity: "disk_ok k \<Longrightarrow> \<exists>k'. disk_write_capacity io (Some ()) False k = (Inr (of_nat (capacity k)), k') \<and>
        disk_ok k' \<and> content k' = content k \<and> capacity k' = capacity k"

definition drive_disk_ok :: "ata_drive disk \<Rightarrow> bool" where
  "drive_disk_ok k \<longleftrightarrow> drive_fit (drive k) \<and> phase (drive k) = Ready \<and>
     sector_size k = int RORTHOX_SECTOR_SIZE \<and> disk_id k = 0 \<and>
     (write_checked k \<longrightarrow> write_status k = Inr () \<and> write_sectors k = of_nat (nsectors (drive k)))"

lemma drive_check_writable:
  assumes "drive_disk_ok k"
  obtains k' where "disk_check_writable ata_io k = (Inr (), k')" "drive_disk_ok k'" "write_checked k'"
    "media (drive k') = media (drive k)" "nsectors (drive k') = nsectors (drive k)"
proof (cases "write_checked k")
  case True
  with assms that [of k] show ?thesis by (simp add: disk_check_writable_def drive_disk_ok_def)
next
  case False
  let ?k = "k\<lparr>drive := (drive k)\<lparr>rhead := ATA_DRIVE_MASTER_LBA, busy := 0\<rparr>, write_checked := True,
    write_status := Inr (), write_sectors := of_nat (nsectors (drive k))\<rparr>"
  have "disk_check_writable ata_io k = (Inr (), ?k)"
    using assms False ata_identify_drive [of "drive k"]
    by (simp add: disk_check_writable_def drive_disk_ok_def Let_def)
  moreover have "drive_disk_ok ?k" using assms by (simp add: drive_disk_ok_def)
  ultimately show ?thesis using that [of ?k] by simp
qed

lemma disk_read_block_drive:
  assumes k: "drive_disk_ok k" and r: "unat lba + nat n \<le> 2 ^ 28" "1 \<le> n" "n \<le> 256"
  shows "disk_read_block ata_io (Some ()) lba n False k =
    (Inr (concat (map (media (drive k)) [unat lba..<unat lba + nat n])),
     k\<lparr>drive := (with_registers (drive k) lba n)\<lparr>busy := 0\<rparr>\<rparr>)"
    and "drive_disk_ok (k\<lparr>drive := (with_registers (drive k) lba n)\<lparr>busy := 0\<rparr>\<rparr>)"
  using assms disk_read_sector_drive [OF _ _ r, of "drive k"]
  by (simp_all add: disk_read_block_def on_drive_def drive_disk_ok_def)

lemma disk_write_block_drive:
  assumes k: "drive_disk_ok k" and r: "1 \<le> n" "n \<le> 256" "unat lba + nat n \<le> nsectors (drive k)"
    and buf: "length buf = 512 * nat n"
  obtains k' where "disk_write_block ata_io (Some ()) lba n (Some buf) k = (Inr (), k')" "drive_disk_ok k'"
    "media (drive k') = store_sectors (media (drive k)) (unat lba) (nat n) buf"
    "nsectors (drive k') = nsectors (drive k)"
proof -
  obtain k1 where c: "disk_check_writable ata_io k = (Inr (), k1)" and k1: "drive_disk_ok k1" "write_checked k1"
    "media (drive k1) = media (drive k)" "nsectors (drive k1) = nsectors (drive k)"
    using drive_check_writable [OF k] .
  have fit: "drive_fit (drive k1)" "phase (drive k1) = Ready" using k1 by (simp_all add: drive_disk_ok_def)
  have cap: "unat lba + nat n \<le> 2 ^ 28" using r(3) k by (simp add: drive_disk_ok_def drive_fit_def)
  have "unat (write_sectors k1) = nsectors (drive k)"
    using k1 fit by (simp add: drive_disk_ok_def drive_fit_def unat_of_nat_u32)
  then have inside: "\<not> (lba \<ge> write_sectors k1 \<or> word_of_int n > write_sectors k1 - lba)"
    using capacity_ok_iff [OF r(1,2), of "write_sectors k1" lba] r(3) by simp
  let ?d = "(with_registers (drive k1) lba n)\<lparr>media := store_sectors (media (drive k)) (unat lba) (nat n) buf, busy := 0\<rparr>"
  have w: "ata_write_sectors ata_io lba n buf (drive k1) = (Inr (), ?d)"
    using ata_write_sectors_drive [OF fit cap r(1,2) buf] k1 by simp
  have "disk_write_block ata_io (Some ()) lba n (Some buf) k = (Inr (), k1\<lparr>drive := ?d\<rparr>)"
    using cap r(1,2) c inside w by (simp add: disk_write_block_def request_ok_iff on_drive_def)
  moreover have "drive_disk_ok (k1\<lparr>drive := ?d\<rparr>)"
  proof -
    have "length (store_sectors (media (drive k)) (unat lba) (nat n) buf s) = 512" for s
    proof (cases "unat lba \<le> s \<and> s < unat lba + nat n")
      case True
      then have "512 * Suc (s - unat lba) \<le> 512 * nat n" by (intro mult_le_mono2) linarith
      then have "512 * (s - unat lba) + 512 \<le> length buf" using buf by simp
      with True show ?thesis by (simp add: store_sectors_def)
    next
      case False
      with k show ?thesis by (auto simp: store_sectors_def drive_disk_ok_def drive_fit_def RORTHOX_SECTOR_SIZE_def)
    qed
    with k1 show ?thesis by (simp add: drive_disk_ok_def drive_fit_def RORTHOX_SECTOR_SIZE_def)
  qed
  ultimately show ?thesis using that [of "k1\<lparr>drive := ?d\<rparr>"] k1 by simp
qed

lemma disk_flush_drive:
  assumes k: "drive_disk_ok k"
  obtains k' where "disk_flush ata_io (Some ()) k = (Inr (), k')" "drive_disk_ok k'"
    "media (drive k') = media (drive k)" "nsectors (drive k') = nsectors (drive k)"
proof -
  obtain k1 where c: "disk_check_writable ata_io k = (Inr (), k1)" and k1: "drive_disk_ok k1" "write_checked k1"
    "media (drive k1) = media (drive k)" "nsectors (drive k1) = nsectors (drive k)"
    using drive_check_writable [OF k] .
  have fit: "drive_fit (drive k1)" "phase (drive k1) = Ready" using k1 by (simp_all add: drive_disk_ok_def)
  have "latency (drive k1) < ATA_FLUSH_POLL_LIMIT"
    using fit by (simp add: drive_fit_def ATA_FLUSH_POLL_LIMIT_def ATA_POLL_LIMIT_def)
  then have e: "ata_wait_end ATA_FLUSH_POLL_LIMIT ata_io
      ((drive k1)\<lparr>rhead := drive_head 0, phase := Ready, busy := latency (drive k1) - 4\<rparr>) =
      (Inr (), (drive k1)\<lparr>rhead := drive_head 0, phase := Ready, busy := 0\<rparr>)"
    by (subst drive_end_loop) simp_all
  have "disk_flush ata_io (Some ()) k = (Inr (), k1\<lparr>drive := (drive k1)\<lparr>rhead := drive_head 0, phase := Ready, busy := 0\<rparr>\<rparr>)"
    using c drive_select [OF fit] e
    by (simp add: disk_flush_def on_drive_def drive_registers drive_execute_def Let_def ata_cmds)
  moreover have "drive_disk_ok (k1\<lparr>drive := (drive k1)\<lparr>rhead := drive_head 0, phase := Ready, busy := 0\<rparr>\<rparr>)"
    using k1 by (simp add: drive_disk_ok_def)
  ultimately show ?thesis
    using that [of "k1\<lparr>drive := (drive k1)\<lparr>rhead := drive_head 0, phase := Ready, busy := 0\<rparr>\<rparr>"] k1 by simp
qed

interpretation ata: media_disk ata_io drive_disk_ok "\<lambda>k. media (drive k)" "\<lambda>k. nsectors (drive k)"
proof
  fix k :: "ata_drive disk" and s assume "drive_disk_ok k"
  then show "length (media (drive k) s) = RORTHOX_SECTOR_SIZE"
    by (simp add: drive_disk_ok_def drive_fit_def)
next
  fix k :: "ata_drive disk" assume "drive_disk_ok k"
  then show "sector_size k = int RORTHOX_SECTOR_SIZE \<and> disk_id k = 0 \<and> nsectors (drive k) < 2 ^ 28"
    by (simp add: drive_disk_ok_def drive_fit_def)
next
  fix k :: "ata_drive disk" and lba :: u32 assume k: "drive_disk_ok k" "unat lba < nsectors (drive k)"
  then have "unat lba + nat 1 \<le> 2 ^ 28" by (simp add: drive_disk_ok_def drive_fit_def)
  note r = disk_read_block_drive [OF k(1) this order.refl]
  show "\<exists>k'. disk_read_block ata_io (Some ()) lba 1 False k = (Inr (media (drive k) (unat lba)), k') \<and>
      drive_disk_ok k' \<and> media (drive k') = media (drive k) \<and> nsectors (drive k') = nsectors (drive k)"
    using r(2) by (simp add: r(1))
next
  fix k :: "ata_drive disk" and lba :: u32 and data :: "u8 list"
  assume k: "drive_disk_ok k" "unat lba < nsectors (drive k)" "length data = RORTHOX_SECTOR_SIZE"
  obtain k' where "disk_write_block ata_io (Some ()) lba 1 (Some data) k = (Inr (), k')" "drive_disk_ok k'"
    "media (drive k') = store_sectors (media (drive k)) (unat lba) (nat 1) data"
    "nsectors (drive k') = nsectors (drive k)"
    by (rule disk_write_block_drive [OF k(1), of 1 lba data]) (use k in \<open>simp_all add: RORTHOX_SECTOR_SIZE_def\<close>)
  then show "\<exists>k'. disk_write_block ata_io (Some ()) lba 1 (Some data) k = (Inr (), k') \<and> drive_disk_ok k' \<and>
      media (drive k') = (media (drive k))(unat lba := data) \<and> nsectors (drive k') = nsectors (drive k)"
    using k(3) by (simp add: store_sectors_one [simplified] RORTHOX_SECTOR_SIZE_def fun_upd_def)
next
  fix k :: "ata_drive disk" assume k: "drive_disk_ok k"
  show "\<exists>k'. disk_flush ata_io (Some ()) k = (Inr (), k') \<and> drive_disk_ok k' \<and>
      media (drive k') = media (drive k) \<and> nsectors (drive k') = nsectors (drive k)"
    by (rule disk_flush_drive [OF k]) blast
  obtain k1 where "disk_check_writable ata_io k = (Inr (), k1)" and "drive_disk_ok k1" "write_checked k1"
    "media (drive k1) = media (drive k)" "nsectors (drive k1) = nsectors (drive k)"
    using drive_check_writable [OF k] .
  then show "\<exists>k'. disk_write_capacity ata_io (Some ()) False k = (Inr (of_nat (nsectors (drive k))), k') \<and>
      drive_disk_ok k' \<and> media (drive k') = media (drive k) \<and> nsectors (drive k') = nsectors (drive k)"
    by (simp add: disk_write_capacity_def drive_disk_ok_def)
qed

lemma store_sectors_outside: "i < lba \<or> lba + n \<le> i \<Longrightarrow> store_sectors m lba n buf i = m i"
  by (auto simp: store_sectors_def)

lemma store_sectors_read:
  "length buf = 512 * n \<Longrightarrow> concat (map (store_sectors m lba n buf) [lba..<lba + n]) = buf"
proof (induction n arbitrary: m lba buf)
  case (Suc n)
  have "concat (map (store_sectors m lba (Suc n) buf) [Suc lba..<Suc lba + n]) = drop 512 buf"
    using Suc.IH [of "drop 512 buf" "m(lba := take 512 buf)" "Suc lba"] Suc.prems
    unfolding store_sectors_Suc by simp
  moreover have "store_sectors m lba (Suc n) buf lba = take 512 buf" by (simp add: store_sectors_def)
  ultimately show ?case by (simp add: upt_conv_Cons del: upt_Suc)
qed simp

text \<open>
  C23. On a drive that follows the ATA protocol, whatever its latency below the poll limit, up to 256
  sectors that \<^verbatim>\<open>disk_write_block\<close> wrote are what \<^verbatim>\<open>disk_read_block\<close> returns afterwards, every other sector
  is as before, and the disk is ready for the next request.
\<close>

theorem disk_write_read_roundtrip:
  assumes "drive_disk_ok k" and "1 \<le> n" and "n \<le> 256" and "unat lba + nat n \<le> nsectors (drive k)"
    and "length buf = 512 * nat n"
  shows "\<exists>k' k''. disk_write_block ata_io (Some ()) lba n (Some buf) k = (Inr (), k') \<and> drive_disk_ok k' \<and>
    disk_read_block ata_io (Some ()) lba n False k' = (Inr buf, k'') \<and> drive_disk_ok k'' \<and>
    (\<forall>i. i < unat lba \<or> unat lba + nat n \<le> i \<longrightarrow> media (drive k'') i = media (drive k) i)"
proof -
  obtain k' where k': "disk_write_block ata_io (Some ()) lba n (Some buf) k = (Inr (), k')" "drive_disk_ok k'"
    "media (drive k') = store_sectors (media (drive k)) (unat lba) (nat n) buf"
    "nsectors (drive k') = nsectors (drive k)"
    using disk_write_block_drive [OF assms] .
  have "unat lba + nat n \<le> 2 ^ 28" using assms(1,4) by (simp add: drive_disk_ok_def drive_fit_def)
  note r = disk_read_block_drive [OF k'(2) this assms(2,3)]
  show ?thesis
    using k' r(2) assms(5) by (auto simp: r(1) store_sectors_read store_sectors_outside)
qed

definition blank_drive :: ata_drive where
  "blank_drive = \<lparr>media = \<lambda>_. replicate 512 0, nsectors = 100, latency = 7, busy = 0, phase = Ready,
     rcount = 0, rlow = 0, rmid = 0, rhigh = 0, rhead = 0\<rparr>"

lemma blank_drive_ok: "drive_disk_ok (disk_search_and_init blank_drive)"
  by (simp add: drive_disk_ok_def disk_search_and_init_def drive_fit_def blank_drive_def ATA_POLL_LIMIT_def
      RORTHOX_SECTOR_SIZE_def)

theorem disk_write_read_roundtrip_witness:
  "\<exists>k' k''. disk_write_block ata_io (Some ()) 98 2 (Some (replicate 1024 7)) (disk_search_and_init blank_drive) = (Inr (), k') \<and>
    disk_read_block ata_io (Some ()) 98 2 False k' = (Inr (replicate 1024 7), k'')"
  using disk_write_read_roundtrip [OF blank_drive_ok, of 2 98 "replicate 1024 7"]
  by (auto simp: disk_search_and_init_def blank_drive_def)

text \<open>A drive that asks for one sector after each command.\<close>

definition eager_io :: "bool ports" where
  "eager_io = \<lparr>insb = \<lambda>p d. (if p = ATA_STATUS then (if d then (0x48, False) else (0x40, d)) else (0, d)),
     insw = \<lambda>_ d. (0, d), outb = \<lambda>p v d. (if p = ATA_COMMAND then True else d), outw = \<lambda>_ _ d. d\<rparr>"

lemma eager_write_words: "write_words (logged eager_io) bs d = d"
  by (induction "logged eager_io" bs d rule: write_words.induct) (simp_all add: logged_def eager_io_def split_beta)

theorem disk_write_block_safe_witness:
  "\<exists>k'. disk_write_block (logged eager_io) (Some ()) 0x01020304 1 (Some (replicate 512 9))
      \<lparr>drive = (False, []), sector_size = 512, disk_id = 0, write_checked = True, write_status = Inr (),
       write_sectors = 0x02000000\<rparr> = (Inr (), k') \<and>
    (\<exists>before regs. snd (drive k') = before @ regs \<and>
       task_file_decode regs = Some (0x01020304, 1, ATA_CMD_WRITE_SECTORS))"
proof -
  let ?k = "\<lparr>drive = (False, []), sector_size = 512, disk_id = 0, write_checked = True, write_status = Inr (),
       write_sectors = 0x02000000\<rparr>"
  obtain r k' where w: "disk_write_block (logged eager_io) (Some ()) 0x01020304 1 (Some (replicate 512 9)) ?k = (r, k')"
    by (cases "disk_write_block (logged eager_io) (Some ()) 0x01020304 1 (Some (replicate 512 9)) ?k") blast
  have idle: "ata_wait_idle (logged eager_io) (False, l) = (Inr (), False, l)"
    "ata_wait_ready (logged eager_io) (False, l) = (Inr (), False, l)"
    "ata_wait_done (logged eager_io) (False, l) = (Inr (), False, l)"
    "ata_wait_data (logged eager_io) (True, l) = (Inr (), False, l)" for l
    unfolding ata_wait_idle_def ata_wait_ready_def ata_wait_done_def ata_wait_data_def
    by (subst ata_wait_idle_loop.simps ata_wait_ready_loop.simps ata_wait_end.simps ata_wait_data_loop.simps,
        simp add: logged_def eager_io_def ata_bits ATA_POLL_LIMIT_def)+
  have "(\<lambda>d. snd (insb (logged eager_io) ATA_ALT_STATUS d)) = id"
    by (auto simp: logged_def eager_io_def ata_ports)
  then have pause: "ata_pause (logged eager_io) d = d" for d by (simp add: ata_pause_def)
  have out: "outb (logged eager_io) p v (d, l) = (if p = 0x1F7 then True else d, l @ [(p, v)])" for p v d l
    by (simp add: logged_def eager_io_def ATA_COMMAND_def)
  have "r = Inr ()"
    using w by (auto simp: disk_write_block_def request_bad_def ATA_MAX_SECTORS_def ATA_LBA28_LIMIT_def
        disk_check_writable_def on_drive_def ata_write_sectors_def ata_select_def idle pause ata_command_def
        eager_write_words out ata_ports)
  with w disk_write_block_safe [OF w, of False] show ?thesis by auto
qed

end
