(* ===== verification/Streamer.thy ===== *)
theory Streamer
  imports Disk Kernel_Memory
begin

text \<open>
  Byte streams over the sectors of the disk: \<^verbatim>\<open>kernel/disk/streamer.c\<close>. A stream is its node in the kernel
  heap and its position; the disk it refers to is the only one. An operation returns its status, what
  it copied (also before a failure), and the new position and disk.
\<close>

section \<open>Definitions\<close>

record disk_stream =
  stream_addr :: u32
  stream_pos :: int

definition diskstreamer_new :: "int \<Rightarrow> kmem \<Rightarrow> disk_stream option \<times> kmem" where
  "diskstreamer_new index s =
     (case disk_get index of
        None \<Rightarrow> (None, s)
      | Some _ \<Rightarrow>
          let (streamer, s) = kzalloc s 8
          in if streamer = 0 then (None, s)
             else (Some \<lparr>stream_addr = streamer, stream_pos = 0\<rparr>, s))"

definition diskstreamer_seek :: "disk_stream \<Rightarrow> int \<Rightarrow> unit result \<times> disk_stream" where
  "diskstreamer_seek st pos = (if pos < 0 then (Inl EINVARG, st) else (Inr (), st\<lparr>stream_pos := pos\<rparr>))"

text \<open>The part of the current sector that a transfer of \<open>len\<close> bytes at \<open>pos\<close> covers.\<close>

definition sector_part :: "int \<Rightarrow> int \<Rightarrow> int" where
  "sector_part pos len =
     (let part = int RORTHOX_SECTOR_SIZE - pos mod int RORTHOX_SECTOR_SIZE in if part > len then len else part)"

lemma sector_part_pos: "0 < len \<Longrightarrow> 0 < sector_part pos len" "sector_part pos len \<le> len"
  by (simp_all add: sector_part_def Let_def RORTHOX_SECTOR_SIZE_def)

function stream_read_loop ::
  "'d ports \<Rightarrow> int \<Rightarrow> disk_stream \<Rightarrow> 'd disk \<Rightarrow> unit result \<times> u8 list \<times> disk_stream \<times> 'd disk" where
  "stream_read_loop io len st k =
     (if len \<le> 0 then (Inr (), [], st, k)
      else let sector = stream_pos st div int RORTHOX_SECTOR_SIZE;
               offset = stream_pos st mod int RORTHOX_SECTOR_SIZE;
               to_read = sector_part (stream_pos st) len
           in case disk_read_block io (Some ()) (word_of_int sector) 1 False k of
                (Inl e, k) \<Rightarrow> (Inl e, [], st, k)
              | (Inr buf, k) \<Rightarrow>
                  let (r, bs, st', k') = stream_read_loop io (len - to_read) (st\<lparr>stream_pos := stream_pos st + to_read\<rparr>) k
                  in (r, take (nat to_read) (drop (nat offset) buf) @ bs, st', k'))"
  by pat_completeness auto

termination
  by (relation "measure (\<lambda>(io, len, st, k). nat len)") (use sector_part_pos in \<open>auto simp: not_le\<close>)

definition diskstreamer_read ::
  "'d ports \<Rightarrow> disk_stream \<Rightarrow> int \<Rightarrow> 'd disk \<Rightarrow> unit result \<times> u8 list \<times> disk_stream \<times> 'd disk" where
  "diskstreamer_read io st len k =
     (if len < 0 \<or> stream_pos st < 0 \<or> len > INT_MAX - stream_pos st then (Inl EINVARG, [], st, k)
      else stream_read_loop io len st k)"

text \<open>
  The loop of a write: a sector that is not covered completely is read first. \<open>inp\<close> is the rest of
  the caller's buffer.
\<close>

function stream_write_loop ::
  "'d ports \<Rightarrow> u8 list \<Rightarrow> int \<Rightarrow> disk_stream \<Rightarrow> 'd disk \<Rightarrow> unit result \<times> disk_stream \<times> 'd disk" where
  "stream_write_loop io inp len st k =
     (if len \<le> 0 then (Inr (), st, k)
      else let sector = stream_pos st div int RORTHOX_SECTOR_SIZE;
               offset = stream_pos st mod int RORTHOX_SECTOR_SIZE;
               part = sector_part (stream_pos st) len;
               (data, k) =
                 (if offset \<noteq> 0 \<or> part \<noteq> int RORTHOX_SECTOR_SIZE
                  then let (r, k) = disk_read_block io (Some ()) (word_of_int sector) 1 False k
                       in (case r of Inl e \<Rightarrow> Inl e
                           | Inr buf \<Rightarrow> Inr (take (nat offset) buf @ take (nat part) inp @ drop (nat (offset + part)) buf), k)
                  else (Inr (take RORTHOX_SECTOR_SIZE inp), k))
           in case data of
                Inl e \<Rightarrow> (Inl e, st, k)
              | Inr data \<Rightarrow>
                  (case disk_write_block io (Some ()) (word_of_int sector) 1 (Some data) k of
                     (Inl e, k) \<Rightarrow> (Inl e, st, k)
                   | (Inr _, k) \<Rightarrow>
                       stream_write_loop io (drop (nat part) inp) (len - part) (st\<lparr>stream_pos := stream_pos st + part\<rparr>) k))"
  by pat_completeness auto

termination
  by (relation "measure (\<lambda>(io, inp, len, st, k). nat len)") (use sector_part_pos in \<open>auto simp: not_le\<close>)

declare stream_read_loop.simps [simp del] stream_write_loop.simps [simp del]

definition diskstreamer_write ::
  "'d ports \<Rightarrow> disk_stream option \<Rightarrow> u8 list option \<Rightarrow> int \<Rightarrow> 'd disk \<Rightarrow> unit result \<times> disk_stream option \<times> 'd disk" where
  "diskstreamer_write io stream buffer len k =
     (case stream of
        None \<Rightarrow> (Inl EINVARG, None, k)
      | Some st \<Rightarrow>
          if len < 0 \<or> stream_pos st < 0 \<or> len > INT_MAX - stream_pos st \<or> (len \<noteq> 0 \<and> buffer = None)
          then (Inl EINVARG, Some st, k)
          else let (r, st, k) = stream_write_loop io (case buffer of None \<Rightarrow> [] | Some bs \<Rightarrow> bs) len st k
               in (r, Some st, k))"

definition diskstreamer_close :: "disk_stream \<Rightarrow> kmem \<Rightarrow> kmem" where
  "diskstreamer_close st s = kfree s (stream_addr st)"

section \<open>Streams on a medium\<close>

definition media_byte :: "(nat \<Rightarrow> u8 list) \<Rightarrow> nat \<Rightarrow> u8" where
  "media_byte m i = m (i div RORTHOX_SECTOR_SIZE) ! (i mod RORTHOX_SECTOR_SIZE)"

definition media_bytes :: "(nat \<Rightarrow> u8 list) \<Rightarrow> nat \<Rightarrow> nat \<Rightarrow> u8 list" where
  "media_bytes m p n = map (media_byte m) [p..<p + n]"

lemma length_media_bytes [simp]: "length (media_bytes m p n) = n"
  by (simp add: media_bytes_def)

lemma media_bytes_0 [simp]: "media_bytes m p 0 = []"
  by (simp add: media_bytes_def)

lemma media_bytes_append: "media_bytes m p (a + b) = media_bytes m p a @ media_bytes m (p + a) b"
  using upt_add_eq_append [of p "p + a" b] by (simp add: media_bytes_def add.assoc)

lemma media_bytes_nth: "i < n \<Longrightarrow> media_bytes m p n ! i = media_byte m (p + i)"
  by (simp add: media_bytes_def)

lemma within_block:
  fixes p :: nat
  assumes "p mod 512 + i < 512"
  shows "(p + i) div 512 = p div 512" and "(p + i) mod 512 = p mod 512 + i"
proof -
  obtain q r where p: "p = 512 * q + r" "r < 512" using div_mult_mod_eq [of p 512] by (metis mod_less_divisor mult.commute zero_less_numeral)
  with assms have "r + i < 512" by simp
  then have "(512 * q + (r + i)) div 512 = q" "(512 * q + (r + i)) mod 512 = r + i" by simp_all
  with p show "(p + i) div 512 = p div 512" "(p + i) mod 512 = p mod 512 + i" by (simp_all add: add.assoc)
qed

lemma media_sector_part:
  assumes "length (m (p div 512)) = 512" and "p mod 512 + n \<le> 512"
  shows "take n (drop (p mod 512) (m (p div 512))) = media_bytes m p n"
proof (rule nth_equalityI)
  fix i assume "i < length (take n (drop (p mod 512) (m (p div 512))))"
  with assms have i: "i < n" "p mod 512 + i < 512" by simp_all
  with within_block [OF i(2)] assms show "take n (drop (p mod 512) (m (p div 512))) ! i = media_bytes m p n ! i"
    by (simp add: media_bytes_nth media_byte_def RORTHOX_SECTOR_SIZE_def)
qed (use assms in simp)

text \<open>The length of the first step of a transfer.\<close>

definition step_len :: "nat \<Rightarrow> nat \<Rightarrow> nat" where
  "step_len p n = min n (512 - p mod 512)"

lemma sector_part_nat: "sector_part (int p) (int n) = int (step_len p n)"
proof -
  have "512 - int p mod 512 = int (512 - p mod 512)" by (simp add: of_nat_diff zmod_int)
  then show ?thesis by (auto simp: sector_part_def step_len_def Let_def RORTHOX_SECTOR_SIZE_def)
qed

lemma step_len: "step_len p n \<le> n" "p mod 512 + step_len p n \<le> 512" "0 < n \<Longrightarrow> 0 < step_len p n"
  by (auto simp: step_len_def)

lemma position_sector:
  "int p div int RORTHOX_SECTOR_SIZE = int (p div 512)" "int p mod int RORTHOX_SECTOR_SIZE = int (p mod 512)"
  by (simp_all add: RORTHOX_SECTOR_SIZE_def zdiv_int zmod_int)

context media_disk
begin

lemma sector_inside:
  assumes "disk_ok k" and "p + n \<le> 512 * capacity k" and "0 < n"
  shows "unat (word_of_int (int (p div 512)) :: u32) = p div 512" and "p div 512 < capacity k"
proof -
  show *: "p div 512 < capacity k" using assms by (simp add: div_less_iff_less_mult mult.commute)
  then have "p div 512 < 4294967296" using geometry [OF assms(1)] by simp
  then show "unat (word_of_int (int (p div 512)) :: u32) = p div 512"
    using unat_of_nat_u32 [of "p div 512"] by simp
qed

lemma stream_read_loop:
  "disk_ok k \<Longrightarrow> stream_pos st = int p \<Longrightarrow> p + n \<le> 512 * capacity k \<Longrightarrow>
     \<exists>k'. stream_read_loop io (int n) st k =
       (Inr (), media_bytes (content k) p n, st\<lparr>stream_pos := int (p + n)\<rparr>, k') \<and>
       disk_ok k' \<and> content k' = content k \<and> capacity k' = capacity k"
proof (induction n arbitrary: p st k rule: less_induct)
  case (less n p st k)
  show ?case
  proof (cases "n = 0")
    case True
    with less.prems show ?thesis by (cases st) (simp add: stream_read_loop.simps)
  next
    case False
    let ?j = "step_len p n"
    let ?st = "st\<lparr>stream_pos := int (p + ?j)\<rparr>"
    note sec = sector_inside [OF less.prems(1,3)]
    from False obtain k1 where k1: "disk_read_block io (Some ()) (word_of_int (int (p div 512))) 1 False k =
        (Inr (content k (p div 512)), k1)" "disk_ok k1" "content k1 = content k" "capacity k1 = capacity k"
      using read_block [OF less.prems(1), of "word_of_int (int (p div 512))"] sec by auto
    have len: "length (content k (p div 512)) = 512"
      using sector_length [OF less.prems(1)] by (simp add: RORTHOX_SECTOR_SIZE_def)
    have less': "n - ?j < n" "p + ?j + (n - ?j) = p + n" using False step_len(1,2) [of p n] step_len(3) [of n p] by simp_all
    obtain k' where k': "stream_read_loop io (int (n - ?j)) ?st k1 =
        (Inr (), media_bytes (content k) (p + ?j) (n - ?j), ?st\<lparr>stream_pos := int (p + n)\<rparr>, k')"
      "disk_ok k'" "content k' = content k" "capacity k' = capacity k"
      using less.IH [OF less'(1) k1(2), of ?st "p + ?j"] less.prems less'(2) k1 by auto
    have "stream_read_loop io (int n) st k =
        (Inr (), media_bytes (content k) p ?j @ media_bytes (content k) (p + ?j) (n - ?j),
         st\<lparr>stream_pos := int (p + n)\<rparr>, k')"
      using False k1(1) k'(1) less.prems(2) step_len [of p n] media_sector_part [of "content k" p ?j, OF len]
      by (subst stream_read_loop.simps) (simp add: position_sector sector_part_nat of_nat_diff)
    moreover have "media_bytes (content k) p ?j @ media_bytes (content k) (p + ?j) (n - ?j) = media_bytes (content k) p n"
      using step_len(1) [of p n] media_bytes_append [of "content k" p ?j "n - ?j"] by simp
    ultimately show ?thesis using k' by auto
  qed
qed

lemma diskstreamer_read:
  assumes "disk_ok k" and "stream_pos st = int p" and "p + n \<le> 512 * capacity k" and "int (p + n) \<le> INT_MAX"
  shows "\<exists>k'. diskstreamer_read io st (int n) k =
      (Inr (), media_bytes (content k) p n, st\<lparr>stream_pos := int (p + n)\<rparr>, k') \<and>
      disk_ok k' \<and> content k' = content k \<and> capacity k' = capacity k"
  using stream_read_loop [OF assms(1,2,3)] assms(2,4) by (simp add: diskstreamer_read_def)

end

text \<open>A sector with a part of it replaced, and the whole medium with a run of bytes replaced.\<close>

definition media_store :: "(nat \<Rightarrow> u8 list) \<Rightarrow> nat \<Rightarrow> u8 list \<Rightarrow> nat \<Rightarrow> u8 list" where
  "media_store m p bs = (\<lambda>s. map (\<lambda>i. if p \<le> 512 * s + i \<and> 512 * s + i < p + length bs
     then bs ! (512 * s + i - p) else m s ! i) [0..<512])"

lemma media_store_byte:
  "media_byte (media_store m p bs) i = (if p \<le> i \<and> i < p + length bs then bs ! (i - p) else media_byte m i)"
  using div_mult_mod_eq [of i 512] by (simp add: media_byte_def media_store_def RORTHOX_SECTOR_SIZE_def mult.commute)

lemma media_store_length [simp]: "length (media_store m p bs s) = 512"
  by (simp add: media_store_def)

lemma media_eqI:
  assumes "\<And>s. length (m s) = 512" and "\<And>s. length (m' s) = 512" and "\<And>i. media_byte m i = media_byte m' i"
  shows "m = m'"
proof (intro ext nth_equalityI)
  fix s i assume "i < length (m s)"
  with assms(1) [of s] have i: "i < 512" by simp
  then have "(512 * s + i) div 512 = s" "(512 * s + i) mod 512 = i" by simp_all
  with assms(3) [of "512 * s + i"] show "m s ! i = m' s ! i"
    by (simp add: media_byte_def RORTHOX_SECTOR_SIZE_def)
qed (use assms in simp)

lemma media_store_Nil:
  assumes "\<And>s. length (m s) = 512"
  shows "media_store m p [] = m"
  by (rule media_eqI) (auto simp: assms media_store_byte)

lemma media_store_append:
  "media_store (media_store m p as) (p + length as) bs = media_store m p (as @ bs)"
  by (rule media_eqI) (auto simp: media_store_byte nth_append)

lemma media_store_sector:
  fixes q r :: nat
  assumes len: "\<And>s. length (m s) = 512" and fit: "r + length bs \<le> 512"
  shows "m(q := take r (m q) @ bs @ drop (r + length bs) (m q)) = media_store m (512 * q + r) bs"
proof (rule media_eqI)
  let ?s = "take r (m q) @ bs @ drop (r + length bs) (m q)"
  have ls: "length ?s = 512" using len [of q] fit by simp
  then show "length ((m(q := ?s)) s) = 512" for s using len by simp
  fix i :: nat
  obtain j e :: nat where i: "i = 512 * j + e" "e < 512"
    using div_mult_mod_eq [of i 512] by (metis mod_less_divisor mult.commute zero_less_numeral)
  have sel: "media_byte x i = x j ! e" for x using i by (simp add: media_byte_def RORTHOX_SECTOR_SIZE_def)
  show "media_byte (m(q := ?s)) i = media_byte (media_store m (512 * q + r) bs) i"
  proof (cases "j = q")
    case True
    with i have "512 * q + r \<le> i \<longleftrightarrow> r \<le> e" "i < 512 * q + r + length bs \<longleftrightarrow> e < r + length bs"
      "i - (512 * q + r) = e - r" by simp_all
    with True i(2) fit len [of q] show ?thesis
      unfolding media_store_byte unfolding sel by (auto simp: nth_append)
  next
    case False
    then have "512 * j + e < 512 * q \<or> 512 * q + 512 \<le> 512 * j + e" using i(2) by (cases "j < q") auto
    then have "\<not> (512 * q + r \<le> i \<and> i < 512 * q + r + length bs)" using i fit by auto
    with False show ?thesis unfolding media_store_byte by (auto simp: sel)
  qed
qed simp

context media_disk
begin

text \<open>One step of the write loop stores the next part of the buffer in its sector.\<close>

lemma stream_write_step:
  assumes k: "disk_ok k" and st: "stream_pos st = int p" and room: "p + n \<le> 512 * capacity k" and n: "0 < n"
    and inp: "n \<le> length inp" and j: "j = step_len p n"
  shows "\<exists>k'. stream_write_loop io inp (int n) st k =
      stream_write_loop io (drop j inp) (int (n - j)) (st\<lparr>stream_pos := int (p + j)\<rparr>) k' \<and>
      disk_ok k' \<and> content k' = media_store (content k) p (take j inp) \<and> capacity k' = capacity k"
proof -
  note sec = sector_inside [OF k room n]
  have jn: "j \<le> n" "p mod 512 + j \<le> 512" "0 < j" using j n step_len(1,2) [of p n] step_len(3) [of n p] by simp_all
  have len: "length (content k s) = 512" for s using sector_length [OF k] by (simp add: RORTHOX_SECTOR_SIZE_def)
  obtain k1 where k1: "disk_read_block io (Some ()) (word_of_int (int (p div 512))) 1 False k =
      (Inr (content k (p div 512)), k1)" "disk_ok k1" "content k1 = content k" "capacity k1 = capacity k"
    using read_block [OF k, of "word_of_int (int (p div 512))"] sec by auto
  let ?part = "p mod 512 \<noteq> 0 \<or> j \<noteq> 512"
  let ?old = "content k (p div 512)"
  let ?new = "take (p mod 512) ?old @ take j inp @ drop (p mod 512 + j) ?old"
  have whole: "take 512 inp = ?new" if "\<not> ?part" using that len [of "p div 512"] by simp
  let ?k = "if ?part then k1 else k"
  have "length ?new = RORTHOX_SECTOR_SIZE" using len [of "p div 512"] jn inp by (simp add: RORTHOX_SECTOR_SIZE_def)
  moreover have "disk_ok ?k" "content ?k = content k" "capacity ?k = capacity k" using k k1 by auto
  ultimately obtain k2 where k2: "disk_write_block io (Some ()) (word_of_int (int (p div 512))) 1 (Some ?new) ?k = (Inr (), k2)"
    "disk_ok k2" "content k2 = (content k)(p div 512 := ?new)" "capacity k2 = capacity k"
    using write_block [of ?k "word_of_int (int (p div 512))" ?new] sec by (simp only:) blast
  have "content k2 = media_store (content k) (512 * (p div 512) + p mod 512) (take j inp)"
    using media_store_sector [where m = "content k" and r = "p mod 512" and bs = "take j inp" and q = "p div 512"]
      len jn inp k2(3) by (simp add: min_absorb2)
  then have "content k2 = media_store (content k) p (take j inp)" by simp
  moreover have "stream_write_loop io inp (int n) st k =
      stream_write_loop io (drop j inp) (int (n - j)) (st\<lparr>stream_pos := int (p + j)\<rparr>) k2"
  proof -
    have size512: "RORTHOX_SECTOR_SIZE = 512" by (simp add: RORTHOX_SECTOR_SIZE_def)
    have off: "nat (int (p mod 512) + int j) = p mod 512 + j" by simp
    show ?thesis
    proof (cases ?part)
      case True
      then have cond: "(int (p mod 512) \<noteq> 0 \<or> int j \<noteq> int RORTHOX_SECTOR_SIZE) = True" "(int n \<le> 0) = False"
        using n by (auto simp: RORTHOX_SECTOR_SIZE_def)
      note k2' = k2(1) [unfolded if_P [OF True]]
      have "int n - int j = int (n - j)" "int p + int j = int (p + j)" using jn(1) by simp_all
      then show ?thesis
        by (subst stream_write_loop.simps, unfold st position_sector sector_part_nat j [symmetric] Let_def)
          (simp only: cond if_True if_False k1(1) k2' prod.case sum.case nat_int off)
    next
      case False
      then have cond: "(int (p mod 512) \<noteq> 0 \<or> int j \<noteq> int RORTHOX_SECTOR_SIZE) = False" "(int n \<le> 0) = False"
        using n by (auto simp: RORTHOX_SECTOR_SIZE_def)
      note k2' = k2(1) [unfolded if_not_P [OF False], folded whole [OF False]]
      have "int n - int j = int (n - j)" "int p + int j = int (p + j)" using jn(1) by simp_all
      then show ?thesis
        by (subst stream_write_loop.simps, unfold st position_sector sector_part_nat j [symmetric] Let_def)
          (simp only: cond [unfolded size512] if_True if_False k2' prod.case sum.case nat_int size512)
    qed
  qed
  ultimately show ?thesis using k2 by blast
qed

lemma stream_write_loop:
  "disk_ok k \<Longrightarrow> stream_pos st = int p \<Longrightarrow> p + n \<le> 512 * capacity k \<Longrightarrow> n \<le> length inp \<Longrightarrow>
     \<exists>k'. stream_write_loop io inp (int n) st k = (Inr (), st\<lparr>stream_pos := int (p + n)\<rparr>, k') \<and>
       disk_ok k' \<and> content k' = media_store (content k) p (take n inp) \<and> capacity k' = capacity k"
proof (induction n arbitrary: p st k inp rule: less_induct)
  case (less n p st k inp)
  show ?case
  proof (cases "n = 0")
    case True
    have "length (content k s) = 512" for s using sector_length [OF less.prems(1)] by (simp add: RORTHOX_SECTOR_SIZE_def)
    with True less.prems show ?thesis by (cases st) (simp add: stream_write_loop.simps media_store_Nil)
  next
    case False
    define j where "j = step_len p n"
    have j: "j \<le> n" "n - j < n" "p + j + (n - j) = p + n"
      using False step_len(1,2) [of p n] step_len(3) [of n p] by (simp_all add: j_def)
    let ?st = "st\<lparr>stream_pos := int (p + j)\<rparr>"
    obtain k1 where k1: "stream_write_loop io inp (int n) st k = stream_write_loop io (drop j inp) (int (n - j)) ?st k1"
      "disk_ok k1" "content k1 = media_store (content k) p (take j inp)" "capacity k1 = capacity k"
      using stream_write_step [OF less.prems(1,2,3) _ less.prems(4) j_def] False by auto
    obtain k' where k': "stream_write_loop io (drop j inp) (int (n - j)) ?st k1 = (Inr (), ?st\<lparr>stream_pos := int (p + n)\<rparr>, k')"
      "disk_ok k'" "content k' = media_store (content k1) (p + j) (take (n - j) (drop j inp))" "capacity k' = capacity k"
      using less.IH [OF j(2) k1(2), of ?st "p + j" "drop j inp"] less.prems j k1(4) diff_le_mono [OF less.prems(4), of j] by auto
    have "take j inp @ take (n - j) (drop j inp) = take n inp"
      using j(1) take_add [of j "n - j" inp] by simp
    moreover have "length (take j inp) = j" using j(1) less.prems(4) by simp
    ultimately have "content k' = media_store (content k) p (take n inp)"
      using k'(3) k1(3) media_store_append [of "content k" p "take j inp" "take (n - j) (drop j inp)"] by simp
    with k1 k' show ?thesis by auto
  qed
qed

lemma diskstreamer_write:
  assumes "disk_ok k" and "stream_pos st = int p" and "p + n \<le> 512 * capacity k" and "n \<le> length inp"
    and "int (p + n) \<le> INT_MAX"
  shows "\<exists>k'. diskstreamer_write io (Some st) (Some inp) (int n) k =
      (Inr (), Some (st\<lparr>stream_pos := int (p + n)\<rparr>), k') \<and>
      disk_ok k' \<and> content k' = media_store (content k) p (take n inp) \<and> capacity k' = capacity k"
  using stream_write_loop [OF assms(1-4)] assms(2,5) by (auto simp: diskstreamer_write_def)

end

text \<open>
  C24. A stream is a byte-addressed view of the sectors: a write of any length at any position that
  lies on the disk stores exactly these bytes, also where it begins or ends inside a sector, a read
  from there returns them, any other byte of the disk keeps its value, and the stream stands behind
  the bytes it transferred.
\<close>

theorem diskstreamer_write_read:
  assumes "media_disk io ok content capacity" and "ok k" and "stream_pos st = int p"
    and "p + length bs \<le> 512 * capacity k" and "int (p + length bs) \<le> INT_MAX"
  shows "\<exists>st' k' k''. diskstreamer_write io (Some st) (Some bs) (int (length bs)) k = (Inr (), Some st', k') \<and>
    stream_pos st' = int (p + length bs) \<and> ok k' \<and>
    (\<forall>i. i < p \<or> p + length bs \<le> i \<longrightarrow> media_byte (content k') i = media_byte (content k) i) \<and>
    diskstreamer_read io (snd (diskstreamer_seek st' (int p))) (int (length bs)) k' = (Inr (), bs, st', k'') \<and>
    ok k'' \<and> content k'' = content k'"
proof -
  obtain k' where k': "diskstreamer_write io (Some st) (Some bs) (int (length bs)) k =
      (Inr (), Some (st\<lparr>stream_pos := int (p + length bs)\<rparr>), k')" "ok k'"
    "content k' = media_store (content k) p bs" "capacity k' = capacity k"
    using media_disk.diskstreamer_write [OF assms(1-4) _ assms(5), of bs] by auto
  obtain k'' where k'': "diskstreamer_read io (st\<lparr>stream_pos := int p\<rparr>) (int (length bs)) k' =
      (Inr (), media_bytes (content k') p (length bs), st\<lparr>stream_pos := int (p + length bs)\<rparr>, k'')"
    "ok k''" "content k'' = content k'"
    using media_disk.diskstreamer_read [OF assms(1) k'(2), of "st\<lparr>stream_pos := int p\<rparr>" p "length bs"] assms(4,5) k'(4)
    by auto
  have "media_bytes (content k') p (length bs) = bs"
    by (rule nth_equalityI) (simp_all add: media_bytes_nth k'(3) media_store_byte)
  with k' k'' show ?thesis by (auto simp: diskstreamer_seek_def media_store_byte)
qed

theorem diskstreamer_write_read_witness:
  "\<exists>st' k' k''. diskstreamer_write ata_io (Some \<lparr>stream_addr = 0x01000000, stream_pos = 510\<rparr>)
      (Some [1, 2, 3, 4]) 4 (disk_search_and_init blank_drive) = (Inr (), Some st', k') \<and>
    diskstreamer_read ata_io (snd (diskstreamer_seek st' 510)) 4 k' = (Inr (), [1, 2, 3, 4], st', k'')"
  using diskstreamer_write_read [OF ata.media_disk_axioms blank_drive_ok,
      of "\<lparr>stream_addr = 0x01000000, stream_pos = 510\<rparr>" 510 "[1, 2, 3, 4]"]
  by (auto simp: disk_search_and_init_def blank_drive_def INT_MAX_def)

end
