(* ===== verification/Kernel_Alloc.thy ===== *)
theory Kernel_Alloc
  imports Paging
begin

text \<open>
  How kernel code that builds structures out of one-block allocations changes the heap: \<open>grows s s' as\<close>
  says that from \<open>s\<close> to \<open>s'\<close> exactly the addresses \<open>as\<close> were allocated, in new blocks. The clients'
  leak-freedom proofs use only these rules.
\<close>

named_theorems grows_rules \<open>rules for \<open>grows\<close>\<close>

definition grows :: "kmem \<Rightarrow> kmem \<Rightarrow> u32 list \<Rightarrow> bool" where
  "grows s s' as \<longleftrightarrow> kmem_wf s' \<and> klive s' = klive s \<union> (\<lambda>p. (p, 4096)) ` set as
     \<and> set as \<inter> kaddrs s = {} \<and> distinct as \<and> 0 \<notin> set as
     \<and> saddr (kernel_heap s') = saddr (kernel_heap s)
     \<and> total (table (kernel_heap s')) = total (table (kernel_heap s))
     \<and> current_directory s' = current_directory s
     \<and> free_blocks s = free_blocks s' + length as
     \<and> (\<forall>q \<in> kaddrs s. same_page q s s')"

lemma grows_wf: "grows s s' as \<Longrightarrow> kmem_wf s'"
  by (simp add: grows_def)

lemma grows_refl [grows_rules]: "kmem_wf s \<Longrightarrow> grows s s []"
  by (simp add: grows_def same_page_def)

lemma kzalloc_geometry:
  assumes "kmem_wf s" and "kzalloc s n = (p, s')"
  shows "saddr (kernel_heap s') = saddr (kernel_heap s)"
    and "total (table (kernel_heap s')) = total (table (kernel_heap s))"
proof -
  from assms(2) obtain h where "heap_malloc (kernel_heap s) n = (p, h)" "kernel_heap s' = h"
    by (rule kzalloc_malloc)
  with heap_malloc_geometry [of "kernel_heap s"] assms(1)
  show "saddr (kernel_heap s') = saddr (kernel_heap s)"
    and "total (table (kernel_heap s')) = total (table (kernel_heap s))"
    by (simp_all add: kmem_wf_def)
qed

lemma grows_kzalloc [grows_rules]:
  assumes g: "grows s s1 as" and k: "kzalloc s1 n = (p, s2)" "p \<noteq> 0" and n: "heap_blocks n = 1" "heap_accepts n"
  shows "grows s s2 (as @ [p])"
proof -
  have wf: "kmem_wf s1" using g by (simp add: grows_def)
  note z = kzalloc_page [OF wf k n(1)] and c = kzalloc_page_count(2) [OF wf k(1) n k(2)]
  have "p \<notin> set as" "p \<notin> kaddrs s" using z(3) g by (auto simp: grows_def image_Un image_image)
  moreover have "same_page q s s2" if "q \<in> kaddrs s" for q
    using that g z(5) [of q] by (auto simp: grows_def intro: same_page_trans)
  ultimately show ?thesis
    using g z c k(2) kzalloc_geometry [OF wf k(1)] unfolding grows_def by auto
qed

lemma grows_kzalloc_null:
  assumes "grows s s1 as" and "kzalloc s1 n = (0, s2)"
  shows "s2 = s1"
  using kpool.malloc_fail assms by (auto simp: grows_def)

lemma grows_kzalloc_iff:
  assumes "grows s s1 as" and "kzalloc s1 n = (p, s2)" and "heap_blocks n = 1" and "heap_accepts n"
  shows "p \<noteq> 0 \<longleftrightarrow> length as < free_blocks s"
  using kzalloc_page_count(1) [OF grows_wf [OF assms(1)] assms(2-4)] assms(1) by (auto simp: grows_def)

lemma grows_kfree_last:
  assumes g: "grows s s1 (as @ [p])"
  shows "kmem_wf (kfree s1 p)" and "klive (kfree s1 p) = klive s \<union> (\<lambda>p. (p, 4096)) ` set as"
proof -
  have wf: "kmem_wf s1" using g by (simp add: grows_def)
  show "kmem_wf (kfree s1 p)" by (rule kpool.free_inv [OF wf])
  show "klive (kfree s1 p) = klive s \<union> (\<lambda>p. (p, 4096)) ` set as"
    using g by (force simp: kpool.free_live [OF wf] grows_def)
qed

text \<open>Releasing everything that was allocated restores the set of live allocations.\<close>

lemma grows_free_all:
  assumes g: "grows s s1 as" and ps: "set ps = set as"
  shows "kmem_wf (fold (\<lambda>p s. kfree s p) ps s1)" and "klive (fold (\<lambda>p s. kfree s p) ps s1) = klive s"
proof -
  have wf: "kmem_wf s1" using g by (simp add: grows_def)
  note f = kpool.free_list [OF wf, of ps]
  show "kmem_wf (fold (\<lambda>p s. kfree s p) ps s1)" using f by simp
  show "klive (fold (\<lambda>p s. kfree s p) ps s1) = klive s" using f g ps by (force simp: grows_def)
qed

text \<open>
  The pool lies in the lower half of the address space, so that a heap pointer read as a signed number
  is not an error code. \<^verbatim>\<open>kheap_init\<close> puts it between 16 and 116 MiB.
\<close>

definition low_pool :: "kmem \<Rightarrow> bool" where
  "low_pool s \<longleftrightarrow> unat (saddr (kernel_heap s)) + 4096 * unat (total (table (kernel_heap s))) \<le> 2147483648"

lemma low_pool_grows: "grows s s' as \<Longrightarrow> low_pool s' = low_pool s"
  by (simp add: grows_def low_pool_def)

lemma low_pool_not_error:
  assumes "kmem_wf s" and "low_pool s" and "p \<in> kaddrs s"
  shows "\<not> ISERR p"
proof -
  from assms(3) obtain k where "(p, k) \<in> klive s" by auto
  with heap_live_region(2,5) [of "kernel_heap s" p k] assms
  have "unat p < 2147483648" by (simp add: kmem_wf_def klive_def low_pool_def)
  then show ?thesis using sint_u32_small [of p] by (simp add: ISERR_def)
qed

lemma grows_not_error:
  "grows s s' as \<Longrightarrow> low_pool s \<Longrightarrow> p \<in> set as \<Longrightarrow> \<not> ISERR p \<and> p \<noteq> 0"
  using low_pool_not_error [of s' p] low_pool_grows [of s s' as] by (auto simp: grows_def image_Un image_image)

end
