(* ===== verification/CString.thy ===== *)
theory CString
  imports Kernel_Prelude "HOL-Library.Sublist"
begin

text \<open>
  The string routines of \<^verbatim>\<open>kernel/string/string.c\<close>. A \<^verbatim>\<open>const char *\<close> is the list of the bytes
  from the pointer on; the end of the list stands for the terminating NUL. A buffer that is written
  is a list that may extend past the part the routine is allowed to use, so that "nothing else is
  written" can be stated. Pointers into a string are returned as offsets.
\<close>

type_synonym cstring = "u8 list"

definition cstr :: "cstring \<Rightarrow> u8 list" where
  "cstr s = takeWhile (\<lambda>c. c \<noteq> 0) s"

text \<open>\<^verbatim>\<open>*p\<close>, and \<^verbatim>\<open>p[i]\<close>.\<close>

definition char_at :: "cstring \<Rightarrow> nat \<Rightarrow> u8" where
  "char_at s i = (if i < length s then s ! i else 0)"

section \<open>Characters and lengths\<close>

text \<open>\<^verbatim>\<open>char\<close> is signed, so bytes from 128 on are negative and never between 65 and 90.\<close>

definition tolower :: "u8 \<Rightarrow> u8" where
  "tolower s1 = (if 65 \<le> sint s1 \<and> sint s1 \<le> 90 then s1 + 32 else s1)"

fun strlen :: "cstring \<Rightarrow> nat" where
  "strlen [] = 0"
| "strlen (c # ptr) = (if c \<noteq> 0 then Suc (strlen ptr) else 0)"

function strnlen_loop :: "cstring \<Rightarrow> nat \<Rightarrow> nat \<Rightarrow> nat" where
  "strnlen_loop ptr i max_len = (if i < max_len \<and> char_at ptr i \<noteq> 0 then strnlen_loop ptr (Suc i) max_len else i)"
  by pat_completeness auto
termination by (relation "measure (\<lambda>(ptr, i, max_len). max_len - i)") auto

definition strnlen :: "cstring \<Rightarrow> nat \<Rightarrow> nat" where
  "strnlen ptr max_len = strnlen_loop ptr 0 max_len"

function strnlen_terminator_loop :: "cstring \<Rightarrow> nat \<Rightarrow> nat \<Rightarrow> u8 \<Rightarrow> nat" where
  "strnlen_terminator_loop str i max_len terminator =
     (if i < max_len \<and> \<not> (char_at str i = 0 \<or> char_at str i = terminator)
      then strnlen_terminator_loop str (Suc i) max_len terminator else i)"
  by pat_completeness auto
termination by (relation "measure (\<lambda>(str, i, max_len, terminator). max_len - i)") auto

definition strnlen_terminator :: "cstring \<Rightarrow> nat \<Rightarrow> u8 \<Rightarrow> nat" where
  "strnlen_terminator str max_len terminator = strnlen_terminator_loop str 0 max_len terminator"

declare strnlen_loop.simps [simp del] strnlen_terminator_loop.simps [simp del]

section \<open>Comparison and search\<close>

fun istrncmp :: "cstring \<Rightarrow> cstring \<Rightarrow> nat \<Rightarrow> int" where
  "istrncmp s1 s2 0 = 0"
| "istrncmp s1 s2 (Suc n) =
     (let u1 = char_at s1 0; u2 = char_at s2 0
      in if u1 \<noteq> u2 \<and> tolower u1 \<noteq> tolower u2 then uint u1 - uint u2
         else if u1 = 0 then 0
         else istrncmp (drop 1 s1) (drop 1 s2) n)"

fun strncmp :: "cstring \<Rightarrow> cstring \<Rightarrow> nat \<Rightarrow> int" where
  "strncmp str1 str2 0 = 0"
| "strncmp str1 str2 (Suc n) =
     (let u1 = char_at str1 0; u2 = char_at str2 0
      in if u1 \<noteq> u2 then uint u1 - uint u2
         else if u1 = 0 then 0
         else strncmp (drop 1 str1) (drop 1 str2) n)"

fun strstr_from :: "nat \<Rightarrow> cstring \<Rightarrow> cstring \<Rightarrow> nat option" where
  "strstr_from k [] needle = None"
| "strstr_from k (c # haystack) needle =
     (if c = 0 then None
      else if strncmp (c # haystack) needle (strlen needle) = 0 then Some k
      else strstr_from (Suc k) haystack needle)"

definition strstr :: "cstring \<Rightarrow> cstring \<Rightarrow> nat option" where
  "strstr haystack needle = strstr_from 0 haystack needle"

fun strchr_from :: "nat \<Rightarrow> cstring \<Rightarrow> u8 \<Rightarrow> nat option" where
  "strchr_from k [] c = None"
| "strchr_from k (d # str) c =
     (if d = 0 then None else if d = c then Some k else strchr_from (Suc k) str c)"

definition strchr :: "cstring \<Rightarrow> int \<Rightarrow> nat option" where
  "strchr str c = strchr_from 0 str (word_of_int c)"

section \<open>Copying\<close>

text \<open>The destination from offset \<open>k\<close> on is overwritten by the source up to its NUL, then a NUL.\<close>

fun strcpy_at :: "u8 list \<Rightarrow> nat \<Rightarrow> cstring \<Rightarrow> u8 list" where
  "strcpy_at dest k [] = dest[k := 0]"
| "strcpy_at dest k (c # src) = (if c \<noteq> 0 then strcpy_at (dest[k := c]) (Suc k) src else dest[k := 0])"

definition strcpy :: "u8 list \<Rightarrow> cstring \<Rightarrow> u8 list" where
  "strcpy dest src = strcpy_at dest 0 src"

definition strcat :: "u8 list \<Rightarrow> cstring \<Rightarrow> u8 list" where
  "strcat dest src = strcpy_at dest (strlen dest) src"

function strncpy_loop :: "u8 list \<Rightarrow> cstring \<Rightarrow> nat \<Rightarrow> int \<Rightarrow> u8 list" where
  "strncpy_loop dest src i count =
     (if int i < count - 1 \<and> char_at src i \<noteq> 0
      then strncpy_loop (dest[i := char_at src i]) src (Suc i) count
      else dest[i := 0])"
  by pat_completeness auto
termination by (relation "measure (\<lambda>(dest, src, i, count). nat (count - int i))") auto

declare strncpy_loop.simps [simp del]

definition strncpy :: "u8 list \<Rightarrow> cstring \<Rightarrow> int \<Rightarrow> u8 list" where
  "strncpy dest src count = strncpy_loop dest src 0 count"

section \<open>Numbers\<close>

definition isdigit :: "u8 \<Rightarrow> bool" where
  "isdigit c \<longleftrightarrow> 48 \<le> sint c \<and> sint c \<le> 57"

definition tonumericdigit :: "u8 \<Rightarrow> int" where
  "tonumericdigit c = sint c - 48"

text \<open>
  C division and remainder truncate towards zero: \<open>i \<le> 0\<close> in the loop of \<^verbatim>\<open>itoa\<close>, so \<^verbatim>\<open>i % 10\<close> is
  \<open>- ((- i) mod 10)\<close> and \<^verbatim>\<open>i /= 10\<close> gives \<open>- ((- i) div 10)\<close>. A write at \<^verbatim>\<open>text[--loc]\<close> with \<open>loc = 0\<close>
  would leave the array; the model returns None there.
\<close>

definition put_before :: "u8 list \<times> nat \<Rightarrow> u8 \<Rightarrow> (u8 list \<times> nat) option" where
  "put_before st c = (case st of (text, loc) \<Rightarrow>
     if loc = 0 then None else Some (text[loc - 1 := c], loc - 1))"

function itoa_digits :: "u8 list \<times> nat \<Rightarrow> int \<Rightarrow> (u8 list \<times> nat) option" where
  "itoa_digits st i =
     (if i < 0
      then Option.bind (put_before st (48 - word_of_int (- ((- i) mod 10))))
             (\<lambda>st'. itoa_digits st' (- ((- i) div 10)))
      else Some st)"
  by pat_completeness auto
termination by (relation "measure (\<lambda>(st, i). nat (- i))") auto

declare itoa_digits.simps [simp del]

definition itoa :: "u8 list \<Rightarrow> int \<Rightarrow> cstring option" where
  "itoa text i =
     Option.bind (itoa_digits (text[11 := 0], 11) (if i \<ge> 0 then - i else i)) (\<lambda>(text, loc).
     Option.bind (if loc = 11 then put_before (text, loc) 48 else Some (text, loc)) (\<lambda>(text, loc).
     Option.bind (if i \<ge> 0 then Some (text, loc) else put_before (text, loc) 45) (\<lambda>(text, loc).
     Some (drop loc text))))"

fun atoi_from :: "int \<Rightarrow> cstring \<Rightarrow> int" where
  "atoi_from res [] = res"
| "atoi_from res (c # str) = (if c \<noteq> 0 then atoi_from (res * 10 + sint c - 48) str else res)"

definition atoi :: "cstring \<Rightarrow> int" where
  "atoi str = atoi_from 0 str"

text \<open>
  \<^verbatim>\<open>itoa_hex\<close> writes the digits least significant first and then reverses them in place; \<open>p\<close>, \<open>p1\<close>
  and \<open>p2\<close> are offsets into the buffer.
\<close>

definition hex_digit :: "nat \<Rightarrow> u8" where
  "hex_digit remainder = (if remainder < 10 then of_nat remainder + 48 else of_nat remainder + 65 - 10)"

function itoa_hex_digits :: "u8 list \<Rightarrow> nat \<Rightarrow> nat \<Rightarrow> nat \<Rightarrow> u8 list \<times> nat" where
  "itoa_hex_digits str p tmp_value base =
     (let str' = str[p := hex_digit (tmp_value mod base)]; tmp_value' = tmp_value div base
      in if tmp_value' \<noteq> 0 \<and> 2 \<le> base then itoa_hex_digits str' (Suc p) tmp_value' base
         else (str', Suc p))"
  by pat_completeness auto
termination
  by (relation "measure (\<lambda>(str, p, tmp_value, base). tmp_value)") (auto simp: div_eq_0_iff intro: div_less_dividend)

declare itoa_hex_digits.simps [simp del]

function swap_loop :: "u8 list \<Rightarrow> nat \<Rightarrow> nat \<Rightarrow> u8 list" where
  "swap_loop str p1 p2 =
     (if p1 < p2 then swap_loop (str[p1 := str ! p2, p2 := str ! p1]) (Suc p1) (p2 - 1) else str)"
  by pat_completeness auto
termination by (relation "measure (\<lambda>(str, p1, p2). p2 - p1)") auto

declare swap_loop.simps [simp del]

definition itoa_hex :: "int \<Rightarrow> u8 list \<Rightarrow> int \<Rightarrow> u8 list" where
  "itoa_hex val str base =
     (if base < 2 \<or> 36 < base then str[0 := 0]
      else let tmp_value = (word_of_int val :: u32);
               (str, p1, tmp_value) =
                 (if val < 0 then (str[0 := 45], 1, 0 - tmp_value) else (str, 0, tmp_value));
               (str, p) = itoa_hex_digits str p1 (unat tmp_value) (nat base);
               str = str[p := 0]
           in swap_loop str p1 (p - 1))"

section \<open>Formatted output\<close>

text \<open>
  The variable arguments as the list of values passed. Reading an argument that is missing or of the
  other kind is undefined in C: the model returns None. \<open>count\<close> is the number of characters
  produced, also those that did not fit.
\<close>

datatype vararg = ArgInt u32 | ArgStr "cstring option"

type_synonym fstate = "u8 list \<times> nat"

definition format_putc :: "u32 \<Rightarrow> u8 \<Rightarrow> fstate \<Rightarrow> bool \<times> fstate" where
  "format_putc sz c st = (case st of (str, count) \<Rightarrow>
     if int count = INT_MAX then (False, st)
     else (True, (if sz \<noteq> 0 \<and> count < unat (sz - 1) then str[count := c] else str), Suc count))"

text \<open>The loops that emit several characters and stop at the first failure.\<close>

fun format_puts :: "u32 \<Rightarrow> u8 list \<Rightarrow> fstate \<Rightarrow> bool \<times> fstate" where
  "format_puts sz [] st = (True, st)"
| "format_puts sz (c # cs) st =
     (case format_putc sz c st of
        (False, st') \<Rightarrow> (False, st')
      | (True, st') \<Rightarrow> format_puts sz cs st')"

definition format_digits :: "bool \<Rightarrow> u8 list" where
  "format_digits upper = map (\<lambda>k. if k < 10 then of_nat (48 + k)
     else if upper then of_nat (65 + k - 10) else of_nat (97 + k - 10)) [0..<16]"

function format_number :: "u8 list \<Rightarrow> nat \<Rightarrow> nat \<Rightarrow> bool \<Rightarrow> u8 list" where
  "format_number number val base upper =
     (let number' = number @ [format_digits upper ! (val mod base)]; val' = val div base
      in if val' \<noteq> 0 \<and> 2 \<le> base then format_number number' val' base upper else number')"
  by pat_completeness auto
termination
  by (relation "measure (\<lambda>(number, val, base, upper). val)") (auto simp: div_eq_0_iff intro: div_less_dividend)

declare format_number.simps [simp del]

definition format_int :: "u32 \<Rightarrow> u8 \<Rightarrow> nat \<Rightarrow> u32 \<Rightarrow> fstate \<Rightarrow> bool \<times> fstate" where
  "format_int sz conv width arg st =
     (let is_signed = (conv = 100 \<or> conv = 105);
          negative = (is_signed \<and> sint arg < 0);
          val = (if negative then 0 - arg else arg);
          base = (if conv = 120 \<or> conv = 88 then 16 else 10);
          number = format_number [] (unat val) base (conv = 88);
          pad = width - (length number + (if negative then 1 else 0))
      in format_puts sz ((if negative then [45] else []) @ replicate pad 48 @ rev number) st)"

definition null_string :: cstring where
  "null_string = [40, 110, 117, 108, 108, 41]"

definition format_conv ::
  "u32 \<Rightarrow> u8 \<Rightarrow> nat \<Rightarrow> vararg list \<Rightarrow> fstate \<Rightarrow> ((bool \<times> fstate) \<times> vararg list) option" where
  "format_conv sz conv width args st =
     (if conv = 37 then Some (format_putc sz 37 st, args)
      else if conv = 99 then
        (case args of ArgInt v # args' \<Rightarrow> Some (format_putc sz (ucast v) st, args') | _ \<Rightarrow> None)
      else if conv = 115 then
        (case args of ArgStr s # args' \<Rightarrow>
           Some (format_puts sz (case s of None \<Rightarrow> null_string | Some s \<Rightarrow> cstr s) st, args') | _ \<Rightarrow> None)
      else if conv = 100 \<or> conv = 105 \<or> conv = 117 \<or> conv = 120 \<or> conv = 88 then
        (case args of ArgInt v # args' \<Rightarrow> Some (format_int sz conv width v st, args') | _ \<Rightarrow> None)
      else Some ((False, st), args))"

function format_loop :: "u32 \<Rightarrow> cstring \<Rightarrow> vararg list \<Rightarrow> fstate \<Rightarrow> (bool \<times> fstate) option" where
  "format_loop sz [] args st = Some (True, st)"
| "format_loop sz (c # p) args st =
     (if c = 0 then Some (True, st)
      else if c \<noteq> 37 then
        (case format_putc sz c st of
           (False, st') \<Rightarrow> Some (False, st')
         | (True, st') \<Rightarrow> format_loop sz p args st')
      else if char_at p 0 = 0 then Some (format_putc sz 37 st)
      else if char_at p 0 = 48 \<and> (char_at p 1 \<noteq> 50 \<or> char_at p 2 \<noteq> 100) then Some (False, st)
      else let (width, q) = (if char_at p 0 = 48 then (2, drop 2 p) else (0, p))
           in case format_conv sz (char_at q 0) width args st of
                None \<Rightarrow> None
              | Some ((False, st'), args') \<Rightarrow> Some (False, st')
              | Some ((True, st'), args') \<Rightarrow> format_loop sz (drop 1 q) args' st')"
  by pat_completeness auto
termination
  by (relation "measure (\<lambda>(sz, p, args, st). length p)") (auto split: if_splits)

text \<open>A NULL buffer is None; it is only allowed with size 0.\<close>

definition vsnprintf :: "u8 list option \<Rightarrow> u32 \<Rightarrow> cstring option \<Rightarrow> vararg list \<Rightarrow> (int \<times> u8 list) option" where
  "vsnprintf buf sz format args =
     (let str = (case buf of None \<Rightarrow> [] | Some b \<Rightarrow> b)
      in if sz \<noteq> 0 \<and> buf = None then Some (-1, str)
         else map_option
           (\<lambda>(ok, str, count).
              (if ok then int count else -1,
               if sz \<noteq> 0 then str[(if count < unat sz then count else unat (sz - 1)) := 0] else str))
           (case format of
              None \<Rightarrow> Some (False, str, 0)
            | Some f \<Rightarrow> format_loop sz f args (str, 0)))"

definition snprintf :: "u8 list option \<Rightarrow> u32 \<Rightarrow> cstring option \<Rightarrow> vararg list \<Rightarrow> (int \<times> u8 list) option" where
  "snprintf str sz format args = vsnprintf str sz format args"

definition vsprintf :: "u8 list option \<Rightarrow> cstring option \<Rightarrow> vararg list \<Rightarrow> (int \<times> u8 list) option" where
  "vsprintf str format args = vsnprintf str (word_of_int INT_MAX) format args"

definition sprintf :: "u8 list option \<Rightarrow> cstring option \<Rightarrow> vararg list \<Rightarrow> (int \<times> u8 list) option" where
  "sprintf str format args = vsprintf str format args"

section \<open>Lengths and comparison\<close>

lemma cstr_simps [simp]: "cstr [] = []" "cstr (c # s) = (if c = 0 then [] else c # cstr s)"
  by (simp_all add: cstr_def)

lemma char_at_simps [simp]: "char_at [] i = 0" "char_at (c # s) 0 = c" "char_at (c # s) (Suc i) = char_at s i"
  by (simp_all add: char_at_def)

lemma zero_notin_cstr: "0 \<notin> set (cstr s)"
  by (auto simp: cstr_def dest: set_takeWhileD)

lemma strlen_eq: "strlen s = length (cstr s)"
  by (induction s) auto

lemma char_at_cstr: "i < length (cstr s) \<Longrightarrow> char_at s i = cstr s ! i"
proof (induction s arbitrary: i)
  case (Cons c s)
  then show ?case by (cases i) (auto split: if_splits)
qed simp

lemma cstr_nth: "i < length (cstr s) \<Longrightarrow> cstr s ! i \<noteq> 0"
  using zero_notin_cstr nth_mem by metis

lemma char_at_end: "char_at s (length (cstr s)) = 0"
  by (induction s) auto

lemma strnlen_loop_eq:
  "i \<le> length (cstr s) \<Longrightarrow> i \<le> n \<Longrightarrow> strnlen_loop s i n = min n (length (cstr s))"
proof (induction s i n rule: strnlen_loop.induct)
  case (1 s i n)
  show ?case
  proof (cases "i < n \<and> i < length (cstr s)")
    case True
    then show ?thesis using 1(1) char_at_cstr [of i s] cstr_nth [of i s] by (subst strnlen_loop.simps) simp
  next
    case False
    then show ?thesis using 1(2,3) char_at_end [of s] by (subst strnlen_loop.simps) (auto simp: min_def)
  qed
qed

lemma strnlen_eq: "strnlen s n = min n (length (cstr s))"
  by (simp add: strnlen_def strnlen_loop_eq)

lemma strncmp_eq: "strncmp s t n = 0 \<longleftrightarrow> take n (cstr s) = take n (cstr t)"
proof (induction n arbitrary: s t)
  case (Suc n)
  show ?case by (cases s; cases t) (auto simp: Let_def Suc word_uint_eq_iff [symmetric] uint_0_iff)
qed simp

lemma tolower_zero: "tolower c = 0 \<longleftrightarrow> c = 0"
proof
  assume *: "tolower c = 0"
  show "c = 0"
  proof (cases "65 \<le> sint c \<and> sint c \<le> 90")
    case True
    with * have "c = - 32" by (simp add: tolower_def eq_neg_iff_add_eq_0)
    moreover have "sint (- 32 :: u8) = - 32" by code_simp
    ultimately show ?thesis using True by simp
  qed (use * in \<open>auto simp: tolower_def split: if_splits\<close>)
qed (simp add: tolower_def)

lemma istrncmp_eq:
  "istrncmp s t n = 0 \<longleftrightarrow> take n (map tolower (cstr s)) = take n (map tolower (cstr t))"
proof (induction n arbitrary: s t)
  case (Suc n)
  have z: "tolower 0 = 0" by (simp add: tolower_zero)
  show ?case
    by (cases s; cases t) (auto simp: Let_def Suc tolower_zero z word_uint_eq_iff [symmetric] uint_0_iff)
qed simp

section \<open>Bounded copy\<close>

lemma strncpy_loop_eq:
  assumes "i \<le> length (cstr s)" and "int i \<le> n - 1" and "nat n \<le> length d"
  shows "strncpy_loop d s i n =
    (let k = min (nat (n - 1)) (length (cstr s))
     in take i d @ drop i (take k (cstr s)) @ [0] @ drop (Suc k) d)"
  using assms
proof (induction d s i n rule: strncpy_loop.induct)
  case (1 d s i n)
  let ?k = "min (nat (n - 1)) (length (cstr s))"
  show ?case
  proof (cases "int i < n - 1 \<and> i < length (cstr s)")
    case True
    then have c: "char_at s i = cstr s ! i" "char_at s i \<noteq> 0" using char_at_cstr [of i s] cstr_nth [of i s] by simp_all
    have i: "i < length d" "i < ?k" using True 1(4) by auto
    have dr: "drop (Suc ?k) (d[i := x]) = drop (Suc ?k) d" for x
      by (intro drop_update_cancel less_SucI i(2))
    have "strncpy_loop d s i n = take (Suc i) (d[i := cstr s ! i]) @ drop (Suc i) (take ?k (cstr s)) @ [0] @ drop (Suc ?k) (d[i := cstr s ! i])"
      using 1 True c by (subst strncpy_loop.simps) (simp add: Let_def dr)
    also have "\<dots> = take i d @ (cstr s ! i # drop (Suc i) (take ?k (cstr s))) @ [0] @ drop (Suc ?k) d"
      using i(1) by (simp add: take_Suc_conv_app_nth dr)
    also have "cstr s ! i # drop (Suc i) (take ?k (cstr s)) = drop i (take ?k (cstr s))"
      using i by (subst Cons_nth_drop_Suc [symmetric]) simp_all
    finally show ?thesis by (simp add: Let_def)
  next
    case False
    then have k: "?k = i" using 1(2,3) by auto
    have "\<not> (int i < n - 1 \<and> char_at s i \<noteq> 0)" using False 1(2) char_at_end [of s] by auto
    then have "strncpy_loop d s i n = d[i := 0]" by (subst strncpy_loop.simps) auto
    also have "\<dots> = take i d @ 0 # drop (Suc i) d" using 1(3,4) by (intro upd_conv_take_nth_drop) simp
    finally show ?thesis by (simp add: k Let_def)
  qed
qed

lemma strncpy_eq:
  assumes "0 < n" and "nat n \<le> length d"
  shows "strncpy d s n = take (nat (n - 1)) (cstr s) @ [0] @ drop (Suc (min (nat (n - 1)) (length (cstr s)))) d"
  using strncpy_loop_eq [of 0 s n d] assms by (simp add: strncpy_def Let_def min_def)

section \<open>Digits\<close>

text \<open>The digits of a number, most significant first; 0 has one digit.\<close>

function digits :: "nat \<Rightarrow> nat \<Rightarrow> nat list" where
  "digits base n = (if n < base \<or> base < 2 then [n] else digits base (n div base) @ [n mod base])"
  by pat_completeness auto
termination by (relation "measure (\<lambda>(base, n). n)") (auto intro: div_less_dividend)

declare digits.simps [simp del]

fun digits_value :: "nat \<Rightarrow> nat list \<Rightarrow> nat" where
  "digits_value base ds = foldl (\<lambda>v d. v * base + d) 0 ds"

lemma digits_value_digits: "digits_value base (digits base n) = n"
proof (induction base n rule: digits.induct)
  case (1 base n)
  show ?case
  proof (cases "n < base \<or> base < 2")
    case False
    then have "foldl (\<lambda>v d. v * base + d) 0 (digits base n) = n div base * base + n mod base"
      using 1 by (subst digits.simps) simp
    then show ?thesis by simp
  qed (simp add: digits.simps)
qed

lemma digits_less: "2 \<le> base \<Longrightarrow> d \<in> set (digits base n) \<Longrightarrow> d < base"
proof (induction base n rule: digits.induct)
  case (1 base n)
  then show ?case by (subst (asm) (2) digits.simps) (auto split: if_splits)
qed

lemma digits_length:
  assumes "2 \<le> base" and "n < base ^ k" and "0 < k"
  shows "length (digits base n) \<le> k"
  using assms
proof (induction k arbitrary: n)
  case (Suc k)
  show ?case
  proof (cases "n < base")
    case True
    then show ?thesis by (simp add: digits.simps)
  next
    case False
    then have "k \<noteq> 0" using Suc.prems by (cases k) auto
    moreover have "n div base < base ^ k" using Suc.prems by (simp add: less_mult_imp_div_less mult.commute)
    ultimately have "length (digits base (n div base)) \<le> k" using Suc by simp
    then show ?thesis using False Suc.prems(1) by (subst digits.simps) simp
  qed
qed simp

lemma format_number_eq:
  assumes "2 \<le> base"
  shows "format_number acc n base upper = acc @ rev (map (\<lambda>d. format_digits upper ! d) (digits base n))"
  using assms
proof (induction acc n base upper rule: format_number.induct)
  case (1 acc n base upper)
  show ?case
  proof (cases "n < base")
    case True
    then show ?thesis by (subst format_number.simps) (simp add: digits.simps Let_def)
  next
    case False
    then have "n div base \<noteq> 0" using 1(2) by (simp add: div_eq_0_iff)
    moreover have "digits base n = digits base (n div base) @ [n mod base]"
      using False 1(2) by (subst digits.simps) simp
    ultimately show ?thesis using 1 by (subst format_number.simps) (simp add: Let_def)
  qed
qed

section \<open>itoa and atoi\<close>

definition decimal :: "nat \<Rightarrow> u8 list" where
  "decimal n = map (\<lambda>d. of_nat (48 + d)) (digits 10 n)"

lemma decimal_simps: "decimal n = (if n < 10 then [of_nat (48 + n)] else decimal (n div 10) @ [of_nat (48 + n mod 10)])"
  by (simp add: decimal_def digits.simps)

lemma length_decimal: "n < 10 ^ k \<Longrightarrow> 0 < k \<Longrightarrow> length (decimal n) \<le> k"
  using digits_length [of 10 n k] by (simp add: decimal_def)

lemma digit_byte: "(48 :: u8) - word_of_int (- (int n mod 10)) = of_nat (48 + n mod 10)"
proof -
  have "int n mod 10 = int (n mod 10)" by (simp add: zmod_int)
  then show ?thesis by simp
qed

lemma put_before_snoc: "put_before (pre @ l # post, Suc (length pre)) c = Some (pre @ c # post, length pre)"
  by (simp add: put_before_def)

lemma itoa_digits_eq:
  assumes "0 < n" and "length (decimal n) \<le> length pre"
  shows "itoa_digits (pre @ post, length pre) (- int n) =
    Some (take (length pre - length (decimal n)) pre @ decimal n @ post, length pre - length (decimal n))"
  using assms
proof (induction n arbitrary: pre post rule: less_induct)
  case (less n)
  have "decimal n \<noteq> []" by (simp add: decimal_simps [of n])
  then obtain ini l where pre: "pre = ini @ [l]" using less.prems(2) by (cases pre rule: rev_cases) auto
  have step: "itoa_digits (pre @ post, length pre) (- int n)
      = itoa_digits (ini @ of_nat (48 + n mod 10) # post, length ini) (- int (n div 10))"
    using less.prems(1) digit_byte [of n]
    by (subst itoa_digits.simps) (simp add: pre put_before_snoc zdiv_int)
  show ?case
  proof (cases "n < 10")
    case True
    then show ?thesis unfolding step by (simp add: decimal_simps [of n] pre itoa_digits.simps)
  next
    case False
    then have "itoa_digits (ini @ of_nat (48 + n mod 10) # post, length ini) (- int (n div 10)) =
        Some (take (length ini - length (decimal (n div 10))) ini @ decimal (n div 10) @ of_nat (48 + n mod 10) # post,
          length ini - length (decimal (n div 10)))"
      using less.prems(2) by (intro less.IH) (simp_all add: decimal_simps [of n] pre)
    with False show ?thesis unfolding step by (simp add: decimal_simps [of n] pre)
  qed
qed

definition int_text :: "int \<Rightarrow> u8 list" where
  "int_text i = (if i < 0 then [45] else []) @ decimal (nat \<bar>i\<bar>)"

lemma itoa_eq:
  assumes "length text = 12" and "- 2147483648 \<le> i" and "i \<le> 2147483647"
  shows "itoa text i = Some (int_text i @ [0])"
proof (cases "i = 0")
  case True
  have "text[11 := 0, 10 := 48] = take 10 text @ [48, 0]"
    using assms(1) by (auto intro!: nth_equalityI simp: nth_append nth_list_update nth_Cons' less_Suc_eq)
  then show ?thesis
    using assms(1) True
    by (simp add: itoa_def itoa_digits.simps put_before_def int_text_def decimal_simps [of 0])
next
  case False
  let ?n = "nat \<bar>i\<bar>"
  have len: "length (decimal ?n) \<le> 10" using assms by (intro length_decimal) simp_all
  have ne: "0 < length (decimal ?n)" by (simp add: decimal_simps [of ?n])
  have tx: "text[11 := 0] = take 11 text @ [0]"
    using upd_conv_take_nth_drop [of 11 "text" 0] assms(1) by simp
  have "(if i \<ge> 0 then - i else i) = - int ?n" by simp
  then have d: "itoa_digits (text[11 := 0], 11) (if i \<ge> 0 then - i else i)
      = Some (take (11 - length (decimal ?n)) text @ decimal ?n @ [0], 11 - length (decimal ?n))"
    using itoa_digits_eq [of ?n "take 11 text" "[0]"] assms(1) False len by (simp add: tx min_def)
  define k where "k = 10 - length (decimal ?n)"
  have k: "11 - length (decimal ?n) = Suc k" "Suc k < 11" using len ne by (simp_all add: k_def)
  have t: "take (Suc k) text = take k text @ [text ! k]" "length (take k text) = k"
    using k(2) assms(1) by (simp_all add: take_Suc_conv_app_nth)
  show ?thesis
    using k(2) put_before_snoc [of "take k text" "text ! k" "decimal ?n @ [0]" 45] t
    unfolding itoa_def d k(1) by (cases "0 \<le> i") (simp_all add: int_text_def)
qed

lemma atoi_from_decimal:
  assumes "\<And>d. d \<in> set ds \<Longrightarrow> d < 10"
  shows "atoi_from v (map (\<lambda>d. of_nat (48 + d)) ds @ 0 # rest) = foldl (\<lambda>v d. v * 10 + int d) v ds"
  using assms
proof (induction ds arbitrary: v)
  case (Cons d ds)
  have "d < 10" using Cons.prems by simp
  then have "d \<in> {0, 1, 2, 3, 4, 5, 6, 7, 8, 9}" by auto
  then have "sint (of_nat (48 + d) :: u8) = 48 + int d \<and> (of_nat (48 + d) :: u8) \<noteq> 0" by auto
  then show ?case using Cons by simp
qed simp

lemma foldl_int: "foldl (\<lambda>v d. v * 10 + int d) (int v) ds = int (foldl (\<lambda>v d. v * 10 + d) v ds)"
proof (induction ds arbitrary: v)
  case (Cons d ds)
  from Cons [of "v * 10 + d"] show ?case by simp
qed simp

lemma atoi_decimal: "atoi (decimal n @ 0 # rest) = int n"
  using atoi_from_decimal [of "digits 10 n" 0 rest] foldl_int [of 0 "digits 10 n"]
    digits_value_digits [of 10 n] digits_less [of 10 _ n]
  by (simp add: atoi_def decimal_def)

section \<open>What formatted output means\<close>

text \<open>
  The characters a format and its arguments stand for, independent of any buffer; the flag is False
  when the format is malformed, and the text is then what comes before the malformed conversion.
\<close>

definition conv_text :: "u8 \<Rightarrow> nat \<Rightarrow> vararg list \<Rightarrow> ((bool \<times> u8 list) \<times> vararg list) option" where
  "conv_text conv width args =
     (if conv = 37 then Some ((True, [37]), args)
      else if conv \<in> {99, 115, 100, 105, 117, 120, 88} then
        (case args of
           ArgInt v # args' \<Rightarrow>
             if conv = 99 then Some ((True, [ucast v]), args')
             else if conv = 115 then None
             else let i = (if conv = 100 \<or> conv = 105 then sint v else uint v);
                      ds = digits (if conv = 120 \<or> conv = 88 then 16 else 10) (nat \<bar>i\<bar>);
                      sign = (if i < 0 then [45] else [])
                  in Some ((True, sign @ replicate (width - (length ds + length sign)) 48
                        @ map (\<lambda>d. format_digits (conv = 88) ! d) ds), args')
         | ArgStr s # args' \<Rightarrow>
             if conv = 115 then Some ((True, case s of None \<Rightarrow> null_string | Some s \<Rightarrow> cstr s), args') else None
         | [] \<Rightarrow> None)
      else Some ((False, []), args))"

function format_text :: "cstring \<Rightarrow> vararg list \<Rightarrow> (bool \<times> u8 list) option" where
  "format_text [] args = Some (True, [])"
| "format_text (c # p) args =
     (if c = 0 then Some (True, [])
      else if c \<noteq> 37 then map_option (\<lambda>(ok, t). (ok, c # t)) (format_text p args)
      else if char_at p 0 = 0 then Some (True, [37])
      else if char_at p 0 = 48 \<and> (char_at p 1 \<noteq> 50 \<or> char_at p 2 \<noteq> 100) then Some (False, [])
      else let (width, q) = (if char_at p 0 = 48 then (2, drop 2 p) else (0, p))
           in case conv_text (char_at q 0) width args of
                None \<Rightarrow> None
              | Some ((ok, t), args') \<Rightarrow>
                  if ok then map_option (\<lambda>(ok', t'). (ok', t @ t')) (format_text (drop 1 q) args')
                  else Some (False, t))"
  by pat_completeness auto
termination by (relation "measure (\<lambda>(p, args). length p)") (auto split: if_splits)

text \<open>The buffer after the characters \<open>out\<close> have been produced: all but the last position is used.\<close>

definition emit :: "u8 list \<Rightarrow> u32 \<Rightarrow> u8 list \<Rightarrow> u8 list" where
  "emit buf sz out = take (unat sz - 1) out @ drop (min (length out) (unat sz - 1)) buf"

lemma length_emit: "unat sz \<le> length buf \<Longrightarrow> length (emit buf sz out) = length buf"
  by (auto simp: emit_def min_def)

lemma unat_minus_one: "sz \<noteq> 0 \<Longrightarrow> unat (sz - 1 :: u32) = unat sz - 1"
  using unat_sub_u32 [of 1 sz] unat_gt_0 [of sz] by simp

lemma format_putc_emit:
  assumes "length out < 2147483647" and "unat sz \<le> length buf"
  shows "format_putc sz c (emit buf sz out, length out) = (True, emit buf sz (out @ [c]), length (out @ [c]))"
proof (cases "sz \<noteq> 0 \<and> length out < unat sz - 1")
  case True
  let ?n = "length out"
  have "emit buf sz out = out @ drop ?n buf" using True by (simp add: emit_def min_def)
  moreover have "drop ?n buf = buf ! ?n # drop (Suc ?n) buf"
    using True assms(2) by (intro Cons_nth_drop_Suc [symmetric]) linarith
  ultimately have "(emit buf sz out)[?n := c] = (out @ [c]) @ drop (Suc ?n) buf" by simp
  also have "\<dots> = emit buf sz (out @ [c])"
  proof -
    have "Suc ?n \<le> unat sz - 1" using True by linarith
    then show ?thesis by (simp add: emit_def min_def)
  qed
  finally show ?thesis using True assms(1) by (simp add: format_putc_def INT_MAX_def unat_minus_one)
next
  case False
  then have "emit buf sz (out @ [c]) = emit buf sz out"
    by (cases "sz = 0") (auto simp: emit_def min_def)
  then show ?thesis using False assms(1) by (auto simp: format_putc_def INT_MAX_def unat_minus_one)
qed

lemma format_puts_emit:
  assumes "length out + length cs \<le> 2147483647" and "unat sz \<le> length buf"
  shows "format_puts sz cs (emit buf sz out, length out) = (True, emit buf sz (out @ cs), length (out @ cs))"
  using assms(1)
proof (induction cs arbitrary: out)
  case (Cons c cs)
  then show ?case using format_putc_emit [of out sz buf c] assms(2) Cons.IH [of "out @ [c]"] by simp
qed simp

lemma sint_u32_cases: "sint (v :: u32) = (if uint v < 2147483648 then uint v else uint v - 4294967296)"
proof -
  have b: "0 \<le> uint v" "uint v < 4294967296" using unsigned_less [of v] by simp_all
  have "sint v = (2147483648 + uint v) mod 4294967296 - 2147483648"
    using int_word_sint [of "uint v", where 'a = 32] by (simp add: algebra_simps)
  also have "(2147483648 + uint v) mod 4294967296
      = (if uint v < 2147483648 then uint v + 2147483648 else uint v - 2147483648)"
  proof (cases "uint v < 2147483648")
    case False
    have "(2147483648 + uint v) mod 4294967296 = (uint v - 2147483648 + 4294967296) mod 4294967296" by simp
    also have "\<dots> = (uint v - 2147483648) mod 4294967296" by (rule mod_add_self2)
    also have "\<dots> = uint v - 2147483648" using False b by (intro mod_pos_pos_trivial) simp_all
    finally show ?thesis using False by simp
  qed (use b in \<open>simp add: mod_pos_pos_trivial\<close>)
  finally show ?thesis by simp
qed

lemma abs_sint_u32:
  fixes v :: u32
  shows "unat (if sint v < 0 then 0 - v else v) = nat \<bar>sint v\<bar>"
proof -
  have u: "uint v = int (unat v)" by simp
  have b: "unat v < 4294967296" by (rule unat_u32_less)
  show ?thesis
  proof (cases "uint v < 2147483648")
    case True
    then have sv: "sint v = int (unat v)" by (simp only: sint_u32_cases if_True u)
    then have "\<not> sint v < 0" by (simp only: not_less of_nat_0_le_iff)
    then show ?thesis unfolding sv by (simp only: if_False abs_of_nat nat_int)
  next
    case False
    then have sv: "sint v = int (unat v) - 4294967296" by (simp only: sint_u32_cases if_False u)
    have "v \<noteq> 0" using False by auto
    then have "unat (0 - v) = 4294967296 - unat v" by (subst unat_sub_if') (simp add: unat_eq_0)
    moreover have "nat \<bar>int (unat v) - 4294967296\<bar> = 4294967296 - unat v" using b by linarith
    moreover have "sint v < 0" unfolding sv using b by linarith
    ultimately show ?thesis unfolding sv [symmetric] by (simp only: sv if_True)
  qed
qed

lemma format_conv_emit:
  assumes "conv_text conv width args = Some ((ok, t), args')"
    and "length out + length t \<le> 2147483647" and "unat sz \<le> length buf"
  shows "format_conv sz conv width args (emit buf sz out, length out)
    = Some ((ok, emit buf sz (out @ t), length (out @ t)), args')"
proof -
  note puts = format_puts_emit [OF _ assms(3), of out]
  have putc: "format_putc sz c (emit buf sz out, length out) = (True, emit buf sz (out @ [c]), Suc (length out))"
    if "t = [c]" for c using format_putc_emit [OF _ assms(3), of out c] assms(2) that by simp
  consider "conv = 37" | "conv = 99" | "conv = 115"
    | "conv \<in> {100, 105, 117, 120, 88}" | "conv \<notin> {37, 99, 115, 100, 105, 117, 120, 88}" by auto
  then show ?thesis
  proof cases
    case 4
    then obtain v where args: "args = ArgInt v # args'" and ok
      using assms(1) by (auto simp: conv_text_def Let_def split: list.splits vararg.splits if_splits)
    let ?neg = "(conv = 100 \<or> conv = 105) \<and> sint v < 0"
    let ?i = "if conv = 100 \<or> conv = 105 then sint v else uint v"
    have neg: "?i < 0 \<longleftrightarrow> ?neg" by auto
    have val: "unat (if ?neg then 0 - v else v) = nat \<bar>?i\<bar>"
      using abs_sint_u32 [of v] by (auto simp: nat_uint_eq)
    let ?base = "if conv = 120 \<or> conv = 88 then 16 else 10"
    have num: "format_number [] (unat (if ?neg then 0 - v else v)) ?base (conv = 88)
        = rev (map (\<lambda>d. format_digits (conv = 88) ! d) (digits ?base (nat \<bar>?i\<bar>)))"
      unfolding val by (rule trans [OF format_number_eq]) auto
    have c: "conv \<noteq> 37" "conv \<noteq> 99" "conv \<noteq> 115" "conv \<in> {99, 115, 100, 105, 117, 120, 88}" using 4 by auto
    have t: "t = (if ?neg then [45] else [])
        @ replicate (width - (length (digits ?base (nat \<bar>?i\<bar>)) + (if ?neg then 1 else 0))) 48
        @ map (\<lambda>d. format_digits (conv = 88) ! d) (digits ?base (nat \<bar>?i\<bar>))"
    proof -
      have sg: "length (if ?neg then [45 :: u8] else []) = (if ?neg then 1 else 0)" by simp
      show ?thesis
        using assms(1) unfolding args conv_text_def Let_def
        by (simp only: c if_False if_True list.case vararg.case simp_thms option.inject prod.inject neg sg)
    qed
    have "format_int sz conv width v (emit buf sz out, length out) = format_puts sz t (emit buf sz out, length out)"
      unfolding format_int_def Let_def num t by simp
    then show ?thesis
      using puts [of t] assms(2) 4 c \<open>ok\<close> by (simp add: format_conv_def args)
  next
    case 1
    then show ?thesis using assms(1) putc by (auto simp: conv_text_def format_conv_def)
  next
    case 2
    then show ?thesis using assms(1) putc
      by (auto simp: conv_text_def format_conv_def split: list.splits vararg.splits)
  next
    case 3
    then show ?thesis using assms(1,2) puts [of t]
      by (auto simp: conv_text_def format_conv_def split: list.splits vararg.splits)
  next
    case 5
    then show ?thesis using assms(1) by (auto simp: conv_text_def format_conv_def)
  qed
qed

lemma format_loop_emit:
  assumes "format_text f args = Some (ok, t)"
    and "length out + length t \<le> 2147483647" and "unat sz \<le> length buf"
  shows "format_loop sz f args (emit buf sz out, length out) = Some (ok, emit buf sz (out @ t), length (out @ t))"
  using assms(1,2)
proof (induction f args arbitrary: out t rule: format_text.induct)
  case (2 c p args)
  have putc: "format_putc sz c (emit buf sz out, length out) = (True, emit buf sz (out @ [c]), Suc (length out))"
    if "length out < 2147483647" for c using format_putc_emit [OF that assms(3)] by simp
  consider "c = 0" | "c \<noteq> 0" "c \<noteq> 37" | "c = 37" "char_at p 0 = 0"
    | "c = 37" "char_at p 0 = 48 \<and> (char_at p 1 \<noteq> 50 \<or> char_at p 2 \<noteq> 100)"
    | "c = 37" "char_at p 0 \<noteq> 0" "\<not> (char_at p 0 = 48 \<and> (char_at p 1 \<noteq> 50 \<or> char_at p 2 \<noteq> 100))" by blast
  then show ?case
  proof cases
    case 2
    then obtain t' where t': "format_text p args = Some (ok, t')" "t = c # t'" using "2.prems"(1) by auto
    with "2.IH"(1) [OF 2 t'(1), of "out @ [c]"] "2.prems"(2) 2 putc show ?thesis by simp
  next
    case 5
    define w q where "w = (if char_at p 0 = 48 then 2 else 0 :: nat)"
      and "q = (if char_at p 0 = 48 then drop 2 p else p)"
    have wq: "(if char_at p 0 = 48 then (2, drop 2 p) else (0, p)) = (w, q)" by (simp add: w_def q_def)
    have st: "Some (ok, t) = (case conv_text (char_at q 0) w args of None \<Rightarrow> None
        | Some ((ok, t), args') \<Rightarrow>
            if ok then map_option (\<lambda>(ok', t'). (ok', t @ t')) (format_text (drop 1 q) args')
            else Some (False, t))"
      using "2.prems"(1) 5 unfolding format_text.simps wq Let_def prod.case by auto
    then obtain ok1 t1 args1 where c: "conv_text (char_at q 0) w args = Some ((ok1, t1), args1)"
      by (auto split: option.splits)
    show ?thesis
    proof (cases ok1)
      case True
      then obtain t2 where t2: "format_text (drop 1 q) args1 = Some (ok, t2)" "t = t1 @ t2"
        using st [symmetric] c by auto
      have "format_loop sz (drop 1 q) args1 (emit buf sz (out @ t1), length (out @ t1))
          = Some (ok, emit buf sz ((out @ t1) @ t2), length ((out @ t1) @ t2))"
        using "2.IH"(2) [OF _ _ 5(2,3) wq [symmetric] refl c refl refl True t2(1), of "out @ t1"]
          5 "2.prems"(2) t2(2) by simp
      then show ?thesis
        using format_conv_emit [OF c _ assms(3), of out] "2.prems"(2) t2(2) 5 True by (simp add: wq) blast
    next
      case False
      then show ?thesis
        using format_conv_emit [OF c _ assms(3), of out] "2.prems"(2) st 5 c by (simp add: wq) blast
    qed
  qed (use "2.prems" putc in auto)
qed auto

lemma vsnprintf_eq:
  assumes f: "format_text f args = Some (ok, t)" and t: "length t \<le> 2147483647"
    and sz: "sz \<noteq> 0" "unat sz \<le> length buf"
  shows "vsnprintf (Some buf) sz (Some f) args =
    Some (if ok then int (length t) else -1,
      take (unat sz - 1) t @ [0] @ drop (Suc (min (length t) (unat sz - 1))) buf)"
proof -
  have e: "emit buf sz [] = buf" by (simp add: emit_def)
  have l: "format_loop sz f args (buf, 0) = Some (ok, emit buf sz t, length t)"
    using format_loop_emit [OF f _ sz(2), of "[]"] t by (simp add: e)
  let ?k = "min (length t) (unat sz - 1)"
  have pos: "0 < unat sz" using sz(1) by (simp add: unat_gt_0)
  have idx: "(if length t < unat sz then length t else unat (sz - 1)) = ?k"
    using pos by (auto simp: unat_minus_one [OF sz(1)] min_def)
  have "?k < length buf" using pos sz(2) by (auto simp: min_def)
  then have "drop ?k buf = buf ! ?k # drop (Suc ?k) buf" by (rule Cons_nth_drop_Suc [symmetric])
  then have "(emit buf sz t)[?k := 0] = take (unat sz - 1) t @ [0] @ drop (Suc ?k) buf"
    by (simp add: emit_def list_update_append)
  then show ?thesis using sz(1) by (simp add: vsnprintf_def l idx)
qed

lemma cstr_append_zero: "0 \<notin> set xs \<Longrightarrow> cstr (xs @ 0 # r) = xs"
  by (induction xs) auto

section \<open>Printing in any base\<close>

lemma swap_loop_rev:
  "swap_loop (pre @ xs @ post) (length pre) (length pre + length xs - 1) = pre @ rev xs @ post"
proof (induction "length xs" arbitrary: pre xs post rule: less_induct)
  case less
  show ?case
  proof (cases "length xs \<le> 1")
    case True
    then have "rev xs = xs" by (cases xs) auto
    then show ?thesis using True by (subst swap_loop.simps) auto
  next
    case False
    then obtain a ys b where xs: "xs = a # ys @ [b]"
      by (cases xs; cases "tl xs" rule: rev_cases) auto
    let ?p = "length pre" and ?q = "length pre + length xs - 1"
    have upd: "(pre @ xs @ post)[?p := (pre @ xs @ post) ! ?q, ?q := (pre @ xs @ post) ! ?p]
        = (pre @ [b]) @ ys @ (a # post)"
      by (simp add: xs nth_append list_update_append)
    have "swap_loop (pre @ xs @ post) ?p ?q = swap_loop ((pre @ [b]) @ ys @ (a # post)) (Suc ?p) (?q - 1)"
      by (subst swap_loop.simps) (simp only: upd, simp add: xs)
    also have "\<dots> = (pre @ [b]) @ rev ys @ (a # post)"
      using less [of ys "pre @ [b]" "a # post"] by (simp add: xs)
    finally show ?thesis by (simp add: xs)
  qed
qed

lemma itoa_hex_digits_eq:
  assumes "2 \<le> base" and "length (digits base n) \<le> length room"
  shows "itoa_hex_digits (pre @ room) (length pre) n base =
    (pre @ rev (map hex_digit (digits base n)) @ drop (length (digits base n)) room,
     length pre + length (digits base n))"
  using assms
proof (induction n arbitrary: pre room rule: less_induct)
  case (less n)
  have ne: "room \<noteq> []" using less.prems by (auto simp: digits.simps [of base n] split: if_splits)
  then obtain r room' where room: "room = r # room'" by (cases room) auto
  have upd: "(pre @ room)[length pre := c] = (pre @ [c]) @ room'" for c by (simp add: room)
  show ?case
  proof (cases "n < base")
    case True
    then show ?thesis
      by (subst itoa_hex_digits.simps) (simp add: Let_def upd digits.simps [of base n], simp add: room)
  next
    case False
    then have d: "digits base n = digits base (n div base) @ [n mod base]" "n div base < n" "n div base \<noteq> 0"
      using less.prems(1) by (auto simp: digits.simps [of base n] div_eq_0_iff intro: div_less_dividend)
    have "itoa_hex_digits (pre @ room) (length pre) n base
        = itoa_hex_digits ((pre @ [hex_digit (n mod base)]) @ room') (length (pre @ [hex_digit (n mod base)])) (n div base) base"
      using d(3) less.prems(1) by (subst itoa_hex_digits.simps) (simp add: Let_def upd)
    also have "\<dots> = ((pre @ [hex_digit (n mod base)]) @ rev (map hex_digit (digits base (n div base)))
        @ drop (length (digits base (n div base))) room', Suc (length pre + length (digits base (n div base))))"
      using less.IH [OF d(2) less.prems(1), of room' "pre @ [hex_digit (n mod base)]"] less.prems(2) d(1) room
      by simp
    finally show ?thesis by (simp add: d(1) room)
  qed
qed

lemma digits_length_32:
  assumes "2 \<le> base" and "n < 4294967296"
  shows "length (digits base n) \<le> 32"
proof (rule digits_length [OF assms(1)])
  have "n < 2 ^ 32" using assms(2) by simp
  also have "(2 :: nat) ^ 32 \<le> base ^ 32" using assms(1) by (intro power_mono) simp_all
  finally show "n < base ^ 32" .
qed simp

lemma itoa_hex_eq:
  assumes v: "- 2147483648 \<le> v" "v \<le> 2147483647" and b: "2 \<le> base" "base \<le> 36" and len: "34 \<le> length buf"
  defines "ds \<equiv> digits (nat base) (nat \<bar>v\<bar>)"
  defines "sign \<equiv> (if v < 0 then [45] else [])"
  shows "itoa_hex v buf base = sign @ map hex_digit ds @ [0] @ drop (Suc (length sign + length ds)) buf"
proof -
  let ?w = "if v < 0 then 0 - word_of_int v else word_of_int v :: u32"
  have sv: "sint (word_of_int v :: u32) = v"
  proof -
    have "(v + 2147483648) mod 4294967296 = v + 2147483648" using v by (intro mod_pos_pos_trivial) simp_all
    then show ?thesis using int_word_sint [of v, where 'a = 32] by (simp add: algebra_simps)
  qed
  have w: "unat ?w = nat \<bar>v\<bar>" using abs_sint_u32 [of "word_of_int v"] by (simp add: sv)
  have b2: "2 \<le> nat base" using b by simp
  have dl: "length ds \<le> 32" "ds \<noteq> []"
    using digits_length_32 [OF b2, of "nat \<bar>v\<bar>"] v by (auto simp: ds_def digits.simps [of _ "nat \<bar>v\<bar>"])
  define room where "room = drop (length sign) buf"
  have sl: "length sign \<le> 1" by (simp add: sign_def)
  have room: "length ds \<le> length room" "length ds < length room" using dl len sl by (simp_all add: room_def)
  have d: "itoa_hex_digits (sign @ room) (length sign) (unat ?w) (nat base)
      = (sign @ rev (map hex_digit ds) @ drop (length ds) room, length sign + length ds)"
    using itoa_hex_digits_eq [OF b2, of "nat \<bar>v\<bar>" room sign] room unfolding w ds_def by simp
  have z: "(sign @ rev (map hex_digit ds) @ drop (length ds) room)[length sign + length ds := 0]
      = sign @ rev (map hex_digit ds) @ [0] @ drop (Suc (length ds)) room"
    using Cons_nth_drop_Suc [OF room(2), symmetric] by (simp add: list_update_append)
  have sw: "swap_loop (sign @ rev (map hex_digit ds) @ [0] @ drop (Suc (length ds)) room) (length sign)
      (length sign + length ds - 1) = sign @ map hex_digit ds @ [0] @ drop (Suc (length ds)) room"
    using swap_loop_rev [of sign "rev (map hex_digit ds)" "[0] @ drop (Suc (length ds)) room"] by simp
  have buf: "(if v < 0 then (buf[0 := 45], 1, 0 - word_of_int v) else (buf, 0, word_of_int v))
      = (sign @ room, length sign, ?w)"
    using len by (cases buf) (auto simp: sign_def room_def)
  show ?thesis
    using b unfolding itoa_hex_def Let_def buf prod.case d z
    by (simp add: sw [simplified]) (simp add: room_def add.commute)
qed

section \<open>Properties\<close>

text \<open>
  C12. Formatted output. For every format whose conversions match the arguments, \<^verbatim>\<open>vsnprintf\<close> stores the
  first \<open>size - 1\<close> characters of the text the format stands for, a NUL, and nothing else: the rest of
  the buffer and everything behind it keeps its value. It returns the length of the whole text, or
  -1 for a malformed format.
\<close>

theorem vsnprintf_correct:
  assumes "format_text f args = Some (ok, t)" and "length t \<le> 2147483647"
    and "sz \<noteq> 0" and "unat sz \<le> length buf"
  shows "vsnprintf (Some buf) sz (Some f) args =
    Some (if ok then int (length t) else -1,
      take (unat sz - 1) t @ [0] @ drop (Suc (min (length t) (unat sz - 1))) buf)"
  using assms by (rule vsnprintf_eq)

theorem vsnprintf_correct_witness:
  "vsnprintf (Some (replicate 6 7)) 4 (Some [37, 48, 50, 100, 58, 37, 115]) [ArgInt 5, ArgStr (Some [97, 98])]
     = Some (5, [48, 53, 58, 0, 7, 7])"
proof -
  have "format_text [37, 48, 50, 100, 58, 37, 115] [ArgInt 5, ArgStr (Some [97, 98])]
      = Some (True, [48, 53, 58, 97, 98])" by code_simp
  from vsnprintf_correct [OF this, of 4 "replicate 6 7"] show ?thesis by simp code_simp
qed






text \<open>
  C16. \<^verbatim>\<open>strncpy\<close> with a positive count stores at most \<open>count - 1\<close> characters and always a NUL, and
  writes nothing at or behind offset \<open>count\<close>.
\<close>

theorem strncpy_correct:
  assumes "0 < count" and "nat count \<le> length dest"
  shows "cstr (strncpy dest src count) = take (nat (count - 1)) (cstr src)
    \<and> drop (nat count) (strncpy dest src count) = drop (nat count) dest
    \<and> length (strncpy dest src count) = length dest"
proof -
  let ?k = "min (nat (count - 1)) (length (cstr src))"
  have "0 \<notin> set (take (nat (count - 1)) (cstr src))" using zero_notin_cstr by (meson in_set_takeD)
  then have "cstr (take (nat (count - 1)) (cstr src) @ [0] @ r) = take (nat (count - 1)) (cstr src)" for r
    by (simp add: cstr_append_zero)
  moreover have k: "Suc ?k \<le> nat count" using assms(1) by (auto simp: min_def)
  moreover have "drop (nat count) (take (nat (count - 1)) (cstr src) @ [0] @ drop (Suc ?k) dest) = drop (nat count) dest"
  proof -
    define X where "X = take (nat (count - 1)) (cstr src) @ [0 :: u8]"
    have X: "length X = Suc ?k" by (simp add: X_def min.commute)
    obtain j where j: "nat count = length X + j" using k X by (metis le_Suc_ex)
    have "drop (nat count) (X @ drop (length X) dest) = drop (nat count) dest"
      unfolding j by (simp add: add.commute)
    then show ?thesis unfolding X by (simp add: X_def)
  qed
  ultimately show ?thesis using assms by (simp add: strncpy_eq)
qed

theorem strncpy_correct_witness: "cstr (strncpy [1, 2, 3, 4] [97, 98, 99, 100] 3) = [97, 98]"
  using strncpy_correct [of 3 "[1, 2, 3, 4]" "[97, 98, 99, 100]"] by simp

end
