(* ===== verification/Path_Parser.thy ===== *)
theory Path_Parser
  imports Kernel_Alloc CString
begin

text \<open>
  The path parser of \<^verbatim>\<open>kernel/fs/pparser.c\<close>. A parsed path is the list of its parts, each with the
  addresses of its node and of its string; the \<^verbatim>\<open>next\<close> pointers are the order of the list. The parser
  returns pointers, NULL and \<^verbatim>\<open>ERROR(-e)\<close> in one machine word, and the model keeps that word.
\<close>

definition RORTHOX_MAX_PATH :: nat where
  "RORTHOX_MAX_PATH = 108"

record path_part =
  part_addr :: u32
  part_str_addr :: u32
  part_str :: "u8 list"

record path_root =
  root_addr :: u32
  drive_no :: int
  first :: "path_part list"

section \<open>Operations\<close>

text \<open>\<^verbatim>\<open>memcmp(&filename[1], ":/", 2) == 0\<close>\<close>

definition pathparser_path_valid_format :: "cstring \<Rightarrow> bool" where
  "pathparser_path_valid_format filename \<longleftrightarrow>
     (let len = strnlen filename RORTHOX_MAX_PATH
      in 3 \<le> len \<and> isdigit (char_at filename 0) \<and> char_at filename 1 = 58 \<and> char_at filename 2 = 47)"

definition pathparser_get_drive_by_path :: "cstring \<Rightarrow> (int \<times> cstring) result" where
  "pathparser_get_drive_by_path path =
     (if \<not> pathparser_path_valid_format path then Inl EBADPATH
      else Inr (tonumericdigit (char_at path 0), drop 3 path))"

definition pathparser_create_root :: "kmem \<Rightarrow> int \<Rightarrow> path_root option \<times> kmem" where
  "pathparser_create_root s drive_number =
     (let (path_r, s1) = kzalloc s 8
      in if path_r = 0 then (None, s1)
         else (Some \<lparr>root_addr = path_r, drive_no = drive_number, first = []\<rparr>, s1))"

text \<open>
  The copying loop: the characters up to the next slash or the end. The result is the part and the
  rest of the path, or None when the part does not fit.
\<close>

fun path_part_loop :: "cstring \<Rightarrow> nat \<Rightarrow> (u8 list \<times> cstring) option" where
  "path_part_loop [] i = Some ([], [])"
| "path_part_loop (c # path) i =
     (if c = 47 \<or> c = 0 then Some ([], c # path)
      else if RORTHOX_MAX_PATH - 1 \<le> i then None
      else map_option (\<lambda>(p, rest). (c # p, rest)) (path_part_loop path (Suc i)))"

text \<open>The word returned, the string it points to, and where \<^verbatim>\<open>*path\<close> points afterwards.\<close>

definition pathparser_get_path_part :: "kmem \<Rightarrow> cstring \<Rightarrow> u32 \<times> u8 list \<times> cstring \<times> kmem" where
  "pathparser_get_path_part s path =
     (if char_at path 0 = 47 \<or> char_at path 0 = 0
      then (0, [], if char_at path 0 = 47 then drop 1 path else path, s)
      else let (result_path_part, s1) = kzalloc s (of_nat RORTHOX_MAX_PATH)
           in if result_path_part = 0 then (ERROR (- errno ENOMEM), [], path, s1)
              else case path_part_loop path 0 of
                     None \<Rightarrow> (ERROR (- errno EBADPATH), [], path, kfree s1 result_path_part)
                   | Some (p, rest) \<Rightarrow>
                       (result_path_part, p, if char_at rest 0 = 47 then drop 1 rest else rest, s1))"

text \<open>
  The word returned, the new node, and the rest of the path. Linking the node behind \<^verbatim>\<open>last_part\<close> is
  done by the caller, which appends it to the list of parts.
\<close>

definition pathparser_parse_path_part :: "kmem \<Rightarrow> cstring \<Rightarrow> u32 \<times> path_part list \<times> cstring \<times> kmem" where
  "pathparser_parse_path_part s path =
     (let (path_part_str, str, rest, s1) = pathparser_get_path_part s path
      in if ISERR path_part_str then (ERROR (sint path_part_str), [], rest, s1)
         else if path_part_str = 0 then (0, [], rest, s1)
         else let (part, s2) = kzalloc s1 8
              in if part = 0 then (ERROR (- errno ENOMEM), [], rest, kfree s2 path_part_str)
                 else (part, [\<lparr>part_addr = part, part_str_addr = path_part_str, part_str = str\<rparr>], rest, s2))"

definition pathparser_free :: "kmem \<Rightarrow> path_root option \<Rightarrow> kmem" where
  "pathparser_free s root =
     (case root of
        None \<Rightarrow> s
      | Some r \<Rightarrow>
          kfree (fold (\<lambda>part s. kfree (kfree s (part_str_addr part)) (part_addr part)) (first r) s) (root_addr r))"

lemma path_part_loop_length: "path_part_loop path i = Some (p, rest) \<Longrightarrow> length path = length p + length rest"
proof (induction path i arbitrary: p rest rule: path_part_loop.induct)
  case (2 c path i)
  then show ?case by (force split: if_splits)
qed simp

lemma parse_path_part_shrinks:
  assumes "pathparser_parse_path_part s path = (w, new, rest, s1)" and "w \<noteq> 0" and "\<not> ISERR w"
  shows "length rest < length path"
proof -
  have err: "ISERR (ERROR (sint x))" if "ISERR x" for x using that by (simp add: ISERR_def ERROR_def)
  have enomem: "ISERR (ERROR (- errno ENOMEM))" by code_simp
  obtain w1 str r1 s2 where g: "pathparser_get_path_part s path = (w1, str, r1, s2)" by (metis prod_cases4)
  have w1: "\<not> ISERR w1" "w1 \<noteq> 0" "rest = r1"
    using assms g err enomem by (auto simp: pathparser_parse_path_part_def Let_def split: if_splits prod.splits)
  have badpath: "ISERR (ERROR (- errno EBADPATH))" by code_simp
  obtain c path' where path: "path = c # path'" "c \<noteq> 47" "c \<noteq> 0"
    using g w1 by (cases path) (auto simp: pathparser_get_path_part_def split: if_splits)
  obtain p r where l: "path_part_loop path 0 = Some (p, r)" "r1 = (if char_at r 0 = 47 then drop 1 r else r)"
    using g w1 path badpath enomem
    by (auto simp: pathparser_get_path_part_def Let_def split: if_splits prod.splits option.splits)
  have "p \<noteq> []" using l(1) path by (auto simp: RORTHOX_MAX_PATH_def split: if_splits)
  then show ?thesis using path_part_loop_length [OF l(1)] l(2) w1(3) by (cases p) auto
qed

text \<open>The loop over the parts behind the first; the flag is False when the error path is taken.\<close>

function pathparser_loop :: "kmem \<Rightarrow> path_part list \<Rightarrow> cstring \<Rightarrow> bool \<times> path_part list \<times> kmem" where
  "pathparser_loop s parts path =
     (case pathparser_parse_path_part s path of
        (part, new, rest, s1) \<Rightarrow>
          if part = 0 then (True, parts, s1)
          else if ISERR part then (False, parts, s1)
          else pathparser_loop s1 (parts @ new) rest)"
  by pat_completeness auto
termination
  by (relation "measure (\<lambda>(s, parts, path). length path)")
    (auto dest: parse_path_part_shrinks [OF sym])

declare pathparser_loop.simps [simp del]

text \<open>The second argument of \<^verbatim>\<open>pathparser_parse\<close> is not used.\<close>

definition pathparser_parse :: "kmem \<Rightarrow> cstring \<Rightarrow> path_root option \<times> kmem" where
  "pathparser_parse s path =
     (if RORTHOX_MAX_PATH < strnlen path (RORTHOX_MAX_PATH + 1) then (None, s)
      else case pathparser_get_drive_by_path path of
        Inl e \<Rightarrow> (None, s)
      | Inr (res, tmp_path) \<Rightarrow>
          (case pathparser_create_root s res of
             (None, s1) \<Rightarrow> (None, s1)
           | (Some path_root, s1) \<Rightarrow>
               (case pathparser_parse_path_part s1 tmp_path of
                  (first_part, new, rest, s2) \<Rightarrow>
                    if ISERR first_part then (None, pathparser_free s2 (Some path_root))
                    else if first_part = 0 then (Some path_root, s2)
                    else case pathparser_loop s2 new rest of
                      (ok, parts, s3) \<Rightarrow>
                        if ok then (Some (path_root\<lparr>first := parts\<rparr>), s3)
                        else (None, pathparser_free s3 (Some (path_root\<lparr>first := parts\<rparr>))))))"

section \<open>What a path means\<close>

text \<open>
  The components of a path: the pieces between slashes, up to the first empty one. (A doubled slash
  therefore ends the path.)
\<close>

function path_components :: "u8 list \<Rightarrow> u8 list list" where
  "path_components p =
     (let q = takeWhile (\<lambda>c. c \<noteq> 47) p
      in if q = [] then [] else q # path_components (drop 1 (dropWhile (\<lambda>c. c \<noteq> 47) p)))"
  by pat_completeness auto
termination
proof (relation "measure length")
  fix p q :: "u8 list" assume q: "q = takeWhile (\<lambda>c. c \<noteq> 47) p" "q \<noteq> []"
  have "length p = length q + length (dropWhile (\<lambda>c. c \<noteq> 47) p)"
    using q(1) by (metis length_append takeWhile_dropWhile_id)
  moreover obtain c q' where "q = c # q'" using q(2) by (cases q) auto
  ultimately show "(drop 1 (dropWhile (\<lambda>c. c \<noteq> 47) p), p) \<in> measure length" by simp
qed simp

declare path_components.simps [simp del]

lemma path_part_loop_eq:
  assumes "i + length (takeWhile (\<lambda>c. c \<noteq> 47) (cstr path)) < RORTHOX_MAX_PATH"
  shows "\<exists>rest. path_part_loop path i = Some (takeWhile (\<lambda>c. c \<noteq> 47) (cstr path), rest)
    \<and> cstr rest = dropWhile (\<lambda>c. c \<noteq> 47) (cstr path)"
  using assms
proof (induction path i rule: path_part_loop.induct)
  case (2 c path i)
  show ?case
  proof (cases "c = 47 \<or> c = 0")
    case False
    then have i: "\<not> RORTHOX_MAX_PATH - 1 \<le> i"
      "Suc i + length (takeWhile (\<lambda>c. c \<noteq> 47) (cstr path)) < RORTHOX_MAX_PATH"
      using 2(2) by (simp_all add: RORTHOX_MAX_PATH_def)
    from 2(1) [OF False i] obtain rest where
      "path_part_loop path (Suc i) = Some (takeWhile (\<lambda>c. c \<noteq> 47) (cstr path), rest)"
      "cstr rest = dropWhile (\<lambda>c. c \<noteq> 47) (cstr path)" by blast
    then show ?thesis using False i(1) by simp
  qed (use 2 in auto)
qed simp

lemma cstr_char0: "char_at path 0 = 0 \<longleftrightarrow> cstr path = []" "c \<noteq> 0 \<Longrightarrow> char_at path 0 = c \<longleftrightarrow> (\<exists>r. cstr path = c # r)"
  by (cases path; auto)+

lemma cstr_drop1: "char_at path 0 \<noteq> 0 \<Longrightarrow> cstr (drop 1 path) = drop 1 (cstr path)"
  by (cases path) auto

text \<open>One part, on a heap that has grown by \<open>as\<close> so far.\<close>

lemma get_path_part_cases:
  assumes g: "grows s0 s as" and low: "low_pool s0" and len: "length (cstr path) < RORTHOX_MAX_PATH"
    and r: "pathparser_get_path_part s path = (w, str, rest, s')"
  defines "q \<equiv> takeWhile (\<lambda>c. c \<noteq> 47) (cstr path)"
  shows "if q = [] then w = 0 \<and> s' = s
    else if length as < free_blocks s0
    then w \<noteq> 0 \<and> \<not> ISERR w \<and> str = q \<and> grows s0 s' (as @ [w])
       \<and> cstr rest = drop 1 (dropWhile (\<lambda>c. c \<noteq> 47) (cstr path))
    else ISERR w \<and> s' = s"
proof (cases "q = []")
  case True
  then have "char_at path 0 = 47 \<or> char_at path 0 = 0"
    by (cases path) (auto simp: q_def split: if_splits)
  then show ?thesis using r True by (auto simp: pathparser_get_path_part_def)
next
  case False
  then have c: "char_at path 0 \<noteq> 47" "char_at path 0 \<noteq> 0" by (cases path; auto simp: q_def)+
  obtain p s1 where k: "kzalloc s 108 = (p, s1)" by force
  have n: "heap_blocks 108 = 1" "heap_accepts 108" by (simp_all add: heap_blocks_def heap_accepts_def)
  note iff = grows_kzalloc_iff [OF g k n]
  show ?thesis
  proof (cases "p = 0")
    case True
    have "ISERR (ERROR (- errno ENOMEM))" by code_simp
    then show ?thesis
      using r c k True iff False grows_kzalloc_null [OF g, of 108 s1]
      by (auto simp: pathparser_get_path_part_def RORTHOX_MAX_PATH_def)
  next
    case p: False
    have "length q \<le> length (cstr path)" by (simp add: q_def length_takeWhile_le)
    then obtain r0 where l: "path_part_loop path 0 = Some (q, r0)" "cstr r0 = dropWhile (\<lambda>c. c \<noteq> 47) (cstr path)"
      using path_part_loop_eq [of 0 path] len by (auto simp: q_def)
    have g1: "grows s0 s1 (as @ [p])" using grows_kzalloc [OF g k p n] .
    have rest: "cstr (if char_at r0 0 = 47 then drop 1 r0 else r0) = drop 1 (cstr r0)"
    proof (cases "char_at r0 0 = 47")
      case False
      moreover have "cstr r0 = [] \<or> hd (cstr r0) = 47"
        unfolding l(2) using hd_dropWhile [of "\<lambda>c. c \<noteq> 47" "cstr path"] by blast
      ultimately have "cstr r0 = []" using cstr_char0(2) [of 47 r0] by (cases "cstr r0") auto
      then show ?thesis using False by simp
    qed (use cstr_drop1 [of r0] in simp)
    show ?thesis
      using r c k p iff False l rest g1 grows_not_error [OF g1 low, of p]
      by (auto simp: pathparser_get_path_part_def RORTHOX_MAX_PATH_def)
  qed
qed

lemma parse_path_part_cases:
  assumes g: "grows s0 s as" and low: "low_pool s0" and len: "length (cstr path) < RORTHOX_MAX_PATH"
    and r: "pathparser_parse_path_part s path = (w, new, rest, s')"
  defines "q \<equiv> takeWhile (\<lambda>c. c \<noteq> 47) (cstr path)"
  shows "if q = [] then w = 0 \<and> s' = s
    else if Suc (length as) < free_blocks s0
    then w \<noteq> 0 \<and> \<not> ISERR w
       \<and> (\<exists>a. new = [\<lparr>part_addr = w, part_str_addr = a, part_str = q\<rparr>] \<and> grows s0 s' (as @ [a, w]))
       \<and> cstr rest = drop 1 (dropWhile (\<lambda>c. c \<noteq> 47) (cstr path))
    else ISERR w \<and> kmem_wf s' \<and> klive s' = klive s"
proof -
  obtain w1 str r1 s1 where g1: "pathparser_get_path_part s path = (w1, str, r1, s1)" by (metis prod_cases4)
  note p = get_path_part_cases [OF g low len g1, folded q_def]
  have err: "ISERR (ERROR (sint x))" if "ISERR x" for x using that by (simp add: ISERR_def ERROR_def)
  have enomem: "ISERR (ERROR (- errno ENOMEM))" by code_simp
  have n: "heap_blocks 8 = 1" "heap_accepts 8" by (simp_all add: heap_blocks_def heap_accepts_def)
  consider "q = []" | "q \<noteq> []" "free_blocks s0 \<le> length as" | "q \<noteq> []" "length as < free_blocks s0" by linarith
  then show ?thesis
  proof cases
    case 1
    then show ?thesis using r g1 p by (auto simp: pathparser_parse_path_part_def ISERR_def)
  next
    case 2
    then show ?thesis using r g1 p err grows_wf [OF g] by (auto simp: pathparser_parse_path_part_def)
  next
    case 3
    then have w1: "w1 \<noteq> 0" "\<not> ISERR w1" "str = q" and gr: "grows s0 s1 (as @ [w1])"
      and rest: "cstr r1 = drop 1 (dropWhile (\<lambda>c. c \<noteq> 47) (cstr path))" using p by auto
    obtain w2 s2 where k: "kzalloc s1 8 = (w2, s2)" by force
    note iff = grows_kzalloc_iff [OF gr k n]
    show ?thesis
    proof (cases "w2 = 0")
      case True
      then have "s2 = s1" using grows_kzalloc_null [OF gr] k by simp
      moreover have "klive s = klive s0 \<union> (\<lambda>p. (p, 4096)) ` set as" using g by (simp add: grows_def)
      ultimately show ?thesis
        using r g1 w1 k True iff 3(1) enomem grows_kfree_last [OF gr]
        by (auto simp: pathparser_parse_path_part_def)
    next
      case w2: False
      have g2: "grows s0 s2 (as @ [w1, w2])" using grows_kzalloc [OF gr k w2 n] by simp
      show ?thesis
        using r g1 w1 k w2 iff 3(1) rest g2 grows_not_error [OF g2 low, of w2]
        by (auto simp: pathparser_parse_path_part_def)
    qed
  qed
qed

section \<open>The whole parser\<close>

definition part_addrs :: "path_part list \<Rightarrow> u32 list" where
  "part_addrs ps = concat (map (\<lambda>p. [part_str_addr p, part_addr p]) ps)"

lemma part_addrs_snoc: "part_addrs (ps @ [p]) = part_addrs ps @ [part_str_addr p, part_addr p]"
  by (simp add: part_addrs_def)

lemma length_part_addrs: "length (part_addrs ps) = 2 * length ps"
  by (induction ps) (simp_all add: part_addrs_def)

lemma path_components_cases:
  "path_components p = (if takeWhile (\<lambda>c. c \<noteq> 47) p = [] then []
     else takeWhile (\<lambda>c. c \<noteq> 47) p # path_components (drop 1 (dropWhile (\<lambda>c. c \<noteq> 47) p)))"
  by (subst path_components.simps) (simp add: Let_def)

lemma pathparser_loop_cases:
  assumes g: "grows s0 s (r # part_addrs ps)" and low: "low_pool s0" and len: "length (cstr path) < RORTHOX_MAX_PATH"
    and l: "pathparser_loop s ps path = (ok, ps', s')"
  defines "cs \<equiv> path_components (cstr path)"
  shows "(ok \<longleftrightarrow> 1 + 2 * (length ps + length cs) \<le> free_blocks s0)
    \<and> (ok \<longrightarrow> map part_str ps' = map part_str ps @ cs \<and> grows s0 s' (r # part_addrs ps'))
    \<and> (\<not> ok \<longrightarrow> kmem_wf s' \<and> klive s' = klive s0 \<union> (\<lambda>p. (p, 4096)) ` set (r # part_addrs ps')
        \<and> set (r # part_addrs ps') \<inter> kaddrs s0 = {})"
  using g len l unfolding cs_def
proof (induction s ps path rule: pathparser_loop.induct)
  case (1 s ps path)
  let ?q = "takeWhile (\<lambda>c. c \<noteq> 47) (cstr path)"
  obtain w new rest s1 where p: "pathparser_parse_path_part s path = (w, new, rest, s1)" by (metis prod_cases4)
  note c = parse_path_part_cases [OF 1(2) low 1(3) p]
  have used: "1 + 2 * length ps \<le> free_blocks s0"
    using 1(2) by (auto simp: grows_def length_part_addrs)
  consider "?q = []" | "?q \<noteq> []" "\<not> Suc (Suc (2 * length ps)) < free_blocks s0"
    | "?q \<noteq> []" "Suc (Suc (2 * length ps)) < free_blocks s0" by blast
  then show ?case
  proof cases
    case 1
    then show ?thesis
      using "1.prems" p c used path_components_cases [of "cstr path"] by (auto simp: pathparser_loop.simps [of s])
  next
    case 2
    then have e: "ISERR w" "kmem_wf s1" "klive s1 = klive s" using c by (simp_all add: length_part_addrs)
    then have "w \<noteq> 0" by (auto simp: ISERR_def)
    with e have "\<not> ok" "s' = s1" "ps' = ps"
      using "1.prems"(3) p by (simp_all add: pathparser_loop.simps [of s])
    with e show ?thesis
      using "1.prems"(1) 2 path_components_cases [of "cstr path"] by (auto simp: grows_def)
  next
    case 3
    then obtain a where w: "w \<noteq> 0" "\<not> ISERR w"
      and new: "new = [\<lparr>part_addr = w, part_str_addr = a, part_str = ?q\<rparr>]"
      and gr: "grows s0 s1 (r # part_addrs ps @ [a, w])"
      and rest: "cstr rest = drop 1 (dropWhile (\<lambda>c. c \<noteq> 47) (cstr path))"
      using c by (auto simp: length_part_addrs)
    have g1: "grows s0 s1 (r # part_addrs (ps @ new))" using gr by (simp add: new part_addrs_snoc)
    have len1: "length (cstr rest) < RORTHOX_MAX_PATH"
      using "1.prems"(2) length_dropWhile_le [of "\<lambda>c. c \<noteq> 47" "cstr path"] by (simp add: rest)
    have l1: "pathparser_loop s1 (ps @ new) rest = (ok, ps', s')"
      using "1.prems"(3) p w by (simp add: pathparser_loop.simps [of s])
    have cs: "path_components (cstr path) = ?q # path_components (cstr rest)"
      using 3(1) path_components_cases [of "cstr path"] by (simp add: rest)
    from "1.IH" [OF p [symmetric] refl refl w g1 len1 l1] show ?thesis by (simp add: cs new)
  qed
qed

lemma pathparser_free_eq:
  "pathparser_free s (Some r) = fold (\<lambda>p s. kfree s p) (part_addrs (first r) @ [root_addr r]) s"
proof -
  have "fold (\<lambda>p s. kfree s p) (part_addrs ps) s
      = fold (\<lambda>part s. kfree (kfree s (part_str_addr part)) (part_addr part)) ps s" for ps s
    by (induction ps arbitrary: s) (simp_all add: part_addrs_def)
  then show ?thesis by (simp add: pathparser_free_def)
qed

definition root_addrs :: "path_root \<Rightarrow> u32 list" where
  "root_addrs r = root_addr r # part_addrs (first r)"

text \<open>A path the parser accepts, given enough memory.\<close>

definition path_ok :: "cstring \<Rightarrow> bool" where
  "path_ok path \<longleftrightarrow> length (cstr path) \<le> RORTHOX_MAX_PATH \<and> pathparser_path_valid_format path"

lemma cstr_drop:
  assumes "n \<le> length (cstr path)"
  shows "cstr (drop n path) = drop n (cstr path)"
  using assms
proof (induction n arbitrary: path)
  case (Suc n)
  then show ?case by (cases path) (auto split: if_splits)
qed simp

lemma pathparser_parse_cases:
  assumes wf: "kmem_wf s" and low: "low_pool s" and p: "pathparser_parse s path = (r, s')"
  defines "cs \<equiv> path_components (drop 3 (cstr path))"
  shows "case r of
      None \<Rightarrow> \<not> (path_ok path \<and> 1 + 2 * length cs \<le> free_blocks s) \<and> kmem_wf s' \<and> klive s' = klive s
    | Some root \<Rightarrow> path_ok path \<and> 1 + 2 * length cs \<le> free_blocks s
        \<and> drive_no root = tonumericdigit (char_at path 0) \<and> map part_str (first root) = cs
        \<and> grows s s' (root_addrs root)"
proof (cases "path_ok path")
  case False
  then have "r = None" "s' = s"
    using p by (auto simp: path_ok_def pathparser_parse_def pathparser_get_drive_by_path_def strnlen_eq split: if_splits)
  then show ?thesis using False wf by simp
next
  case True
  let ?tmp = "drop 3 path"
  have len: "3 \<le> length (cstr path)" "length (cstr path) \<le> 108"
    using True by (simp_all add: path_ok_def pathparser_path_valid_format_def strnlen_eq Let_def RORTHOX_MAX_PATH_def)
  have tmp: "cstr ?tmp = drop 3 (cstr path)" using cstr_drop len by simp
  have tmpl: "length (cstr ?tmp) < RORTHOX_MAX_PATH" using len unfolding tmp length_drop RORTHOX_MAX_PATH_def by linarith
  obtain a s1 where k: "kzalloc s 8 = (a, s1)" by force
  have n: "heap_blocks 8 = 1" "heap_accepts 8" by (simp_all add: heap_blocks_def heap_accepts_def)
  note g0 = grows_refl [OF wf] and iff = grows_kzalloc_iff [OF grows_refl [OF wf] k n]
  let ?root = "\<lparr>root_addr = a, drive_no = tonumericdigit (char_at path 0), first = []\<rparr>"
  obtain w new rest s2 where f: "pathparser_parse_path_part s1 ?tmp = (w, new, rest, s2)" by (metis prod_cases4)
  obtain ok ps s3 where l: "pathparser_loop s1 [] ?tmp = (ok, ps, s3)" by (metis prod_cases3)
  have parse: "pathparser_parse s path = (if a = 0 then (None, s1)
      else if ok then (Some (?root\<lparr>first := ps\<rparr>), s3) else (None, pathparser_free s3 (Some (?root\<lparr>first := ps\<rparr>))))"
  proof -
    have "\<not> ISERR 0" by (simp add: ISERR_def)
    then show ?thesis
      using True k f l by (auto simp: pathparser_parse_def path_ok_def strnlen_eq pathparser_get_drive_by_path_def
          pathparser_create_root_def pathparser_loop.simps [of s1] split: prod.splits if_splits)
  qed
  show ?thesis
  proof (cases "a = 0")
    case a: True
    then show ?thesis using p parse iff grows_kzalloc_null [OF g0] k wf by (auto simp: cs_def)
  next
    case a: False
    have g1: "grows s s1 (a # part_addrs [])" using grows_kzalloc [OF g0 k a n] by (simp add: part_addrs_def)
    note c = pathparser_loop_cases [OF g1 low tmpl l, unfolded tmp, folded cs_def]
    show ?thesis
    proof (cases ok)
      case True
      then show ?thesis using p parse a c \<open>path_ok path\<close> by (auto simp: root_addrs_def)
    next
      case nok: False
      have fr: "s' = fold (\<lambda>p s. kfree s p) (part_addrs ps @ [a]) s3" "r = None"
        using p parse a nok by (simp_all add: pathparser_free_eq)
      have w3: "kmem_wf s3" "klive s3 = klive s \<union> (\<lambda>p. (p, 4096)) ` set (a # part_addrs ps)"
        "set (a # part_addrs ps) \<inter> kaddrs s = {}" using c nok by auto
      note fl = kpool.free_list [OF w3(1), of "part_addrs ps @ [a]", folded fr(1)]
      have "klive s' = klive s" using fl w3(2,3) by force
      then show ?thesis using fl fr(2) c nok by auto
    qed
  qed
qed

section \<open>Properties\<close>

text \<open>
  C17. Parsing. \<^verbatim>\<open>pathparser_parse\<close> succeeds exactly on a string of at most 108 characters of the form
  digit, colon, slash, ... for which enough blocks are free. The result has the drive number and the
  components between the slashes (up to the first empty one), in new allocations. When it fails,
  every block it took has been released.
\<close>

theorem pathparser_parse_correct:
  assumes "kmem_wf s" and "low_pool s" and "pathparser_parse s path = (r, s')"
  shows "case r of
      None \<Rightarrow> \<not> (path_ok path \<and> 1 + 2 * length (path_components (drop 3 (cstr path))) \<le> free_blocks s)
        \<and> kmem_wf s' \<and> klive s' = klive s
    | Some root \<Rightarrow> path_ok path \<and> drive_no root = tonumericdigit (char_at path 0)
        \<and> map part_str (first root) = path_components (drop 3 (cstr path))
        \<and> grows s s' (root_addrs root)"
  using pathparser_parse_cases [OF assms] by (auto split: option.splits)

lemma kmem_boot_low: "low_pool kmem_boot"
  by (simp add: low_pool_def kmem_boot_def)

text \<open>The path \<^verbatim>\<open>0:/bin/sh\<close>.\<close>

definition example_path :: cstring where
  "example_path = [48, 58, 47, 98, 105, 110, 47, 115, 104]"

lemma example_path_facts:
  "path_ok example_path" "path_components (drop 3 (cstr example_path)) = [[98, 105, 110], [115, 104]]"
  by code_simp+

theorem pathparser_parse_correct_witness:
  "\<exists>root s'. pathparser_parse kmem_boot example_path = (Some root, s') \<and> drive_no root = 0
     \<and> map part_str (first root) = [[98, 105, 110], [115, 104]]"
proof -
  obtain r s' where p: "pathparser_parse kmem_boot example_path = (r, s')" by force
  have d: "tonumericdigit (char_at example_path 0) = 0" by code_simp
  from pathparser_parse_correct [OF kmem_boot_wf kmem_boot_low p] p show ?thesis
    by (cases r) (auto simp: example_path_facts kmem_boot_free d)
qed

text \<open>
  C18. Round trip of allocation: releasing a parsed path with \<^verbatim>\<open>pathparser_free\<close> gives back exactly
  what parsing took.
\<close>

theorem pathparser_free_parse:
  assumes "kmem_wf s" and "low_pool s" and "pathparser_parse s path = (r, s')"
  shows "kmem_wf (pathparser_free s' r) \<and> klive (pathparser_free s' r) = klive s"
proof (cases r)
  case None
  then show ?thesis using pathparser_parse_cases [OF assms] by (simp add: pathparser_free_def)
next
  case (Some root)
  then have g: "grows s s' (root_addrs root)" using pathparser_parse_cases [OF assms] by simp
  have "set (part_addrs (first root) @ [root_addr root]) = set (root_addrs root)" by (auto simp: root_addrs_def)
  from grows_free_all [OF g this] Some show ?thesis by (simp add: pathparser_free_eq)
qed

theorem pathparser_free_parse_witness:
  "klive (pathparser_free (snd (pathparser_parse kmem_boot example_path)) (fst (pathparser_parse kmem_boot example_path))) = {}"
  using pathparser_free_parse [OF kmem_boot_wf kmem_boot_low, of example_path] kmem_boot_live
  by (cases "pathparser_parse kmem_boot example_path") simp

end
