(* ===== verification/Fat16_Layout.thy ===== *)
theory Fat16_Layout
  imports Streamer Path_Parser
begin

text \<open>
  The FAT16 file system, \<^verbatim>\<open>kernel/fs/fat/fat16.c\<close>: the structures on the disk and in memory, and the
  geometry of a volume. A structure in kernel memory is a record that carries the address of its
  allocation; the packed structures of the disk have a byte encoding.
\<close>

section \<open>Structures on the disk\<close>

definition RORTHOX_FAT16_SIGNATURE :: u8 where "RORTHOX_FAT16_SIGNATURE = 0x29"
definition RORTHOX_FAT16_FAT_ENTRY_SIZE :: int where "RORTHOX_FAT16_FAT_ENTRY_SIZE = 2"
definition RORTHOX_FAT16_BAD_SECTOR :: int where "RORTHOX_FAT16_BAD_SECTOR = 0xFFF7"
definition RORTHOX_FAT16_EOC_START :: int where "RORTHOX_FAT16_EOC_START = 0xFFF8"

definition FAT_FILE_READ_ONLY :: u8 where "FAT_FILE_READ_ONLY = 0x01"
definition FAT_FILE_VOLUME_LABEL :: u8 where "FAT_FILE_VOLUME_LABEL = 0x08"
definition FAT_FILE_SUBDIRECTORY :: u8 where "FAT_FILE_SUBDIRECTORY = 0x10"
definition FAT_FILE_ARCHIVED :: u8 where "FAT_FILE_ARCHIVED = 0x20"

definition le16 :: "u8 list \<Rightarrow> nat \<Rightarrow> u16" where
  "le16 bs i = bytes_word (bs ! i) (bs ! (i + 1))"

definition le32 :: "u8 list \<Rightarrow> nat \<Rightarrow> u32" where
  "le32 bs i = ucast (le16 bs i) OR push_bit 16 (ucast (le16 bs (i + 2)))"

definition put32 :: "u32 \<Rightarrow> u8 list" where
  "put32 w = word_bytes (ucast w) @ word_bytes (ucast (drop_bit 16 w))"

record fat_header =
  short_jmp_ins :: "u8 list"
  oem_identifier :: "u8 list"
  byte_per_secotr :: u16
  sectors_per_cluster :: u8
  reserved_sectors :: u16
  fat_copies :: u8
  root_dir_entries :: u16
  number_of_sectors :: u16
  media_type :: u8
  sectors_per_fat :: u16
  sectors_per_track :: u16
  number_of_heads :: u16
  hidden_sectors :: u32
  sectors_big :: u32

record fat_header_extended =
  drive_number :: u8
  win_nt_bit :: u8
  signatur :: u8
  volume_id :: u32
  volume_id_string :: "u8 list"
  system_id_string :: "u8 list"

record fat_h =
  primary_header :: fat_header
  extended_header :: fat_header_extended

definition fat_h_of :: "u8 list \<Rightarrow> fat_h" where
  "fat_h_of bs = \<lparr>primary_header = \<lparr>short_jmp_ins = take 3 bs, oem_identifier = take 8 (drop 3 bs),
       byte_per_secotr = le16 bs 11, sectors_per_cluster = bs ! 13, reserved_sectors = le16 bs 14,
       fat_copies = bs ! 16, root_dir_entries = le16 bs 17, number_of_sectors = le16 bs 19,
       media_type = bs ! 21, sectors_per_fat = le16 bs 22, sectors_per_track = le16 bs 24,
       number_of_heads = le16 bs 26, hidden_sectors = le32 bs 28, sectors_big = le32 bs 32\<rparr>,
     extended_header = \<lparr>drive_number = bs ! 36, win_nt_bit = bs ! 37, signatur = bs ! 38,
       volume_id = le32 bs 39, volume_id_string = take 11 (drop 43 bs), system_id_string = take 8 (drop 54 bs)\<rparr>\<rparr>"

record fat_directory_item =
  filename :: "u8 list"
  ext :: "u8 list"
  attribute :: u8
  reserved :: u8
  creation_time_tenths_of_a_sec :: u8
  creation_time :: u16
  creation_date :: u16
  last_access :: u16
  high_16_bits_first_cluster :: u16
  last_mod_time :: u16
  last_mod_date :: u16
  low_16_bits_first_cluster :: u16
  filesize :: u32

definition item_of :: "u8 list \<Rightarrow> fat_directory_item" where
  "item_of bs = \<lparr>filename = take 8 bs, ext = take 3 (drop 8 bs), attribute = bs ! 11, reserved = bs ! 12,
     creation_time_tenths_of_a_sec = bs ! 13, creation_time = le16 bs 14, creation_date = le16 bs 16,
     last_access = le16 bs 18, high_16_bits_first_cluster = le16 bs 20, last_mod_time = le16 bs 22,
     last_mod_date = le16 bs 24, low_16_bits_first_cluster = le16 bs 26, filesize = le32 bs 28\<rparr>"

definition item_bytes :: "fat_directory_item \<Rightarrow> u8 list" where
  "item_bytes i = filename i @ ext i @ [attribute i, reserved i, creation_time_tenths_of_a_sec i] @
     word_bytes (creation_time i) @ word_bytes (creation_date i) @ word_bytes (last_access i) @
     word_bytes (high_16_bits_first_cluster i) @ word_bytes (last_mod_time i) @ word_bytes (last_mod_date i) @
     word_bytes (low_16_bits_first_cluster i) @ put32 (filesize i)"

definition zero_item :: fat_directory_item where
  "zero_item = item_of (replicate 32 0)"

section \<open>Structures in memory\<close>

record fat_directory =
  dir_addr :: u32
  dir_item_addr :: u32
  dir_items :: "fat_directory_item list"
  dir_first_cluster :: int
  dir_total :: int
  dir_sector_pos :: int
  dir_ending_sector_pos :: int

text \<open>The union of \<^verbatim>\<open>struct fat_item\<close> with its type.\<close>

datatype fat_item_union = FileItem u32 fat_directory_item | DirectoryItem fat_directory

record fat_item =
  item_addr :: u32
  item_union :: fat_item_union
  entry_pos :: int

datatype FILE_MODE = FILE_MODE_READ | FILE_MODE_WRITE | FILE_MODE_APPEND | FILE_MODE_INVALID

datatype FILE_SEEK_MODE = SEEK_SET | SEEK_CUR | SEEK_END | SEEK_OTHER

record fat_file_descriptor =
  desc_addr :: u32
  desc_item :: fat_item
  desc_pos :: u32
  desc_mode :: FILE_MODE

record fat_private =
  private_addr :: u32
  header :: fat_h
  root_directory :: fat_directory
  cluster_read_stream :: "disk_stream option"
  fat_read_stream :: "disk_stream option"
  directory_stream :: "disk_stream option"
  descriptors :: "fat_file_descriptor list"
  write_ready :: bool
  mutation_disabled :: bool
  max_writable :: int

text \<open>
  What the file system works on: the kernel heap, the disk, and \<^verbatim>\<open>disk->fs_private\<close>.
\<close>

record 'd fs =
  kheap :: kmem
  fsdisk :: "'d disk"
  fs_private :: fat_private

abbreviation hdr :: "'d fs \<Rightarrow> fat_header" where
  "hdr s \<equiv> primary_header (header (fs_private s))"

section \<open>Geometry\<close>

text \<open>An \<^verbatim>\<open>int\<close> product that may leave the range of an \<^verbatim>\<open>int\<close>.\<close>

definition wrap_int :: "int \<Rightarrow> int" where
  "wrap_int x = sint (word_of_int x :: u32)"

definition fat16_sector_to_absolute :: "'d fs \<Rightarrow> int \<Rightarrow> int" where
  "fat16_sector_to_absolute s sector = wrap_int (sector * sector_size (fsdisk s))"

definition fat16_cluster_limit :: "'d fs \<Rightarrow> int" where
  "fat16_cluster_limit s =
     (let h = hdr s;
          sectors = (if number_of_sectors h \<noteq> 0 then uint (number_of_sectors h) else uint (sectors_big h));
          data = dir_ending_sector_pos (root_directory (fs_private s))
      in if sectors_per_cluster h = 0 \<or> sectors \<le> data then 0
         else let count = (sectors - data) div uint (sectors_per_cluster h);
                  entries = uint (sectors_per_fat h) * sector_size (fsdisk s) div 2
              in if count < 4085 \<or> count \<ge> 65525 \<or> count + 2 > entries then 0 else count + 1)"

definition fat16_valid_cluster :: "'d fs \<Rightarrow> int \<Rightarrow> bool" where
  "fat16_valid_cluster s cluster \<longleftrightarrow> cluster \<ge> 2 \<and> cluster \<le> fat16_cluster_limit s \<and>
     cluster \<noteq> RORTHOX_FAT16_BAD_SECTOR \<and> cluster < RORTHOX_FAT16_EOC_START"

definition fat16_cluster_to_sector :: "'d fs \<Rightarrow> int \<Rightarrow> int" where
  "fat16_cluster_to_sector s cluster =
     dir_ending_sector_pos (root_directory (fs_private s)) + (cluster - 2) * uint (sectors_per_cluster (hdr s))"

definition fat16_get_first_fat_sector :: "'d fs \<Rightarrow> int" where
  "fat16_get_first_fat_sector s = uint (reserved_sectors (hdr s))"

definition fat16_get_first_cluster :: "fat_directory_item \<Rightarrow> int" where
  "fat16_get_first_cluster i = uint (low_16_bits_first_cluster i)"

definition cluster_bytes :: "'d fs \<Rightarrow> int" where
  "cluster_bytes s = uint (sectors_per_cluster (hdr s)) * sector_size (fsdisk s)"

section \<open>Streams and file allocation table\<close>

datatype which_stream = ClusterStream | FatStream | DirectoryStream

definition stream_of :: "which_stream \<Rightarrow> 'd fs \<Rightarrow> disk_stream option" where
  "stream_of w s = (case w of ClusterStream \<Rightarrow> cluster_read_stream (fs_private s)
     | FatStream \<Rightarrow> fat_read_stream (fs_private s) | DirectoryStream \<Rightarrow> directory_stream (fs_private s))"

definition set_stream :: "which_stream \<Rightarrow> disk_stream option \<Rightarrow> 'd fs \<Rightarrow> 'd fs" where
  "set_stream w st s = s\<lparr>fs_private := (case w of
     ClusterStream \<Rightarrow> (fs_private s)\<lparr>cluster_read_stream := st\<rparr>
   | FatStream \<Rightarrow> (fs_private s)\<lparr>fat_read_stream := st\<rparr>
   | DirectoryStream \<Rightarrow> (fs_private s)\<lparr>directory_stream := st\<rparr>)\<rparr>"

text \<open>The stream operations on a stream of the file system; all three exist once a volume is mounted.\<close>

definition fs_seek :: "which_stream \<Rightarrow> int \<Rightarrow> 'd fs \<Rightarrow> unit result \<times> 'd fs" where
  "fs_seek w pos s = (case stream_of w s of
     None \<Rightarrow> (Inl EIO, s)
   | Some st \<Rightarrow> (let (r, st) = diskstreamer_seek st pos in (r, set_stream w (Some st) s)))"

definition fs_read :: "'d ports \<Rightarrow> which_stream \<Rightarrow> int \<Rightarrow> 'd fs \<Rightarrow> (unit result \<times> u8 list) \<times> 'd fs" where
  "fs_read io w len s = (case stream_of w s of
     None \<Rightarrow> ((Inl EIO, []), s)
   | Some st \<Rightarrow> (let (r, bs, st, k) = diskstreamer_read io st len (fsdisk s)
               in ((r, bs), set_stream w (Some st) (s\<lparr>fsdisk := k\<rparr>))))"

definition fs_write :: "'d ports \<Rightarrow> which_stream \<Rightarrow> u8 list \<Rightarrow> int \<Rightarrow> 'd fs \<Rightarrow> unit result \<times> 'd fs" where
  "fs_write io w bs len s =
     (let (r, st, k) = diskstreamer_write io (stream_of w s) (Some bs) len (fsdisk s)
      in (r, set_stream w st (s\<lparr>fsdisk := k\<rparr>)))"

text \<open>A read whose partial data is not used after a failure.\<close>

definition fs_read_all :: "'d ports \<Rightarrow> which_stream \<Rightarrow> int \<Rightarrow> 'd fs \<Rightarrow> u8 list result \<times> 'd fs" where
  "fs_read_all io w len s =
     (let ((r, bs), s) = fs_read io w len s in (case r of Inl e \<Rightarrow> Inl e | Inr _ \<Rightarrow> Inr bs, s))"

definition fat16_get_fat_entry :: "'d ports \<Rightarrow> int \<Rightarrow> 'd fs \<Rightarrow> int result \<times> 'd fs" where
  "fat16_get_fat_entry io cluster s =
     (if fat_read_stream (fs_private s) = None then (Inl EIO, s)
      else let fat_table_position = fat16_get_first_fat_sector s * sector_size (fsdisk s)
           in and_then (fs_seek FatStream (fat_table_position + cluster * RORTHOX_FAT16_FAT_ENTRY_SIZE) s) (\<lambda>_ s.
              and_then (fs_read_all io FatStream 2 s) (\<lambda>bs s. (Inr (uint (le16 bs 0)), s))))"

end
