(* ===== verification/Fat16_Mount.thy ===== *)
theory Fat16_Mount
  imports Fat16_Layout
begin

text \<open>
  FAT16, second part: the directory cursor, the root directory, and mounting a volume
  (\<^verbatim>\<open>fat16_resolve\<close>).
\<close>

section \<open>Kernel memory\<close>

definition fs_kzalloc :: "u32 \<Rightarrow> 'd fs \<Rightarrow> u32 \<times> 'd fs" where
  "fs_kzalloc sz s = (let (p, m) = kzalloc (kheap s) sz in (p, s\<lparr>kheap := m\<rparr>))"

definition fs_kfree :: "u32 \<Rightarrow> 'd fs \<Rightarrow> 'd fs" where
  "fs_kfree p s = s\<lparr>kheap := kfree (kheap s) p\<rparr>"

section \<open>The directory cursor\<close>

record fat_directory_cursor =
  cur_cluster :: int
  cur_sector :: int
  cur_slots :: int
  cur_index :: int
  cur_clusters :: int
  cur_loaded_sector :: int
  cur_buffer :: "u8 list"

definition fat16_directory_start :: "int \<Rightarrow> 'd fs \<Rightarrow> fat_directory_cursor result" where
  "fat16_directory_start cluster s =
     (let cursor = \<lparr>cur_cluster = cluster, cur_sector = 0, cur_slots = 0, cur_index = 0, cur_clusters = 0,
                    cur_loaded_sector = -1, cur_buffer = replicate RORTHOX_SECTOR_SIZE 0\<rparr>
      in if cluster \<noteq> 0
         then if \<not> fat16_valid_cluster s cluster then Inl EIO
              else Inr (cursor\<lparr>cur_sector := fat16_cluster_to_sector s cluster,
                               cur_slots := cluster_bytes s div 32, cur_clusters := 1\<rparr>)
         else Inr (cursor\<lparr>cur_sector := dir_sector_pos (root_directory (fs_private s)),
                          cur_slots := uint (root_dir_entries (hdr s))\<rparr>))"

text \<open>The 64-bit byte position of the slot the cursor stands on.\<close>

definition cursor_location :: "fat_directory_cursor \<Rightarrow> 'd fs \<Rightarrow> int" where
  "cursor_location cursor s = (cur_sector cursor * sector_size (fsdisk s) + cur_index cursor * 32) mod 2 ^ 64"

text \<open>At the end of a cluster the cursor moves to the next one of the chain; None is the end.\<close>

definition directory_advance ::
  "'d ports \<Rightarrow> fat_directory_cursor \<Rightarrow> 'd fs \<Rightarrow> fat_directory_cursor option result \<times> 'd fs" where
  "directory_advance io cursor s =
     (if cur_index cursor = cur_slots cursor
      then if cur_cluster cursor = 0 then (Inr None, s)
           else and_then (fat16_get_fat_entry io (cur_cluster cursor) s) (\<lambda>next s.
             if next \<ge> RORTHOX_FAT16_EOC_START then (Inr None, s)
             else if \<not> fat16_valid_cluster s next \<or> cur_clusters cursor + 1 > fat16_cluster_limit s - 1
             then (Inl EIO, s)
             else (Inr (Some (cursor\<lparr>cur_clusters := cur_clusters cursor + 1, cur_cluster := next,
                     cur_sector := fat16_cluster_to_sector s next, cur_index := 0\<rparr>)), s))
      else (Inr (Some cursor), s))"

text \<open>The slot under the cursor, from the copy of the root directory or from its sector.\<close>

definition directory_fetch ::
  "'d ports \<Rightarrow> fat_directory_cursor \<Rightarrow> int \<Rightarrow> 'd fs \<Rightarrow> (fat_directory_item \<times> fat_directory_cursor) result \<times> 'd fs" where
  "directory_fetch io cursor pos s =
     (if cur_cluster cursor = 0
      then (Inr (dir_items (root_directory (fs_private s)) ! nat (cur_index cursor), cursor), s)
      else let sector = pos div sector_size (fsdisk s); offset = nat (pos mod sector_size (fsdisk s))
           in if cur_loaded_sector cursor \<noteq> sector
              then and_then (fs_seek DirectoryStream (sector * sector_size (fsdisk s)) s) (\<lambda>_ s.
                   and_then (fs_read_all io DirectoryStream (sector_size (fsdisk s)) s) (\<lambda>bs s.
                     (Inr (item_of (take 32 (drop offset bs)),
                           cursor\<lparr>cur_buffer := bs, cur_loaded_sector := sector\<rparr>), s)))
              else (Inr (item_of (take 32 (drop offset (cur_buffer cursor))), cursor), s))"

definition fat16_directory_next ::
  "'d ports \<Rightarrow> fat_directory_cursor \<Rightarrow> 'd fs \<Rightarrow> (fat_directory_item \<times> int \<times> fat_directory_cursor) option result \<times> 'd fs" where
  "fat16_directory_next io cursor s = and_then (directory_advance io cursor s) (\<lambda>oc s.
     case oc of
       None \<Rightarrow> (Inr None, s)
     | Some cursor \<Rightarrow>
         let location = cursor_location cursor s
         in if location > INT_MAX - 32 then (Inl EIO, s)
            else and_then (directory_fetch io cursor location s) (\<lambda>(entry, cursor) s.
              (Inr (Some (entry, location, cursor\<lparr>cur_index := cur_index cursor + 1\<rparr>)), s)))"

text \<open>The count of the items before the first free slot; \<open>left\<close> is what remains of the limit on the count.\<close>

fun total_items_loop :: "nat \<Rightarrow> 'd ports \<Rightarrow> fat_directory_cursor \<Rightarrow> int \<Rightarrow> 'd fs \<Rightarrow> int result \<times> 'd fs" where
  "total_items_loop left io cursor n s = and_then (fat16_directory_next io cursor s) (\<lambda>o1 s.
     case o1 of
       None \<Rightarrow> (Inr n, s)
     | Some (entry, pos, cursor) \<Rightarrow>
         if filename entry ! 0 = 0 then (Inr n, s)
         else (case left of
                 0 \<Rightarrow> (Inl EIO, s)
               | Suc left \<Rightarrow> total_items_loop left io cursor (n + 1) s))"

declare total_items_loop.simps [simp del]

definition fat16_get_total_items_for_directory :: "'d ports \<Rightarrow> int \<Rightarrow> 'd fs \<Rightarrow> int result \<times> 'd fs" where
  "fat16_get_total_items_for_directory io directory_start_sector s =
     (let data = dir_ending_sector_pos (root_directory (fs_private s));
          sectors = uint (sectors_per_cluster (hdr s))
      in if sectors = 0 \<or> directory_start_sector < data \<or> (directory_start_sector - data) mod sectors \<noteq> 0
         then (Inl EIO, s)
         else let cluster = 2 + (directory_start_sector - data) div sectors
              in if \<not> fat16_valid_cluster s cluster then (Inl EIO, s)
                 else case fat16_directory_start cluster s of
                        Inl e \<Rightarrow> (Inl e, s)
                      | Inr cursor \<Rightarrow> total_items_loop (nat (INT_MAX div 32)) io cursor 0 s)"

section \<open>Mounting\<close>

definition new_stream :: "which_stream \<Rightarrow> 'd fs \<Rightarrow> bool \<times> 'd fs" where
  "new_stream w s =
     (let (st, m) = diskstreamer_new (disk_id (fsdisk s)) (kheap s)
      in (st \<noteq> None, set_stream w st (s\<lparr>kheap := m\<rparr>)))"

definition fat16_init_private :: "'d fs \<Rightarrow> unit result \<times> 'd fs" where
  "fat16_init_private s =
     (let s = s\<lparr>fs_private := (fs_private s)\<lparr>header := fat_h_of (replicate 62 0),
             root_directory := \<lparr>dir_addr = 0, dir_item_addr = 0, dir_items = [], dir_first_cluster = 0,
               dir_total = 0, dir_sector_pos = 0, dir_ending_sector_pos = 0\<rparr>,
             cluster_read_stream := None, fat_read_stream := None, directory_stream := None,
             descriptors := [], write_ready := False, mutation_disabled := False, max_writable := 0\<rparr>\<rparr>;
          (ok, s) = new_stream ClusterStream s
      in if \<not> ok then (Inl ENOMEM, s)
         else let (ok, s) = new_stream FatStream s
              in if \<not> ok then (Inl ENOMEM, s)
                 else let (ok, s) = new_stream DirectoryStream s
                      in if \<not> ok then (Inl ENOMEM, s) else (Inr (), s))"

fun items_of :: "nat \<Rightarrow> u8 list \<Rightarrow> fat_directory_item list" where
  "items_of 0 bs = []"
| "items_of (Suc n) bs = item_of (take 32 bs) # items_of n (drop 32 bs)"

definition leading_items :: "fat_directory_item list \<Rightarrow> nat" where
  "leading_items items = length (takeWhile (\<lambda>i. filename i ! 0 \<noteq> 0) items)"

definition fat16_get_root_directory :: "'d ports \<Rightarrow> 'd fs \<Rightarrow> unit result \<times> 'd fs" where
  "fat16_get_root_directory io s =
     (let h = hdr s;
          root_dir_sector_pos = uint (fat_copies h) * uint (sectors_per_fat h) + uint (reserved_sectors h);
          entries = uint (root_dir_entries h);
          root_dir_size = entries * 32;
          total_sectors = root_dir_size div sector_size (fsdisk s) +
            (if root_dir_size mod sector_size (fsdisk s) \<noteq> 0 then 1 else 0);
          (dir, s) = fs_kzalloc (word_of_int root_dir_size) s
      in if dir = 0 then (Inl ENOMEM, s)
         else case fs_seek DirectoryStream (fat16_sector_to_absolute s root_dir_sector_pos) s of
                (Inl _, s) \<Rightarrow> (Inl EIO, fs_kfree dir s)
              | (Inr _, s) \<Rightarrow>
                  (case fs_read_all io DirectoryStream root_dir_size s of
                     (Inl _, s) \<Rightarrow> (Inl EIO, fs_kfree dir s)
                   | (Inr bs, s) \<Rightarrow>
                       let items = items_of (nat entries) bs
                       in (Inr (), s\<lparr>fs_private := (fs_private s)\<lparr>root_directory :=
                            (root_directory (fs_private s))\<lparr>dir_item_addr := dir, dir_items := items,
                              dir_total := int (leading_items items), dir_sector_pos := root_dir_sector_pos,
                              dir_ending_sector_pos := root_dir_sector_pos + total_sectors\<rparr>\<rparr>\<rparr>)))"

text \<open>
  \<^verbatim>\<open>fat16_resolve\<close>: the state of the volume, or what is left after an error. \<^verbatim>\<open>fs_private\<close> and \<^verbatim>\<open>filesystem\<close>
  of the disk are set exactly after a success, so they are the result.
\<close>

definition close_stream :: "disk_stream option \<Rightarrow> 'd fs \<Rightarrow> 'd fs" where
  "close_stream st s = (case st of None \<Rightarrow> s | Some st \<Rightarrow> s\<lparr>kheap := diskstreamer_close st (kheap s)\<rparr>)"

definition resolve_fail :: "'d fs \<Rightarrow> 'd fs" where
  "resolve_fail s =
     (let p = fs_private s;
          s = fs_kfree (dir_item_addr (root_directory p)) s;
          s = close_stream (directory_stream p) s;
          s = close_stream (fat_read_stream p) s;
          s = close_stream (cluster_read_stream p) s
      in fs_kfree (private_addr p) s)"

definition fat16_resolve :: "'d ports \<Rightarrow> 'd fs \<Rightarrow> unit result \<times> 'd fs" where
  "fat16_resolve io s =
     (let (private, s) = fs_kzalloc 112 s
      in if private = 0 then (Inl ENOMEM, s)
         else case fat16_init_private (s\<lparr>fs_private := (fs_private s)\<lparr>private_addr := private\<rparr>\<rparr>) of
                (Inl e, s) \<Rightarrow> (Inl e, resolve_fail s)
              | (Inr _, s) \<Rightarrow>
                  let (stream, m) = diskstreamer_new (disk_id (fsdisk s)) (kheap s);
                      s = s\<lparr>kheap := m\<rparr>
                  in (case stream of
                       None \<Rightarrow> (Inl ENOMEM, resolve_fail s)
                     | Some st \<Rightarrow>
                         let (r, bs, st, k) = diskstreamer_read io st 62 (fsdisk s);
                             s = s\<lparr>fsdisk := k\<rparr>
                         in (case r of
                              Inl _ \<Rightarrow> (Inl EIO, resolve_fail (close_stream (Some st) s))
                            | Inr _ \<Rightarrow>
                                let s = s\<lparr>fs_private := (fs_private s)\<lparr>header := fat_h_of bs\<rparr>\<rparr>
                                in if signatur (extended_header (header (fs_private s))) \<noteq> 0x29
                                   then (Inl EFSNOTUS, resolve_fail (close_stream (Some st) s))
                                   else (case fat16_get_root_directory io s of
                                          (Inl _, s) \<Rightarrow> (Inl EIO, resolve_fail (close_stream (Some st) s))
                                        | (Inr _, s) \<Rightarrow> (Inr (), close_stream (Some st) s)))))"

end
