(* ===== verification/Fat16_Read.thy ===== *)
theory Fat16_Read
  imports Fat16_Mount
begin

text \<open>
  FAT16, third part: names, cluster chains, reading a file, looking up a path.
\<close>

section \<open>Names\<close>

text \<open>Copies up to a space or NUL, at most \<open>sz\<close> characters; \<open>i\<close> counts them.\<close>

fun fat16_to_proper_string :: "u8 list \<Rightarrow> nat \<Rightarrow> nat \<Rightarrow> u8 list" where
  "fat16_to_proper_string [] i sz = []"
| "fat16_to_proper_string (c # inp) i sz =
     (if c = 0x00 \<or> c = 0x20 then []
      else c # (if i \<ge> sz - 1 then [] else fat16_to_proper_string inp (i + 1) sz))"

text \<open>The C string that is left in the zeroed output buffer.\<close>

definition fat16_get_full_relative_filename :: "fat_directory_item \<Rightarrow> cstring" where
  "fat16_get_full_relative_filename i =
     fat16_to_proper_string (filename i) 0 8 @
     (if ext i ! 0 \<noteq> 0x00 \<and> ext i ! 0 \<noteq> 0x20 then 46 # fat16_to_proper_string (ext i) 0 3 else [])"

definition fat_16_clone_directory_item :: "fat_directory_item \<Rightarrow> int \<Rightarrow> 'd fs \<Rightarrow> u32 \<times> 'd fs" where
  "fat_16_clone_directory_item i sz s =
     (if sz < 32 then (0, s) else fs_kzalloc (word_of_int sz) s)"

section \<open>Cluster chains\<close>

fun cluster_ahead :: "nat \<Rightarrow> 'd ports \<Rightarrow> int \<Rightarrow> 'd fs \<Rightarrow> int result \<times> 'd fs" where
  "cluster_ahead 0 io cluster s = (Inr cluster, s)"
| "cluster_ahead (Suc n) io cluster s = and_then (fat16_get_fat_entry io cluster s) (\<lambda>next s.
     if \<not> fat16_valid_cluster s next then (Inl EIO, s) else cluster_ahead n io next s)"

definition fat16_get_cluster_for_offset :: "'d ports \<Rightarrow> int \<Rightarrow> int \<Rightarrow> 'd fs \<Rightarrow> int result \<times> 'd fs" where
  "fat16_get_cluster_for_offset io starting_cluster offset s =
     (let bs = cluster_bytes s
      in if offset < 0 \<or> bs = 0 \<or> \<not> fat16_valid_cluster s starting_cluster then (Inl EIO, s)
         else let ahead = offset div bs
              in if ahead \<ge> fat16_cluster_limit s - 1 then (Inl EIO, s)
                 else cluster_ahead (nat ahead) io starting_cluster s)"

text \<open>
  The loop of a read. \<open>bs \<le> within\<close> never holds: the position inside a cluster is smaller than the
  cluster, which is not empty.
\<close>

function read_internal_loop ::
  "'d ports \<Rightarrow> which_stream \<Rightarrow> int \<Rightarrow> int \<Rightarrow> int \<Rightarrow> int \<Rightarrow> int \<Rightarrow> 'd fs \<Rightarrow> (unit result \<times> u8 list) \<times> 'd fs" where
  "read_internal_loop io w bs current within traversed len s =
     (if len \<le> 0 \<or> bs \<le> within then ((Inr (), []), s)
      else let part = (if bs - within > len then len else bs - within);
               pos = fat16_cluster_to_sector s current * sector_size (fsdisk s) + within
           in if pos mod 2 ^ 64 > INT_MAX \<or> part > INT_MAX - pos mod 2 ^ 64 then ((Inl EIO, []), s)
              else case fs_seek w (pos mod 2 ^ 64) s of
                     (Inl e, s) \<Rightarrow> ((Inl e, []), s)
                   | (Inr _, s) \<Rightarrow>
                       (case fs_read io w part s of
                          ((Inl e, out), s) \<Rightarrow> ((Inl e, out), s)
                        | ((Inr _, out), s) \<Rightarrow>
                            if len - part = 0 then ((Inr (), out), s)
                            else (case fat16_get_fat_entry io current s of
                                    (Inl e, s) \<Rightarrow> ((Inl e, out), s)
                                  | (Inr next, s) \<Rightarrow>
                                      if \<not> fat16_valid_cluster s next \<or> traversed + 1 > fat16_cluster_limit s - 1
                                      then ((Inl EIO, out), s)
                                      else let ((r, rest), s) = read_internal_loop io w bs next 0 (traversed + 1) (len - part) s
                                           in ((r, out @ rest), s))))"
  by pat_completeness auto

termination
  by (relation "measure (\<lambda>(io, w, bs, current, within, traversed, len, s). nat len)") auto

declare read_internal_loop.simps [simp del]

definition fat16_read_internal_from_stream ::
  "'d ports \<Rightarrow> which_stream \<Rightarrow> int \<Rightarrow> int \<Rightarrow> int \<Rightarrow> 'd fs \<Rightarrow> (unit result \<times> u8 list) \<times> 'd fs" where
  "fat16_read_internal_from_stream io w cluster offset len s =
     (let bs = cluster_bytes s
      in if len < 0 \<or> offset < 0 \<or> len > INT_MAX - offset \<or> bs = 0 then ((Inl EIO, []), s)
         else case fat16_get_cluster_for_offset io cluster offset s of
                (Inl e, s) \<Rightarrow> ((Inl e, []), s)
              | (Inr current, s) \<Rightarrow>
                  read_internal_loop io w bs current (offset mod bs) (offset div bs + 1) len s)"

definition fat16_read_internal ::
  "'d ports \<Rightarrow> int \<Rightarrow> int \<Rightarrow> int \<Rightarrow> 'd fs \<Rightarrow> (unit result \<times> u8 list) \<times> 'd fs" where
  "fat16_read_internal io starting_cluster offset len s =
     fat16_read_internal_from_stream io ClusterStream starting_cluster offset len s"

section \<open>Directories and items\<close>

definition fat16_free_directory :: "fat_directory option \<Rightarrow> 'd fs \<Rightarrow> 'd fs" where
  "fat16_free_directory directory s = (case directory of
     None \<Rightarrow> s
   | Some d \<Rightarrow> fs_kfree (dir_addr d) (if dir_item_addr d \<noteq> 0 then fs_kfree (dir_item_addr d) s else s))"

definition fat16_fat_item_free :: "fat_item \<Rightarrow> 'd fs \<Rightarrow> 'd fs" where
  "fat16_fat_item_free i s =
     fs_kfree (item_addr i) (case item_union i of
       DirectoryItem d \<Rightarrow> fat16_free_directory (Some d) s
     | FileItem p _ \<Rightarrow> fs_kfree p s)"

text \<open>The items of a directory of \<open>n\<close> slots.\<close>

fun load_items :: "nat \<Rightarrow> 'd ports \<Rightarrow> fat_directory_cursor \<Rightarrow> 'd fs \<Rightarrow> fat_directory_item list result \<times> 'd fs" where
  "load_items 0 io cursor s = (Inr [], s)"
| "load_items (Suc n) io cursor s = (case fat16_directory_next io cursor s of
     (Inr (Some (entry, pos, cursor)), s) \<Rightarrow>
       and_then (load_items n io cursor s) (\<lambda>es s. (Inr (entry # es), s))
   | (_, s) \<Rightarrow> (Inl EIO, s))"

definition fat16_load_fat_directory :: "'d ports \<Rightarrow> fat_directory_item \<Rightarrow> 'd fs \<Rightarrow> fat_directory option \<times> 'd fs" where
  "fat16_load_fat_directory io i s =
     (if attribute i AND FAT_FILE_SUBDIRECTORY = 0 then (None, s)
      else let (p, s) = fs_kzalloc 20 s
           in if p = 0 then (None, s)
              else let d = \<lparr>dir_addr = p, dir_item_addr = 0, dir_items = [], dir_first_cluster = 0, dir_total = 0,
                            dir_sector_pos = 0, dir_ending_sector_pos = 0\<rparr>;
                       cluster = fat16_get_first_cluster i
                   in if \<not> fat16_valid_cluster s cluster then (None, fat16_free_directory (Some d) s)
                      else let d = d\<lparr>dir_first_cluster := cluster\<rparr>
                           in case fat16_get_total_items_for_directory io (fat16_cluster_to_sector s cluster) s of
                                (Inl e, s) \<Rightarrow> (None, fat16_free_directory (Some d) s)
                              | (Inr total_items, s) \<Rightarrow>
                                  if total_items > 0x7FFFFFFF div 32 then (None, fat16_free_directory (Some d) s)
                                  else let d = d\<lparr>dir_total := total_items\<rparr>
                                       in if total_items = 0 then (Some d, s)
                                          else let (q, s) = fs_kzalloc (word_of_int (total_items * 32)) s
                                               in if q = 0 then (None, fat16_free_directory (Some d) s)
                                                  else let d = d\<lparr>dir_item_addr := q\<rparr>
                                                       in (case fat16_directory_start cluster s of
                                                            Inl e \<Rightarrow> (None, fat16_free_directory (Some d) s)
                                                          | Inr cursor \<Rightarrow>
                                                              (case load_items (nat total_items) io cursor s of
                                                                 (Inl e, s) \<Rightarrow> (None, fat16_free_directory (Some d) s)
                                                               | (Inr es, s) \<Rightarrow> (Some (d\<lparr>dir_items := es\<rparr>), s))))"

definition fat16_new_fat_item_for_directory_item :: "'d ports \<Rightarrow> fat_directory_item \<Rightarrow> 'd fs \<Rightarrow> fat_item option \<times> 'd fs" where
  "fat16_new_fat_item_for_directory_item io i s =
     (let (p, s) = fs_kzalloc 12 s
      in if p = 0 then (None, s)
         else if attribute i AND FAT_FILE_SUBDIRECTORY \<noteq> 0
         then case fat16_load_fat_directory io i s of
                (None, s) \<Rightarrow> (None, fs_kfree p s)
              | (Some d, s) \<Rightarrow> (Some \<lparr>item_addr = p, item_union = DirectoryItem d, entry_pos = 0\<rparr>, s)
         else let (q, s) = fat_16_clone_directory_item i 32 s
              in if q = 0 then (None, fs_kfree p s)
                 else (Some \<lparr>item_addr = p, item_union = FileItem q i, entry_pos = 0\<rparr>, s))"

text \<open>The position of entry number \<open>i\<close> of a directory on the disk.\<close>

definition entry_location :: "'d ports \<Rightarrow> fat_directory \<Rightarrow> int \<Rightarrow> 'd fs \<Rightarrow> int result \<times> 'd fs" where
  "entry_location io directory i s =
     (if dir_first_cluster directory \<noteq> 0
      then and_then (fat16_get_cluster_for_offset io (dir_first_cluster directory) (i * 32) s) (\<lambda>cluster s.
        let location = (fat16_cluster_to_sector s cluster * sector_size (fsdisk s) + i * 32 mod cluster_bytes s) mod 2 ^ 64
        in if location > INT_MAX - 32 then (Inl EIO, s) else (Inr location, s))
      else (Inr (wrap_int (dir_sector_pos directory * sector_size (fsdisk s) + i * 32)), s))"

text \<open>A slot that a lookup skips: deleted, or a volume label (long names have that attribute too).\<close>

definition entry_skipped :: "fat_directory_item \<Rightarrow> bool" where
  "entry_skipped e \<longleftrightarrow> filename e ! 0 = 0xE5 \<or> attribute e AND FAT_FILE_VOLUME_LABEL \<noteq> 0"

fun find_loop :: "'d ports \<Rightarrow> fat_directory \<Rightarrow> cstring \<Rightarrow> int \<Rightarrow> fat_directory_item list \<Rightarrow> 'd fs \<Rightarrow> fat_item result \<times> 'd fs" where
  "find_loop io directory name i [] s = (Inl ENOENT, s)"
| "find_loop io directory name i (e # es) s =
     (if filename e ! 0 = 0x00 then (Inl ENOENT, s)
      else if entry_skipped e then find_loop io directory name (i + 1) es s
      else if istrncmp (fat16_get_full_relative_filename e) name RORTHOX_MAX_PATH = 0
      then and_then (entry_location io directory i s) (\<lambda>pos s.
        case fat16_new_fat_item_for_directory_item io e s of
          (None, s) \<Rightarrow> (Inl EIO, s)
        | (Some f_item, s) \<Rightarrow> (Inr (f_item\<lparr>entry_pos := pos\<rparr>), s))
      else find_loop io directory name (i + 1) es s)"

definition fat16_find_item_in_directory :: "'d ports \<Rightarrow> fat_directory \<Rightarrow> cstring \<Rightarrow> 'd fs \<Rightarrow> fat_item result \<times> 'd fs" where
  "fat16_find_item_in_directory io directory name s =
     find_loop io directory name 0 (take (nat (dir_total directory)) (dir_items directory)) s"

fun descend :: "'d ports \<Rightarrow> fat_item \<Rightarrow> path_part list \<Rightarrow> 'd fs \<Rightarrow> fat_item result \<times> 'd fs" where
  "descend io current_item [] s = (Inr current_item, s)"
| "descend io current_item (next_part # parts) s = (case item_union current_item of
     FileItem _ _ \<Rightarrow> (Inl EIO, fat16_fat_item_free current_item s)
   | DirectoryItem d \<Rightarrow>
       let (tmp_item, s) = fat16_find_item_in_directory io d (part_str next_part) s;
           s = fat16_fat_item_free current_item s
       in (case tmp_item of
            Inl e \<Rightarrow> (Inl e, s)
          | Inr i \<Rightarrow> descend io i parts s))"

definition fat16_get_directory_entry :: "'d ports \<Rightarrow> path_part list \<Rightarrow> 'd fs \<Rightarrow> fat_item result \<times> 'd fs" where
  "fat16_get_directory_entry io path s =
     and_then (fat16_find_item_in_directory io (root_directory (fs_private s)) (part_str (hd path)) s)
       (\<lambda>root_item s. descend io root_item (tl path) s)"

end
