(* ===== verification/Fat16_Write.thy ===== *)
theory Fat16_Write
  imports Fat16_Read
begin

text \<open>
  FAT16, fourth part: everything that changes the volume. The order of the sector writes and cache
  flushes is the order of the source, so that a theorem about the contents of the disk is also one
  about every point where a write can fail.
\<close>

section \<open>Checks before the first change\<close>

definition fs_read_block :: "'d ports \<Rightarrow> int \<Rightarrow> 'd fs \<Rightarrow> u8 list result \<times> 'd fs" where
  "fs_read_block io lba s =
     (let (r, k) = disk_read_block io (Some ()) (word_of_int lba) 1 False (fsdisk s) in (r, s\<lparr>fsdisk := k\<rparr>))"

fun compare_fats :: "nat \<Rightarrow> 'd ports \<Rightarrow> int \<Rightarrow> 'd fs \<Rightarrow> unit result \<times> 'd fs" where
  "compare_fats 0 io i s = (Inr (), s)"
| "compare_fats (Suc n) io i s =
     and_then (fs_read_block io (uint (reserved_sectors (hdr s)) + i) s) (\<lambda>fst_copy s.
     and_then (fs_read_block io (uint (reserved_sectors (hdr s)) + uint (sectors_per_fat (hdr s)) + i) s) (\<lambda>snd_copy s.
       if fst_copy \<noteq> snd_copy then (Inl EIO, s) else compare_fats n io (i + 1) s))"

definition geometry_refused :: "int \<Rightarrow> 'd fs \<Rightarrow> bool" where
  "geometry_refused capacity s \<longleftrightarrow>
     (let h = hdr s;
          root = uint (reserved_sectors h) + uint (fat_copies h) * uint (sectors_per_fat h);
          data = root + (uint (root_dir_entries h) * 32 + 511) div 512
      in sector_size (fsdisk s) \<noteq> 512 \<or> byte_per_secotr h \<noteq> 512 \<or>
         sectors_per_cluster h = 0 \<or> sectors_per_cluster h AND (sectors_per_cluster h - 1) \<noteq> 0 \<or>
         fat_copies h \<noteq> 2 \<or> reserved_sectors h = 0 \<or> sectors_per_fat h = 0 \<or>
         root_dir_entries h = 0 \<or> hidden_sectors h \<noteq> 0 \<or> fat16_cluster_limit s = 0 \<or>
         data \<noteq> dir_ending_sector_pos (root_directory (fs_private s)) \<or> data > capacity \<or> data * 512 > INT_MAX)"

definition writable_clusters :: "int \<Rightarrow> 'd fs \<Rightarrow> int" where
  "writable_clusters capacity s =
     (let data = dir_ending_sector_pos (root_directory (fs_private s));
          sectors = (if capacity > INT_MAX div 512 then INT_MAX div 512 else capacity);
          sectors = (if sectors > 0x10000000 then 0x10000000 else sectors);
          available = (if sectors > data then (sectors - data) div uint (sectors_per_cluster (hdr s)) else 0)
      in if available + 1 < fat16_cluster_limit s then available + 1 else fat16_cluster_limit s)"

definition fat16_prepare_write :: "'d ports \<Rightarrow> 'd fs \<Rightarrow> unit result \<times> 'd fs" where
  "fat16_prepare_write io s =
     (if mutation_disabled (fs_private s) then (Inl EIO, s)
      else if write_ready (fs_private s) then (Inr (), s)
      else let (r, k) = disk_write_capacity io (Some ()) False (fsdisk s); s = s\<lparr>fsdisk := k\<rparr>
           in case r of
                Inl e \<Rightarrow> (Inl e, s)
              | Inr capacity \<Rightarrow>
                  if geometry_refused (uint capacity) s then (Inl EIO, s)
                  else let s = s\<lparr>fs_private := (fs_private s)\<lparr>max_writable := writable_clusters (uint capacity) s\<rparr>\<rparr>
                       in and_then (compare_fats (unat (sectors_per_fat (hdr s))) io 0 s) (\<lambda>_ s.
                            (Inr (), s\<lparr>fs_private := (fs_private s)\<lparr>write_ready := True\<rparr>\<rparr>)))"

section \<open>Single changes\<close>

definition disable_mutation :: "'d fs \<Rightarrow> 'd fs" where
  "disable_mutation s = s\<lparr>fs_private := (fs_private s)\<lparr>mutation_disabled := True\<rparr>\<rparr>"

definition fat16_write_at :: "'d ports \<Rightarrow> int \<Rightarrow> u8 list \<Rightarrow> int \<Rightarrow> 'd fs \<Rightarrow> unit result \<times> 'd fs" where
  "fat16_write_at io pos data len s =
     (let (res, s) = and_then (fs_seek DirectoryStream pos s) (\<lambda>_ s. fs_write io DirectoryStream data len s)
      in case res of
           Inl e \<Rightarrow>
             (Inl EIO, if e \<noteq> EINVARG \<or> map_option stream_pos (directory_stream (fs_private s)) \<noteq> Some pos
                       then disable_mutation s else s)
         | Inr _ \<Rightarrow> (Inr (), s))"

definition fat16_flush :: "'d ports \<Rightarrow> 'd fs \<Rightarrow> unit result \<times> 'd fs" where
  "fat16_flush io s =
     (let (r, k) = disk_flush io (Some ()) (fsdisk s); s = s\<lparr>fsdisk := k\<rparr>
      in case r of Inl _ \<Rightarrow> (Inl EIO, disable_mutation s) | Inr _ \<Rightarrow> (Inr (), s))"

definition fat_entry_pos :: "int \<Rightarrow> int \<Rightarrow> 'd fs \<Rightarrow> int" where
  "fat_entry_pos copy cluster s =
     (uint (reserved_sectors (hdr s)) + copy * uint (sectors_per_fat (hdr s))) * sector_size (fsdisk s) + cluster * 2"

definition fat16_set_entry :: "'d ports \<Rightarrow> int \<Rightarrow> int \<Rightarrow> u16 \<Rightarrow> 'd fs \<Rightarrow> unit result \<times> 'd fs" where
  "fat16_set_entry io copy cluster val s = fat16_write_at io (fat_entry_pos copy cluster s) (word_bytes val) 2 s"

definition publish_root :: "int \<Rightarrow> fat_directory_item \<Rightarrow> 'd fs \<Rightarrow> 'd fs" where
  "publish_root pos i s =
     (let root = root_directory (fs_private s);
          offset = pos - dir_sector_pos root * sector_size (fsdisk s)
      in if offset \<ge> 0 \<and> offset < uint (root_dir_entries (hdr s)) * 32 \<and> offset mod 32 = 0
         then let slot = offset div 32
              in s\<lparr>fs_private := (fs_private s)\<lparr>root_directory :=
                   root\<lparr>dir_items := (dir_items root)[nat slot := i],
                        dir_total := (if dir_total root \<le> slot then slot + 1 else dir_total root)\<rparr>\<rparr>\<rparr>
         else s)"

definition publish_item :: "int \<Rightarrow> fat_directory_item \<Rightarrow> fat_item \<Rightarrow> fat_item" where
  "publish_item pos i f = (case item_union f of
     FileItem p _ \<Rightarrow> if entry_pos f = pos then f\<lparr>item_union := FileItem p i\<rparr> else f
   | DirectoryItem _ \<Rightarrow> f)"

definition fat16_publish :: "int \<Rightarrow> fat_directory_item \<Rightarrow> 'd fs \<Rightarrow> 'd fs" where
  "fat16_publish pos i s =
     (let s = publish_root pos i s
      in s\<lparr>fs_private := (fs_private s)\<lparr>descriptors :=
           map (\<lambda>d. d\<lparr>desc_item := publish_item pos i (desc_item d)\<rparr>) (descriptors (fs_private s))\<rparr>\<rparr>)"

definition fat16_commit_item :: "'d ports \<Rightarrow> int \<Rightarrow> fat_directory_item \<Rightarrow> 'd fs \<Rightarrow> unit result \<times> 'd fs" where
  "fat16_commit_item io pos i s =
     and_then (fat16_write_at io pos (item_bytes i) 32 s) (\<lambda>_ s.
     and_then (fat16_flush io s) (\<lambda>_ s. (Inr (), fat16_publish pos i s)))"

definition fat16_modified :: "fat_directory_item \<Rightarrow> fat_directory_item" where
  "fat16_modified i = i\<lparr>attribute := attribute i OR FAT_FILE_ARCHIVED, last_mod_date := 0x0021,
     last_mod_time := 0, last_access := 0x0021\<rparr>"

section \<open>Chains\<close>

text \<open>
  The walk over a chain. The bitmap of the clusters seen is the list collected so far; \<open>n\<close> is what
  remains of the capacity.
\<close>

fun collect_loop :: "nat \<Rightarrow> 'd ports \<Rightarrow> int \<Rightarrow> int list \<Rightarrow> 'd fs \<Rightarrow> int list result \<times> 'd fs" where
  "collect_loop n io current chain s =
     (if current = 0 then (Inr chain, s)
      else if \<not> fat16_valid_cluster s current \<or> current > max_writable (fs_private s) then (Inl EIO, s)
      else case n of
             0 \<Rightarrow> (Inl EIO, s)
           | Suc n \<Rightarrow>
               if current \<in> set chain then (Inl EIO, s)
               else and_then (fat16_get_fat_entry io current s) (\<lambda>next s.
                 if next \<ge> RORTHOX_FAT16_EOC_START then (Inr (chain @ [current]), s)
                 else if \<not> fat16_valid_cluster s next then (Inl EIO, s)
                 else collect_loop n io next (chain @ [current]) s))"

declare collect_loop.simps [simp del]

definition clusters_needed :: "int \<Rightarrow> 'd fs \<Rightarrow> int" where
  "clusters_needed sz s = sz div cluster_bytes s + (if sz mod cluster_bytes s \<noteq> 0 then 1 else 0)"

text \<open>The chain and the address of the array that holds it (0 when the volume has no writable cluster).\<close>

definition fat16_collect_chain :: "'d ports \<Rightarrow> fat_directory_item \<Rightarrow> 'd fs \<Rightarrow> (u32 \<times> int list) result \<times> 'd fs" where
  "fat16_collect_chain io i s =
     (if high_16_bits_first_cluster i \<noteq> 0 then (Inl EIO, s)
      else if uint (filesize i) > INT_MAX then (Inl EFBIG, s)
      else let capacity = max_writable (fs_private s) - 1;
               (chain, s) = (if capacity > 0
                 then fs_kzalloc (word_of_int (capacity * 2 + (max_writable (fs_private s) + 8) div 8)) s else (0, s))
           in if capacity > 0 \<and> chain = 0 then (Inl ENOMEM, s)
              else case collect_loop (nat capacity) io (uint (low_16_bits_first_cluster i)) [] s of
                     (Inl e, s) \<Rightarrow> (Inl e, fs_kfree chain s)
                   | (Inr cs, s) \<Rightarrow>
                       if int (length cs) < clusters_needed (uint (filesize i)) s then (Inl EIO, fs_kfree chain s)
                       else (Inr (chain, cs), s))"

definition fat16_check_file_chain :: "'d ports \<Rightarrow> fat_directory_item \<Rightarrow> 'd fs \<Rightarrow> unit result \<times> 'd fs" where
  "fat16_check_file_chain io i s =
     and_then (fat16_collect_chain io i s) (\<lambda>(chain, cs) s.
       (if int (length cs) \<noteq> clusters_needed (uint (filesize i)) s then Inl EIO else Inr (), fs_kfree chain s))"

fun clear_entries :: "'d ports \<Rightarrow> int \<Rightarrow> int list \<Rightarrow> 'd fs \<Rightarrow> unit result \<times> 'd fs" where
  "clear_entries io copy [] s = (Inr (), s)"
| "clear_entries io copy (c # cs) s = and_then (fat16_set_entry io copy c 0 s) (\<lambda>_ s. clear_entries io copy cs s)"

text \<open>
  \<^verbatim>\<open>fat16_truncate\<close> returns the new item, which the caller's item is replaced by once it is committed.
\<close>

definition fat16_truncate :: "'d ports \<Rightarrow> int \<Rightarrow> fat_directory_item \<Rightarrow> 'd fs \<Rightarrow> fat_directory_item result \<times> 'd fs" where
  "fat16_truncate io pos i s =
     and_then (fat16_collect_chain io i s) (\<lambda>(chain, cs) s.
       let empty = fat16_modified (i\<lparr>low_16_bits_first_cluster := 0, filesize := 0\<rparr>);
           (r, s) = and_then (fat16_commit_item io pos empty s) (\<lambda>_ s.
             if cs = [] then (Inr empty, s)
             else and_then (clear_entries io 0 cs s) (\<lambda>_ s. and_then (fat16_flush io s) (\<lambda>_ s.
                  and_then (clear_entries io 1 cs s) (\<lambda>_ s. and_then (fat16_flush io s) (\<lambda>_ s. (Inr empty, s))))))
       in (r, fs_kfree chain s))"

end
