(* ===== verification/Fat16_Files.thy ===== *)
theory Fat16_Files
  imports Fat16_Write
begin

text \<open>
  FAT16, fifth part: creating, opening, reading, writing, seeking and closing files. A descriptor is
  known by its address; the list of open descriptors is \<^verbatim>\<open>private->descriptors\<close>.
\<close>

section \<open>The cursor moves on\<close>

text \<open>What reading from the disk leaves alone.\<close>

definition volume :: "'d fs \<Rightarrow> fat_header \<times> fat_directory \<times> int \<times> int \<times> kmem" where
  "volume s = (hdr s, root_directory (fs_private s), sector_size (fsdisk s), disk_id (fsdisk s), kheap s)"

lemma volume_cluster_limit: "volume s = volume s' \<Longrightarrow> fat16_cluster_limit s = fat16_cluster_limit s'"
  by (simp only: volume_def fat16_cluster_limit_def prod.inject)

lemma volume_limit:
  assumes "volume s = volume s'"
  shows "fat16_cluster_limit s = fat16_cluster_limit s'" and "fat16_valid_cluster s = fat16_valid_cluster s'"
    and "fat16_cluster_to_sector s = fat16_cluster_to_sector s'" and "cluster_bytes s = cluster_bytes s'"
    and "cursor_location c s = cursor_location c s'"
proof -
  note lim = volume_cluster_limit [OF assms]
  show "fat16_cluster_limit s = fat16_cluster_limit s'" by (fact lim)
  show "fat16_valid_cluster s = fat16_valid_cluster s'" by (rule ext) (simp only: fat16_valid_cluster_def lim)
  have "hdr s = hdr s'" "root_directory (fs_private s) = root_directory (fs_private s')"
    "sector_size (fsdisk s) = sector_size (fsdisk s')" using assms by (simp_all add: volume_def)
  then show "fat16_cluster_to_sector s = fat16_cluster_to_sector s'" "cluster_bytes s = cluster_bytes s'"
    "cursor_location c s = cursor_location c s'"
    by (simp_all only: fat16_cluster_to_sector_def cluster_bytes_def cursor_location_def fun_eq_iff) simp
qed

lemma fs_seek_volume: "fs_seek w pos s = (r, s') \<Longrightarrow> volume s' = volume s"
  by (auto simp: fs_seek_def set_stream_def volume_def split: option.splits prod.splits which_stream.splits)

lemma on_drive_frame: "on_drive f k = (x, k') \<Longrightarrow> sector_size k' = sector_size k \<and> disk_id k' = disk_id k"
  by (auto simp: on_drive_def split: prod.splits)

lemma disk_read_block_frame:
  "disk_read_block io d lba n b k = (r, k') \<Longrightarrow> sector_size k' = sector_size k \<and> disk_id k' = disk_id k"
  by (auto simp: disk_read_block_def split: if_splits dest: on_drive_frame)

lemma stream_read_loop_frame:
  "stream_read_loop io len st k = (r, bs, st', k') \<Longrightarrow> sector_size k' = sector_size k \<and> disk_id k' = disk_id k"
proof (induction io len st k arbitrary: r bs st' k' rule: stream_read_loop.induct)
  case (1 io len st k)
  show ?case
  proof (cases "len \<le> 0")
    case True
    with "1.prems" show ?thesis by (simp add: stream_read_loop.simps)
  next
    case False
    obtain r1 k1 where d: "disk_read_block io (Some ()) (word_of_int (stream_pos st div int RORTHOX_SECTOR_SIZE)) 1 False k = (r1, k1)"
      by (cases "disk_read_block io (Some ()) (word_of_int (stream_pos st div int RORTHOX_SECTOR_SIZE)) 1 False k") blast
    note f = disk_read_block_frame [OF d]
    show ?thesis
    proof (cases r1)
      case (Inl e)
      with "1.prems" False d f show ?thesis by (subst (asm) stream_read_loop.simps) (simp add: Let_def)
    next
      case (Inr buf)
      obtain r2 bs2 st2 k2 where l: "stream_read_loop io (len - sector_part (stream_pos st) len)
          (st\<lparr>stream_pos := stream_pos st + sector_part (stream_pos st) len\<rparr>) k1 = (r2, bs2, st2, k2)"
        by (metis prod_cases4)
      have "k' = k2"
        using "1.prems" False d Inr l by (subst (asm) stream_read_loop.simps) (simp add: Let_def)
      with "1.IH" [OF False refl refl refl d [symmetric] Inr l] f show ?thesis by simp
    qed
  qed
qed

lemma fs_read_volume: "fs_read io w len s = (r, s') \<Longrightarrow> volume s' = volume s"
  by (auto simp: fs_read_def set_stream_def volume_def diskstreamer_read_def split: option.splits prod.splits
      which_stream.splits if_splits dest!: stream_read_loop_frame)

lemma fs_read_all_volume: "fs_read_all io w len s = (r, s') \<Longrightarrow> volume s' = volume s"
  by (auto simp: fs_read_all_def split: prod.splits dest: fs_read_volume)

lemma and_then_eq:
  "and_then p f = (r, s) \<longleftrightarrow> (\<exists>e. p = (Inl e, s) \<and> r = Inl e) \<or> (\<exists>x s1. p = (Inr x, s1) \<and> f x s1 = (r, s))"
  by (cases p; cases "fst p") (auto simp: and_then_def)

lemma get_fat_entry_volume: "fat16_get_fat_entry io c s = (r, s') \<Longrightarrow> volume s' = volume s"
  by (auto simp: fat16_get_fat_entry_def and_then_eq Let_def split: if_splits
      dest!: fs_seek_volume fs_read_all_volume)

lemma directory_advance_cases:
  assumes "directory_advance io c s = (Inr (Some c'), s')"
  shows "volume s' = volume s" and
    "c' = c \<or> cur_clusters c' = cur_clusters c + 1 \<and> cur_clusters c' < fat16_cluster_limit s"
proof -
  show v: "volume s' = volume s"
    using assms by (auto simp: directory_advance_def and_then_eq split: if_splits dest!: get_fat_entry_volume)
  show "c' = c \<or> cur_clusters c' = cur_clusters c + 1 \<and> cur_clusters c' < fat16_cluster_limit s"
    using assms volume_cluster_limit [OF v]
    by (auto simp: directory_advance_def and_then_eq split: if_splits)
qed

lemma directory_fetch_frame:
  assumes "directory_fetch io c pos s = (Inr (e, c'), s')"
  shows "volume s' = volume s" and "cur_clusters c' = cur_clusters c" "cur_sector c' = cur_sector c" "cur_index c' = cur_index c"
  using assms
  by (auto simp: directory_fetch_def and_then_eq Let_def split: if_splits dest!: fs_seek_volume fs_read_all_volume)

text \<open>Every slot the cursor returns takes it nearer to its end.\<close>

definition cursor_left :: "fat_directory_cursor \<Rightarrow> 'd fs \<Rightarrow> nat \<times> nat" where
  "cursor_left c s = (nat (fat16_cluster_limit s - cur_clusters c), nat (INT_MAX - cursor_location c s))"

lemma directory_next_decreases:
  assumes "fat16_directory_next io c s = (Inr (Some (e, pos, c')), s')"
  shows "volume s' = volume s" and "(cursor_left c' s', cursor_left c s) \<in> less_than <*lex*> less_than"
proof -
  from assms obtain c1 s1 c2 where a: "directory_advance io c s = (Inr (Some c1), s1)"
    and loc: "cursor_location c1 s1 \<le> INT_MAX - 32"
    and f: "directory_fetch io c1 (cursor_location c1 s1) s1 = (Inr (e, c2), s')"
    and c': "c' = c2\<lparr>cur_index := cur_index c2 + 1\<rparr>"
    by (auto simp: fat16_directory_next_def and_then_eq Let_def split: option.splits if_splits prod.splits)
  note a' = directory_advance_cases [OF a] and f' = directory_fetch_frame [OF f]
  show v: "volume s' = volume s" using a'(1) f'(1) by simp
  note lim = volume_limit [OF v]
  have cl: "cur_clusters c' = cur_clusters c1" using f'(2) c' by simp
  show "(cursor_left c' s', cursor_left c s) \<in> less_than <*lex*> less_than"
  proof (cases "c1 = c")
    case True
    have l1: "cursor_location c s \<le> INT_MAX - 32" using loc True volume_limit(5) [OF a'(1)] by simp
    have "cursor_location c' s' = (cur_sector c * sector_size (fsdisk s) + cur_index c * 32 + 32) mod 2 ^ 64"
      using v f' c' True by (simp add: cursor_location_def volume_def algebra_simps)
    also have "\<dots> = (cursor_location c s + 32) mod 2 ^ 64" by (simp add: cursor_location_def mod_add_left_eq)
    also have "\<dots> = cursor_location c s + 32"
      using l1 by (intro mod_pos_pos_trivial) (simp_all add: cursor_location_def INT_MAX_def)
    finally have "nat (INT_MAX - cursor_location c' s') < nat (INT_MAX - cursor_location c s)" using l1 by simp
    with True cl lim(1) show ?thesis by (simp add: cursor_left_def)
  next
    case False
    with a'(2) cl lim(1) show ?thesis by (simp add: cursor_left_def)
  qed
qed

section \<open>Creating a file\<close>

definition fat16_is_lfn :: "fat_directory_item \<Rightarrow> bool" where
  "fat16_is_lfn i \<longleftrightarrow> filename i ! 0 \<noteq> 0 \<and> filename i ! 0 \<noteq> 0xE5 \<and> attribute i AND 0x3F = 0x0F"

text \<open>The slot for a new entry, -1 while there is none: the first deleted one, or the first free one.\<close>

definition create_step ::
  "'d ports \<Rightarrow> fat_directory_cursor \<Rightarrow> int \<Rightarrow> bool \<Rightarrow> 'd fs \<Rightarrow> (int result + fat_directory_cursor \<times> int \<times> bool) \<times> 'd fs" where
  "create_step io cursor slot previous_lfn s = (case fat16_directory_next io cursor s of
     (Inl e, s) \<Rightarrow> (Inl (Inl e), s)
   | (Inr None, s) \<Rightarrow> (Inl (Inr slot), s)
   | (Inr (Some (entry, pos, cursor)), s) \<Rightarrow>
       if filename entry ! 0 = 0
       then if slot < 0 \<and> previous_lfn then (Inl (Inl EIO), s)
            else if slot < 0
            then (case fat16_directory_next io cursor s of
                    (Inl _, s) \<Rightarrow> (Inl (Inl EIO), s)
                  | (Inr None, s) \<Rightarrow> (Inl (Inr pos), s)
                  | (Inr (Some (entry, _, _)), s) \<Rightarrow> (Inl (if filename entry ! 0 \<noteq> 0 then Inl EIO else Inr pos), s))
            else (Inl (Inr slot), s)
       else (Inr (cursor,
               if slot < 0 \<and> filename entry ! 0 = 0xE5 \<and> attribute entry \<noteq> 0x0F \<and> \<not> previous_lfn then pos else slot,
               fat16_is_lfn entry), s))"

lemma create_step_decreases:
  assumes "create_step io cursor slot lfn s = (Inr (cursor', slot', lfn'), s')"
  shows "(cursor_left cursor' s', cursor_left cursor s) \<in> less_than <*lex*> less_than"
  using assms unfolding create_step_def
  by (auto split: prod.splits sum.splits option.splits if_splits dest: directory_next_decreases(2) simp del: in_lex_prod)

function create_scan :: "'d ports \<Rightarrow> fat_directory_cursor \<Rightarrow> int \<Rightarrow> bool \<Rightarrow> 'd fs \<Rightarrow> int result \<times> 'd fs" where
  "create_scan io cursor slot lfn s = (case create_step io cursor slot lfn s of
     (Inl r, s') \<Rightarrow> (r, s')
   | (Inr (cursor', slot', lfn'), s') \<Rightarrow> create_scan io cursor' slot' lfn' s')"
  by pat_completeness auto

termination
proof (relation "inv_image (less_than <*lex*> less_than) (\<lambda>(io, cursor, slot, lfn, s). cursor_left cursor s)", goal_cases)
  case 1
  show ?case by (intro wf_inv_image wf_lex_prod wf_less_than)
next
  case (2 io cursor slot lfn s x s' c cursor' d slot' lfn')
  then have "create_step io cursor slot lfn s = (Inr (cursor', slot', lfn'), s')" by simp
  from create_step_decreases [OF this] show ?case by (simp only: in_inv_image prod.case)
qed

declare create_scan.simps [simp del]

text \<open>The 8.3 name of a path part; \<open>base\<close> and \<open>e\<close> count the characters stored.\<close>

fun create_name :: "cstring \<Rightarrow> nat \<Rightarrow> nat \<Rightarrow> bool \<Rightarrow> fat_directory_item \<Rightarrow> fat_directory_item result" where
  "create_name [] base e dot entry = Inr entry"
| "create_name (p # ps) base e dot entry =
     (if p = 0 then Inr entry
      else if p = 46 then create_name ps base e True entry
      else let c = (if 97 \<le> p \<and> p \<le> 122 then p - 97 + 65 else p)
           in if (\<not> dot \<and> base \<ge> 8) \<or> (dot \<and> e \<ge> 3) then Inl EINVARG
              else if dot then create_name ps base (e + 1) dot (entry\<lparr>ext := (ext entry)[e := c]\<rparr>)
              else create_name ps (base + 1) e dot (entry\<lparr>filename := (filename entry)[base := c]\<rparr>))"

definition blank_entry :: fat_directory_item where
  "blank_entry = zero_item\<lparr>filename := replicate 8 32, ext := replicate 3 32\<rparr>"

definition free_parent :: "fat_item option \<Rightarrow> 'd fs \<Rightarrow> 'd fs" where
  "free_parent parent s = (case parent of None \<Rightarrow> s | Some p \<Rightarrow> fat16_fat_item_free p s)"

text \<open>The directory that holds the last part of the path, with the item to release.\<close>

fun create_parent ::
  "'d ports \<Rightarrow> path_part list \<Rightarrow> fat_directory \<Rightarrow> fat_item option \<Rightarrow> 'd fs \<Rightarrow> (fat_directory \<times> fat_item option \<times> path_part) result \<times> 'd fs" where
  "create_parent io [] directory parent s = (Inl EINVARG, s)"
| "create_parent io [p] directory parent s = (Inr (directory, parent, p), s)"
| "create_parent io (p # q # ps) directory parent s =
     (let (r, s) = fat16_find_item_in_directory io directory (part_str p) s;
          s = free_parent parent s
      in case r of
           Inl e \<Rightarrow> (Inl e, s)
         | Inr next \<Rightarrow>
             (case item_union next of
                FileItem _ _ \<Rightarrow> (Inl EINVARG, fat16_fat_item_free next s)
              | DirectoryItem d \<Rightarrow> create_parent io (q # ps) d (Some next) s))"

definition create_entry :: "'d ports \<Rightarrow> int \<Rightarrow> cstring \<Rightarrow> 'd fs \<Rightarrow> fat_item result \<times> 'd fs" where
  "create_entry io slot name s = (case create_name name 0 0 False blank_entry of
     Inl e \<Rightarrow> (Inl e, s)
   | Inr entry \<Rightarrow>
       let entry = fat16_modified (entry\<lparr>creation_date := 0x0021\<rparr>)
       in (case fat16_new_fat_item_for_directory_item io entry s of
             (None, s) \<Rightarrow> (Inl ENOMEM, s)
           | (Some result, s) \<Rightarrow>
               let result = result\<lparr>entry_pos := slot\<rparr>
               in (case fat16_commit_item io slot entry s of
                     (Inl e, s) \<Rightarrow> (Inl e, fat16_fat_item_free result s)
                   | (Inr _, s) \<Rightarrow> (Inr result, s))))"

definition fat16_create :: "'d ports \<Rightarrow> path_part list \<Rightarrow> 'd fs \<Rightarrow> fat_item result \<times> 'd fs" where
  "fat16_create io path s =
     and_then (create_parent io path (root_directory (fs_private s)) None s) (\<lambda>(directory, parent, p) s.
       let (r, s) = (case fat16_directory_start (dir_first_cluster directory) s of
             Inl e \<Rightarrow> (Inl e, s)
           | Inr cursor \<Rightarrow> and_then (create_scan io cursor (-1) False s) (\<lambda>slot s.
               if slot < 0 then (Inl ENOSPC, s) else create_entry io slot (part_str p) s))
       in (r, free_parent parent s))"

section \<open>Descriptors\<close>

text \<open>
  A descriptor is looked up by its address; the callers only pass addresses that
  \<^verbatim>\<open>fat16_open\<close> returned and \<^verbatim>\<open>fat16_close\<close> has not released.
\<close>

definition find_desc :: "u32 \<Rightarrow> 'd fs \<Rightarrow> fat_file_descriptor" where
  "find_desc p s = the (List.find (\<lambda>d. desc_addr d = p) (descriptors (fs_private s)))"

definition set_pos :: "u32 \<Rightarrow> u32 \<Rightarrow> 'd fs \<Rightarrow> 'd fs" where
  "set_pos p pos s = s\<lparr>fs_private := (fs_private s)\<lparr>descriptors :=
     map (\<lambda>d. if desc_addr d = p then d\<lparr>desc_pos := pos\<rparr> else d) (descriptors (fs_private s))\<rparr>\<rparr>"

text \<open>The item of a descriptor on a file; None for one on a directory.\<close>

definition file_of :: "fat_item \<Rightarrow> fat_directory_item option" where
  "file_of f = (case item_union f of FileItem _ i \<Rightarrow> Some i | DirectoryItem _ \<Rightarrow> None)"

section \<open>Writing\<close>

text \<open>
  The search for free clusters; \<open>n\<close> is how many clusters are left to look at, from \<open>cluster\<close> to
  \<^verbatim>\<open>max_writable\<close>, and \<open>loaded\<close> the sector of the table whose two copies are in memory.
\<close>

definition load_fat_sector :: "'d ports \<Rightarrow> int \<Rightarrow> int \<Rightarrow> u8 list \<times> u8 list \<Rightarrow> 'd fs \<Rightarrow> (u8 list \<times> u8 list) result \<times> 'd fs" where
  "load_fat_sector io sector loaded bufs s =
     (if sector \<noteq> loaded
      then and_then (fs_read_block io (uint (reserved_sectors (hdr s)) + sector) s) (\<lambda>a s.
           and_then (fs_read_block io (uint (reserved_sectors (hdr s)) + uint (sectors_per_fat (hdr s)) + sector) s)
             (\<lambda>b s. (Inr (a, b), s)))
      else (Inr bufs, s))"

fun allocate_loop ::
  "nat \<Rightarrow> 'd ports \<Rightarrow> int \<Rightarrow> int \<Rightarrow> u8 list \<times> u8 list \<Rightarrow> int list \<Rightarrow> int \<Rightarrow> 'd fs \<Rightarrow> int list result \<times> 'd fs" where
  "allocate_loop 0 io cluster loaded bufs chain needed s =
     (if int (length chain) = needed then Inr chain else Inl ENOSPC, s)"
| "allocate_loop (Suc n) io cluster loaded bufs chain needed s =
     (if int (length chain) < needed
      then and_then (load_fat_sector io (cluster div 256) loaded bufs s) (\<lambda>(a, b) s.
        let i = 2 * nat (cluster mod 256)
        in allocate_loop n io (cluster + 1) (cluster div 256) (a, b)
             (if le16 a i = 0 \<and> le16 b i = 0 then chain @ [cluster] else chain) needed s)
      else (if int (length chain) = needed then Inr chain else Inl ENOSPC, s))"

definition fat16_allocate :: "'d ports \<Rightarrow> int list \<Rightarrow> int \<Rightarrow> 'd fs \<Rightarrow> int list result \<times> 'd fs" where
  "fat16_allocate io chain needed s =
     (if needed > max_writable (fs_private s) - 1 then (Inl ENOSPC, s)
      else allocate_loop (nat (max_writable (fs_private s) - 1)) io 2 (-1) ([], []) chain needed s)"

fun zero_sectors :: "nat \<Rightarrow> 'd ports \<Rightarrow> int \<Rightarrow> 'd fs \<Rightarrow> unit result \<times> 'd fs" where
  "zero_sectors 0 io pos s = (Inr (), s)"
| "zero_sectors (Suc n) io pos s =
     and_then (fat16_write_at io pos (replicate 512 0) 512 s) (\<lambda>_ s. zero_sectors n io (pos + 512) s)"

text \<open>The loop over the sectors of a cluster runs while \<^verbatim>\<open>offset < bytes\<close>, in steps of 512.\<close>

fun zero_clusters :: "'d ports \<Rightarrow> int list \<Rightarrow> 'd fs \<Rightarrow> unit result \<times> 'd fs" where
  "zero_clusters io [] s = (Inr (), s)"
| "zero_clusters io (c # cs) s =
     and_then (zero_sectors (nat ((cluster_bytes s + 511) div 512)) io
                 (fat16_cluster_to_sector s c * sector_size (fsdisk s)) s) (\<lambda>_ s. zero_clusters io cs s)"

text \<open>The data; a volume that passed the checks has clusters that are not empty.\<close>

function write_data :: "'d ports \<Rightarrow> int \<Rightarrow> int list \<Rightarrow> u8 list \<Rightarrow> int \<Rightarrow> int \<Rightarrow> 'd fs \<Rightarrow> unit result \<times> 'd fs" where
  "write_data io bs chain inp position left s =
     (if left \<le> 0 \<or> bs \<le> 0 then (Inr (), s)
      else let offset = position mod bs;
               part = (if bs - offset > left then left else bs - offset);
               pos = fat16_cluster_to_sector s (chain ! nat (position div bs)) * sector_size (fsdisk s) + offset
           in (case fat16_write_at io pos inp part s of
                 (Inl e, s) \<Rightarrow> (Inl e, s)
               | (Inr _, s) \<Rightarrow> write_data io bs chain (drop (nat part) inp) (position + part) (left - part) s))"
  by pat_completeness auto

termination
  by (relation "measure (\<lambda>(io, bs, chain, inp, position, left, s). nat left)") auto

declare write_data.simps [simp del]

text \<open>The entries of the clusters from number \<open>i\<close> on, each pointing to the next, the last to the end.\<close>

fun link_entries :: "'d ports \<Rightarrow> int \<Rightarrow> int list \<Rightarrow> 'd fs \<Rightarrow> unit result \<times> 'd fs" where
  "link_entries io copy [] s = (Inr (), s)"
| "link_entries io copy [c] s = fat16_set_entry io copy c 0xFFFF s"
| "link_entries io copy (c # d # cs) s =
     and_then (fat16_set_entry io copy c (word_of_int d) s) (\<lambda>_ s. link_entries io copy (d # cs) s)"

definition extend_chain :: "'d ports \<Rightarrow> nat \<Rightarrow> int list \<Rightarrow> 'd fs \<Rightarrow> unit result \<times> 'd fs" where
  "extend_chain io old_count chain s =
     (if length chain \<le> old_count then (Inr (), s)
      else and_then (link_entries io 0 (drop old_count chain) s) (\<lambda>_ s. and_then (fat16_flush io s) (\<lambda>_ s.
           and_then (link_entries io 1 (drop old_count chain) s) (\<lambda>_ s. and_then (fat16_flush io s) (\<lambda>_ s.
             if old_count = 0 then (Inr (), s)
             else let tail = chain ! (old_count - 1); first_new = word_of_int (chain ! old_count)
                  in and_then (fat16_set_entry io 0 tail first_new s) (\<lambda>_ s. and_then (fat16_flush io s) (\<lambda>_ s.
                     and_then (fat16_set_entry io 1 tail first_new s) (\<lambda>_ s. fat16_flush io s))))))))"

definition write_chain ::
  "'d ports \<Rightarrow> u32 \<Rightarrow> fat_directory_item \<Rightarrow> int \<Rightarrow> int list \<Rightarrow> u8 list \<Rightarrow> int \<Rightarrow> int \<Rightarrow> 'd fs \<Rightarrow> int result \<times> 'd fs" where
  "write_chain io p i pos old inp start count s =
     (let end' = start + count;
          sz = (if end' > uint (filesize i) then end' else uint (filesize i))
      in if int (length old) \<noteq> clusters_needed (uint (filesize i)) s then (Inl EIO, s)
         else and_then (fat16_allocate io old (clusters_needed sz s) s) (\<lambda>chain s.
              and_then (zero_clusters io (drop (length old) chain) s) (\<lambda>_ s.
              and_then (write_data io (cluster_bytes s) chain inp start count s) (\<lambda>_ s.
              and_then (fat16_flush io s) (\<lambda>_ s.
              and_then (extend_chain io (length old) chain s) (\<lambda>_ s.
                let i = fat16_modified (i\<lparr>low_16_bits_first_cluster := word_of_int (hd chain), filesize := word_of_int sz\<rparr>)
                in and_then (fat16_commit_item io pos i s) (\<lambda>_ s.
                     (Inr count, set_pos p (word_of_int end') s))))))))"

definition fat16_write_bytes :: "'d ports \<Rightarrow> u32 \<Rightarrow> u8 list \<Rightarrow> u32 \<Rightarrow> 'd fs \<Rightarrow> int result \<times> 'd fs" where
  "fat16_write_bytes io p inp count s =
     (let mode = desc_mode (find_desc p s)
      in if mode = FILE_MODE_READ then (Inl EBADF, s)
         else if count = 0 then (Inr 0, s)
         else and_then (fat16_prepare_write io s) (\<lambda>_ s.
           let desc = find_desc p s;
               i = the (file_of (desc_item desc));
               start = uint (if mode = FILE_MODE_APPEND then filesize i else desc_pos desc)
           in if start > uint (filesize i) then (Inl EINVARG, s)
              else if start > INT_MAX \<or> uint count > INT_MAX - start then (Inl EFBIG, s)
              else and_then (fat16_collect_chain io i s) (\<lambda>(chain, old) s.
                let (r, s) = write_chain io p i (entry_pos (desc_item desc)) old inp start (uint count) s
                in (r, fs_kfree chain s))))"

section \<open>Opening and closing\<close>

definition open_existing :: "'d ports \<Rightarrow> FILE_MODE \<Rightarrow> fat_item \<Rightarrow> 'd fs \<Rightarrow> fat_item result \<times> 'd fs" where
  "open_existing io mode f s = (case item_union f of
     DirectoryItem _ \<Rightarrow> (Inl EINVARG, s)
   | FileItem q i \<Rightarrow>
       if attribute i AND FAT_FILE_READ_ONLY \<noteq> 0 then (Inl ERDONLY, s)
       else if mode = FILE_MODE_WRITE
       then and_then (fat16_truncate io (entry_pos f) i s) (\<lambda>i s. (Inr (f\<lparr>item_union := FileItem q i\<rparr>), s))
       else and_then (fat16_check_file_chain io i s) (\<lambda>_ s. (Inr f, s)))"

text \<open>The item a file is opened on; an item that was found is released when it cannot be used.\<close>

definition open_item :: "'d ports \<Rightarrow> path_part list \<Rightarrow> FILE_MODE \<Rightarrow> 'd fs \<Rightarrow> fat_item result \<times> 'd fs" where
  "open_item io path mode s = (case fat16_get_directory_entry io path s of
     (Inl e, s) \<Rightarrow> if e = ENOENT \<and> mode \<noteq> FILE_MODE_READ then fat16_create io path s else (Inl e, s)
   | (Inr f, s) \<Rightarrow>
       if mode = FILE_MODE_READ then (Inr f, s)
       else (case open_existing io mode f s of
               (Inl e, s) \<Rightarrow> (Inl e, fat16_fat_item_free f s)
             | (Inr f, s) \<Rightarrow> (Inr f, s)))"

definition fat16_open :: "'d ports \<Rightarrow> path_part list \<Rightarrow> FILE_MODE \<Rightarrow> 'd fs \<Rightarrow> u32 result \<times> 'd fs" where
  "fat16_open io path mode s =
     (if mode = FILE_MODE_INVALID then (Inl EINVARG, s)
      else and_then (if mode \<noteq> FILE_MODE_READ then fat16_prepare_write io s else (Inr (), s)) (\<lambda>_ s.
        let (p, s) = fs_kzalloc 20 s
        in if p = 0 then (Inl ENOMEM, s)
           else (case open_item io path mode s of
                   (Inl e, s) \<Rightarrow> (Inl e, fs_kfree p s)
                 | (Inr f, s) \<Rightarrow>
                     let pos = (if mode = FILE_MODE_APPEND then filesize (the (file_of f)) else 0);
                         d = \<lparr>desc_addr = p, desc_item = f, desc_pos = pos, desc_mode = mode\<rparr>
                     in (Inr p, s\<lparr>fs_private := (fs_private s)\<lparr>descriptors := d # descriptors (fs_private s)\<rparr>\<rparr>))))"

definition fat16_free_file_descriptor :: "u32 \<Rightarrow> 'd fs \<Rightarrow> 'd fs" where
  "fat16_free_file_descriptor p s =
     (let d = find_desc p s;
          s = s\<lparr>fs_private := (fs_private s)\<lparr>descriptors :=
                filter (\<lambda>d. desc_addr d \<noteq> p) (descriptors (fs_private s))\<rparr>\<rparr>
      in fs_kfree p (fat16_fat_item_free (desc_item d) s))"

definition fat16_close :: "u32 \<Rightarrow> 'd fs \<Rightarrow> unit result \<times> 'd fs" where
  "fat16_close p s = (Inr (), fat16_free_file_descriptor p s)"

section \<open>Status, reading and seeking\<close>

definition FILE_STAT_READ_ONLY :: u32 where "FILE_STAT_READ_ONLY = 1"

record file_stat =
  stat_flags :: u32
  stat_filesize :: u32

definition fat16_stat :: "u32 \<Rightarrow> 'd fs \<Rightarrow> file_stat result" where
  "fat16_stat p s = (case file_of (desc_item (find_desc p s)) of
     None \<Rightarrow> Inl EINVARG
   | Some i \<Rightarrow> Inr \<lparr>stat_flags = (if attribute i AND FAT_FILE_READ_ONLY \<noteq> 0 then FILE_STAT_READ_ONLY else 0),
                   stat_filesize = filesize i\<rparr>)"

text \<open>\<open>n\<close> more members of \<open>sz\<close> bytes; the bytes copied are returned also when a later member fails.\<close>

fun read_members :: "nat \<Rightarrow> 'd ports \<Rightarrow> u32 \<Rightarrow> u32 \<Rightarrow> int \<Rightarrow> 'd fs \<Rightarrow> (int result \<times> u8 list) \<times> 'd fs" where
  "read_members 0 io p sz count s = ((Inr count, []), s)"
| "read_members (Suc n) io p sz count s =
     (let desc = find_desc p s;
          i = the (file_of (desc_item desc));
          left = filesize i - desc_pos desc
      in if left = 0 then ((Inr count, []), s)
         else let bs = (if sz < left then sz else left)
              in if uint (desc_pos desc) > 0x7FFFFFFF \<or> uint bs > 0x7FFFFFFF - uint (desc_pos desc) then ((Inl EIO, []), s)
                 else let ((r, out), s) = fat16_read_internal io (fat16_get_first_cluster i) (uint (desc_pos desc)) (uint bs) s
                      in (case r of
                            Inl e \<Rightarrow> ((Inl e, out), s)
                          | Inr _ \<Rightarrow>
                              let s = set_pos p (desc_pos desc + bs) s
                              in if bs \<noteq> sz then ((Inr count, out), s)
                                 else let ((r, rest), s) = read_members n io p sz (count + 1) s in ((r, out @ rest), s)))"

definition fat16_read :: "'d ports \<Rightarrow> u32 \<Rightarrow> u32 \<Rightarrow> u32 \<Rightarrow> 'd fs \<Rightarrow> (int result \<times> u8 list) \<times> 'd fs" where
  "fat16_read io p sz nmemb s = (case file_of (desc_item (find_desc p s)) of
     None \<Rightarrow> ((Inl EINVARG, []), s)
   | Some i \<Rightarrow> if desc_pos (find_desc p s) > filesize i then ((Inl EIO, []), s)
             else read_members (unat nmemb) io p sz 0 s)"

definition fat16_seek :: "u32 \<Rightarrow> u32 \<Rightarrow> FILE_SEEK_MODE \<Rightarrow> 'd fs \<Rightarrow> unit result \<times> 'd fs" where
  "fat16_seek p offset seek_mode s = (case file_of (desc_item (find_desc p s)) of
     None \<Rightarrow> (Inl EINVARG, s)
   | Some i \<Rightarrow>
       let pos = desc_pos (find_desc p s)
       in (case seek_mode of
             SEEK_SET \<Rightarrow> if offset > filesize i then (Inl EIO, s) else (Inr (), set_pos p offset s)
           | SEEK_END \<Rightarrow> (Inl EUNIMP, s)
           | SEEK_CUR \<Rightarrow> if pos > filesize i \<or> offset > filesize i - pos then (Inl EIO, s)
                         else (Inr (), set_pos p (pos + offset) s)
           | SEEK_OTHER \<Rightarrow> (Inl EINVARG, s)))"

definition fat16_read_bytes :: "'d ports \<Rightarrow> u32 \<Rightarrow> u32 \<Rightarrow> 'd fs \<Rightarrow> (int result \<times> u8 list) \<times> 'd fs" where
  "fat16_read_bytes io p count s =
     (let desc = find_desc p s
      in if desc_mode desc \<noteq> FILE_MODE_READ then ((Inl EBADF, []), s)
         else (case file_of (desc_item desc) of
                 None \<Rightarrow> ((Inl EINVARG, []), s)
               | Some i \<Rightarrow>
                   if count = 0 \<or> desc_pos desc \<ge> filesize i then ((Inr 0, []), s)
                   else let left = filesize i - desc_pos desc;
                            count = (if count > left then left else count)
                        in if uint (desc_pos desc) > INT_MAX \<or> uint count > INT_MAX - uint (desc_pos desc)
                           then ((Inl EIO, []), s)
                           else let ((r, out), s) = fat16_read_internal io (fat16_get_first_cluster i)
                                      (uint (desc_pos desc)) (uint count) s
                                in (case r of
                                      Inl e \<Rightarrow> ((Inl e, out), s)
                                    | Inr _ \<Rightarrow> ((Inr (uint count), out), set_pos p (desc_pos desc + count) s))))"

definition fat16_seek_signed :: "u32 \<Rightarrow> int \<Rightarrow> FILE_SEEK_MODE \<Rightarrow> 'd fs \<Rightarrow> int result \<times> 'd fs" where
  "fat16_seek_signed p offset whence s =
     (let desc = find_desc p s
      in (case file_of (desc_item desc) of
            None \<Rightarrow> (Inl EINVARG, s)
          | Some i \<Rightarrow>
              if whence = SEEK_OTHER then (Inl EINVARG, s)
              else let base = (case whence of SEEK_CUR \<Rightarrow> uint (desc_pos desc)
                       | SEEK_END \<Rightarrow> uint (filesize i) | _ \<Rightarrow> 0);
                       pos = base + offset
                   in if pos < 0 \<or> pos > INT_MAX \<or> pos > uint (filesize i) then (Inl EINVARG, s)
                      else (Inr pos, set_pos p (word_of_int pos) s)))"

end
