(* ===== verification/Vfs.thy ===== *)
theory Vfs
  imports Fat16_Files
begin

text \<open>
  The virtual file system, \<^verbatim>\<open>kernel/fs/file.c\<close>: the table of open files, paths, and the two file
  interfaces of the kernel. FAT16 is the only file system in the table of file systems, so a call
  through its function pointers is a call of the FAT16 operation.
\<close>

section \<open>File systems\<close>

definition RORTHOX_MAX_FILESYSTEMS :: nat where "RORTHOX_MAX_FILESYSTEMS = 12"
definition RORTHOX_MAX_FILE_DESCRIPTORS :: nat where "RORTHOX_MAX_FILE_DESCRIPTORS = 512"

datatype filesystem = FAT16

record file_descriptor =
  fd_addr :: u32
  fd_index :: int
  fd_private :: u32

text \<open>
  The state: the two tables, whether the disk has a file system (\<^verbatim>\<open>disk->filesystem\<close>), and the volume.
\<close>

record 'd vfs =
  filesystems :: "filesystem option list"
  file_descriptors :: "file_descriptor option list"
  disk_filesystem :: "filesystem option"
  fat :: "'d fs"

fun fs_get_free_filesystem :: "filesystem option list \<Rightarrow> nat option" where
  "fs_get_free_filesystem [] = None"
| "fs_get_free_filesystem (f # fs) =
     (if f = None then Some 0 else map_option Suc (fs_get_free_filesystem fs))"

text \<open>None is the endless loop after the message that the table is full.\<close>

definition fs_insert_filesystem :: "filesystem \<Rightarrow> 'd vfs \<Rightarrow> 'd vfs option" where
  "fs_insert_filesystem f v = map_option (\<lambda>i. v\<lparr>filesystems := (filesystems v)[i := Some f]\<rparr>)
     (fs_get_free_filesystem (filesystems v))"

definition fs_load :: "'d vfs \<Rightarrow> 'd vfs option" where
  "fs_load v = fs_insert_filesystem FAT16 (v\<lparr>filesystems := replicate RORTHOX_MAX_FILESYSTEMS None\<rparr>)"

definition fs_init :: "'d vfs \<Rightarrow> 'd vfs option" where
  "fs_init v = fs_load (v\<lparr>file_descriptors := replicate RORTHOX_MAX_FILE_DESCRIPTORS None\<rparr>)"

fun resolve_loop :: "'d ports \<Rightarrow> filesystem option list \<Rightarrow> 'd fs \<Rightarrow> filesystem option \<times> 'd fs" where
  "resolve_loop io [] s = (None, s)"
| "resolve_loop io (None # fs) s = resolve_loop io fs s"
| "resolve_loop io (Some f # fs) s =
     (case fat16_resolve io s of (Inr _, s) \<Rightarrow> (Some f, s) | (Inl _, s) \<Rightarrow> resolve_loop io fs s)"

text \<open>\<^verbatim>\<open>disk_search_and_init\<close> stores what \<^verbatim>\<open>fs_resolve\<close> returns in the disk.\<close>

definition fs_resolve :: "'d ports \<Rightarrow> 'd vfs \<Rightarrow> 'd vfs" where
  "fs_resolve io v =
     (let (f, s) = resolve_loop io (filesystems v) (fat v) in v\<lparr>disk_filesystem := f, fat := s\<rparr>)"

section \<open>The table of open files\<close>

definition file_free_descriptor :: "file_descriptor \<Rightarrow> 'd vfs \<Rightarrow> 'd vfs" where
  "file_free_descriptor desc v =
     v\<lparr>file_descriptors := (file_descriptors v)[nat (fd_index desc - 1) := None], fat := fs_kfree (fd_addr desc) (fat v)\<rparr>"

fun free_slot :: "'a option list \<Rightarrow> nat option" where
  "free_slot [] = None"
| "free_slot (d # ds) = (if d = None then Some 0 else map_option Suc (free_slot ds))"

definition file_new_descriptor :: "'d vfs \<Rightarrow> file_descriptor result \<times> 'd vfs" where
  "file_new_descriptor v = (case free_slot (file_descriptors v) of
     None \<Rightarrow> (Inl ENOMEM, v)
   | Some i \<Rightarrow>
       let (p, s) = fs_kzalloc 16 (fat v); v = v\<lparr>fat := s\<rparr>
       in if p = 0 then (Inl ENOMEM, v)
          else let desc = \<lparr>fd_addr = p, fd_index = int i + 1, fd_private = 0\<rparr>
               in (Inr desc, v\<lparr>file_descriptors := (file_descriptors v)[i := Some desc]\<rparr>))"

definition file_get_descriptor :: "int \<Rightarrow> 'd vfs \<Rightarrow> file_descriptor option" where
  "file_get_descriptor fd v =
     (if fd \<le> 0 \<or> fd > int RORTHOX_MAX_FILE_DESCRIPTORS then None else file_descriptors v ! nat (fd - 1))"

section \<open>Paths and modes\<close>

definition file_get_mode_by_string :: "cstring \<Rightarrow> FILE_MODE" where
  "file_get_mode_by_string str =
     (if strncmp str [114] 1 = 0 then FILE_MODE_READ
      else if strncmp str [119] 1 = 0 then FILE_MODE_WRITE
      else if strncmp str [97] 1 = 0 then FILE_MODE_APPEND
      else FILE_MODE_INVALID)"

definition bad_chars :: "u8 list" where
  "bad_chars = [34, 42, 43, 44, 58, 59, 60, 61, 62, 63, 91, 92, 93, 124]"

text \<open>One part of a path: None is an error, else the counters and the rest from the slash or the end.\<close>

fun validate_part :: "cstring \<Rightarrow> nat \<Rightarrow> nat \<Rightarrow> bool \<Rightarrow> (nat \<times> nat \<times> bool \<times> cstring) option" where
  "validate_part [] base e dot = Some (base, e, dot, [])"
| "validate_part (c # p) base e dot =
     (if c = 0 \<or> c = 47 then Some (base, e, dot, c # p)
      else if c = 46 then (if dot \<or> base = 0 then None else validate_part p base e True)
      else if c \<le> 0x20 \<or> c \<ge> 0x7F then None
      else if c \<in> set bad_chars then None
      else if dot then (if e + 1 > 3 then None else validate_part p base (e + 1) dot)
      else (if base + 1 > 8 then None else validate_part p (base + 1) e dot))"

lemma validate_part_length: "validate_part p b e d = Some (b', e', d', rest) \<Longrightarrow> length rest \<le> length p"
  by (induction p b e d rule: validate_part.induct) (auto split: if_splits)

lemma char_at_nonempty: "char_at p i \<noteq> 0 \<Longrightarrow> i < length p"
  by (simp add: char_at_def split: if_splits)

function validate_parts :: "cstring \<Rightarrow> unit result" where
  "validate_parts p = (case validate_part p 0 0 False of
     None \<Rightarrow> Inl EINVARG
   | Some (base, e, dot, rest) \<Rightarrow>
       if base = 0 \<or> (dot \<and> e = 0) then Inl EINVARG
       else if char_at rest 0 = 0 then Inr ()
       else if char_at rest 1 = 0 then Inl EINVARG
       else validate_parts (drop 1 rest))"
  by pat_completeness auto

termination
proof (relation "measure length", goal_cases)
  case (2 p x base y e z dot rest)
  then have "length rest \<le> length p" "0 < length rest"
    using validate_part_length [of p 0 0 False base e dot rest] char_at_nonempty [of rest 0] by auto
  then show ?case by (cases rest) auto
qed simp

declare validate_parts.simps [simp del]

text \<open>\<open>None\<close> is the null pointer.\<close>

definition file_validate_path :: "cstring option \<Rightarrow> unit result" where
  "file_validate_path path = (case path of
     None \<Rightarrow> Inl EINVARG
   | Some f \<Rightarrow>
       if strnlen f RORTHOX_MAX_PATH \<ge> RORTHOX_MAX_PATH \<or> strncmp f [48, 58, 47] 3 \<noteq> 0 then Inl EINVARG
       else validate_parts (drop 3 f))"

section \<open>Opening\<close>

text \<open>
  The part of \<^verbatim>\<open>fopen_status\<close> between the parser and \<^verbatim>\<open>out\<close>: the result, and the descriptor to
  release when it is an error.
\<close>

definition open_private ::
  "'d ports \<Rightarrow> path_root \<Rightarrow> FILE_MODE \<Rightarrow> file_descriptor option \<Rightarrow> 'd vfs \<Rightarrow> (int result \<times> file_descriptor option) \<times> 'd vfs" where
  "open_private io root mode desc v =
     (let (r, s) = fat16_open io (first root) mode (fat v); v = v\<lparr>fat := s\<rparr>
      in (case r of
            Inl e \<Rightarrow> ((Inl e, desc), v)
          | Inr p \<Rightarrow>
              let (rd, v) = (case desc of Some d \<Rightarrow> (Inr d, v) | None \<Rightarrow> file_new_descriptor v)
              in (case rd of
                    Inl e \<Rightarrow> ((Inl e, desc), v\<lparr>fat := snd (fat16_close p (fat v))\<rparr>)
                  | Inr d \<Rightarrow>
                      let d = d\<lparr>fd_private := p\<rparr>
                      in ((Inr (fd_index d), Some d),
                          v\<lparr>file_descriptors := (file_descriptors v)[nat (fd_index d - 1) := Some d]\<rparr>))))"

definition open_parsed ::
  "'d ports \<Rightarrow> path_root \<Rightarrow> FILE_MODE \<Rightarrow> 'd vfs \<Rightarrow> (int result \<times> file_descriptor option) \<times> 'd vfs" where
  "open_parsed io root mode v =
     (if first root = [] then ((Inl EINVARG, None), v)
      else if disk_get (drive_no root) = None then ((Inl EIO, None), v)
      else if disk_filesystem v = None then ((Inl EIO, None), v)
      else if mode = FILE_MODE_INVALID then ((Inl EINVARG, None), v)
      else if mode \<noteq> FILE_MODE_READ
      then (case file_new_descriptor v of
              (Inl e, v) \<Rightarrow> ((Inl e, None), v)
            | (Inr d, v) \<Rightarrow> open_private io root mode (Some d) v)
      else open_private io root mode None v)"

definition fopen_status :: "'d ports \<Rightarrow> cstring \<Rightarrow> cstring \<Rightarrow> 'd vfs \<Rightarrow> int result \<times> 'd vfs" where
  "fopen_status io path mode_str v =
     (let mode = file_get_mode_by_string mode_str
      in if mode \<noteq> FILE_MODE_READ \<and> file_validate_path (Some path) \<noteq> Inr () then (Inl EINVARG, v)
         else let (root_path, m) = pathparser_parse (kheap (fat v)) path;
                  v = v\<lparr>fat := (fat v)\<lparr>kheap := m\<rparr>\<rparr>;
                  ((res, desc), v) = (case root_path of
                      None \<Rightarrow> ((Inl EINVARG, None), v)
                    | Some root \<Rightarrow> open_parsed io root mode v);
                  v = (case (res, desc) of (Inl _, Some d) \<Rightarrow> file_free_descriptor d v | _ \<Rightarrow> v)
              in (res, v\<lparr>fat := (fat v)\<lparr>kheap := pathparser_free (kheap (fat v)) root_path\<rparr>\<rparr>))"

definition fopen :: "'d ports \<Rightarrow> cstring \<Rightarrow> cstring \<Rightarrow> 'd vfs \<Rightarrow> int \<times> 'd vfs" where
  "fopen io path mode_str v =
     (let (res, v) = fopen_status io path mode_str v in (case res of Inl _ \<Rightarrow> 0 | Inr fd \<Rightarrow> fd, v))"

section \<open>Operations on an open file\<close>

definition fstat :: "int \<Rightarrow> 'd vfs \<Rightarrow> file_stat result" where
  "fstat fd v = (case file_get_descriptor fd v of
     None \<Rightarrow> Inl EIO | Some desc \<Rightarrow> fat16_stat (fd_private desc) (fat v))"

definition fclose :: "int \<Rightarrow> 'd vfs \<Rightarrow> unit result \<times> 'd vfs" where
  "fclose fd v = (case file_get_descriptor fd v of
     None \<Rightarrow> (Inl EIO, v)
   | Some desc \<Rightarrow>
       (case fat16_close (fd_private desc) (fat v) of
          (Inl e, s) \<Rightarrow> (Inl e, v\<lparr>fat := s\<rparr>)
        | (Inr _, s) \<Rightarrow> (Inr (), file_free_descriptor desc (v\<lparr>fat := s\<rparr>))))"

definition file_open :: "'d ports \<Rightarrow> cstring option \<Rightarrow> FILE_MODE \<Rightarrow> 'd vfs \<Rightarrow> int result \<times> 'd vfs" where
  "file_open io path mode v =
     (if mode = FILE_MODE_INVALID \<or> file_validate_path path \<noteq> Inr () then (Inl EINVARG, v)
      else let mode_str = (case mode of FILE_MODE_READ \<Rightarrow> [114] | FILE_MODE_WRITE \<Rightarrow> [119] | _ \<Rightarrow> [97]);
               (res, v) = fopen_status io (the path) mode_str v
           in (case res of
                 Inl e \<Rightarrow> (Inl e, v)
               | Inr fd \<Rightarrow>
                   if fd > 0
                   then (case fstat fd v of Inl e \<Rightarrow> (Inl e, snd (fclose fd v)) | Inr _ \<Rightarrow> (Inr fd, v))
                   else (Inr fd, v)))"

text \<open>\<open>buffer_null\<close> is a null buffer. A read returns the bytes it stored.\<close>

definition file_read :: "'d ports \<Rightarrow> int \<Rightarrow> bool \<Rightarrow> u32 \<Rightarrow> 'd vfs \<Rightarrow> (int result \<times> u8 list) \<times> 'd vfs" where
  "file_read io fd buffer_null count v = (case file_get_descriptor fd v of
     None \<Rightarrow> ((Inl EBADF, []), v)
   | Some desc \<Rightarrow>
       if count > 0x7FFFFFFF \<or> (count \<noteq> 0 \<and> buffer_null) then ((Inl EINVARG, []), v)
       else let (r, s) = fat16_read_bytes io (fd_private desc) count (fat v) in (r, v\<lparr>fat := s\<rparr>))"

definition file_write :: "'d ports \<Rightarrow> int \<Rightarrow> u8 list option \<Rightarrow> u32 \<Rightarrow> 'd vfs \<Rightarrow> int result \<times> 'd vfs" where
  "file_write io fd buffer count v = (case file_get_descriptor fd v of
     None \<Rightarrow> (Inl EBADF, v)
   | Some desc \<Rightarrow>
       if count > 0x7FFFFFFF \<or> (count \<noteq> 0 \<and> buffer = None) then (Inl EINVARG, v)
       else let (r, s) = fat16_write_bytes io (fd_private desc) (case buffer of None \<Rightarrow> [] | Some bs \<Rightarrow> bs) count (fat v)
            in (r, v\<lparr>fat := s\<rparr>))"

definition file_seek :: "int \<Rightarrow> int \<Rightarrow> FILE_SEEK_MODE \<Rightarrow> 'd vfs \<Rightarrow> int result \<times> 'd vfs" where
  "file_seek fd offset whence v = (case file_get_descriptor fd v of
     None \<Rightarrow> (Inl EBADF, v)
   | Some desc \<Rightarrow> let (r, s) = fat16_seek_signed (fd_private desc) offset whence (fat v) in (r, v\<lparr>fat := s\<rparr>))"

definition fseek :: "int \<Rightarrow> int \<Rightarrow> FILE_SEEK_MODE \<Rightarrow> 'd vfs \<Rightarrow> unit result \<times> 'd vfs" where
  "fseek fd offset whence v = (case file_get_descriptor fd v of
     None \<Rightarrow> (Inl EIO, v)
   | Some desc \<Rightarrow> let (r, s) = fat16_seek (fd_private desc) (word_of_int offset) whence (fat v) in (r, v\<lparr>fat := s\<rparr>))"

definition fread :: "'d ports \<Rightarrow> u32 \<Rightarrow> u32 \<Rightarrow> int \<Rightarrow> 'd vfs \<Rightarrow> (int result \<times> u8 list) \<times> 'd vfs" where
  "fread io sz nmemb fd v =
     (if sz = 0 \<or> nmemb = 0 \<or> fd < 1 then ((Inl EINVARG, []), v)
      else (case file_get_descriptor fd v of
              None \<Rightarrow> ((Inl EINVARG, []), v)
            | Some desc \<Rightarrow> let (r, s) = fat16_read io (fd_private desc) sz nmemb (fat v) in (r, v\<lparr>fat := s\<rparr>)))"

section \<open>The table stays consistent\<close>

definition desc_table :: "'d vfs \<Rightarrow> bool" where
  "desc_table v \<longleftrightarrow> length (file_descriptors v) = RORTHOX_MAX_FILE_DESCRIPTORS \<and>
     (\<forall>i < RORTHOX_MAX_FILE_DESCRIPTORS. \<forall>d. file_descriptors v ! i = Some d \<longrightarrow> fd_index d = int i + 1)"

lemma desc_table_get:
  assumes "desc_table v" "file_get_descriptor fd v = Some d"
  shows "1 \<le> fd" "fd \<le> 512" "fd_index d = fd"
proof -
  from assms(2) show r: "1 \<le> fd" "fd \<le> 512"
    by (auto simp: file_get_descriptor_def RORTHOX_MAX_FILE_DESCRIPTORS_def split: if_splits)
  with assms have "nat (fd - 1) < RORTHOX_MAX_FILE_DESCRIPTORS" "file_descriptors v ! nat (fd - 1) = Some d"
    by (auto simp: file_get_descriptor_def RORTHOX_MAX_FILE_DESCRIPTORS_def)
  with assms(1) have "fd_index d = int (nat (fd - 1)) + 1" unfolding desc_table_def by blast
  with r show "fd_index d = fd" by simp
qed

lemma desc_table_cong: "file_descriptors v' = file_descriptors v \<Longrightarrow> desc_table v' = desc_table v"
  by (simp add: desc_table_def)

lemma desc_table_put:
  "desc_table v \<Longrightarrow> fd_index d = int i + 1 \<Longrightarrow> file_descriptors v' = (file_descriptors v)[i := Some d] \<Longrightarrow> desc_table v'"
  by (auto simp: desc_table_def) (metis nth_list_update_eq nth_list_update_neq option.inject)

lemma desc_table_drop: "desc_table v \<Longrightarrow> file_descriptors v' = (file_descriptors v)[i := None] \<Longrightarrow> desc_table v'"
  by (auto simp: desc_table_def) (metis nth_list_update_eq nth_list_update_neq option.distinct(1))

lemma free_slot_Some:
  "free_slot ds = Some i \<longleftrightarrow> i < length ds \<and> ds ! i = None \<and> (\<forall>j < i. ds ! j \<noteq> None)"
proof (induction ds arbitrary: i)
  case (Cons d ds)
  show ?case
    by (cases i) (auto simp: Cons.IH less_Suc_eq_0_disj all_conj_distrib)
qed simp

lemma free_slot_None: "free_slot ds = None \<longleftrightarrow> None \<notin> set ds"
  by (induction ds) auto

lemma new_descriptor_cases:
  assumes "file_new_descriptor v = (r, v')"
  obtains (fail) "r = Inl ENOMEM" "file_descriptors v' = file_descriptors v" "disk_filesystem v' = disk_filesystem v"
  | (ok) i d where "r = Inr d" "free_slot (file_descriptors v) = Some i" "fd_index d = int i + 1"
      "file_descriptors v' = (file_descriptors v)[i := Some d]" "disk_filesystem v' = disk_filesystem v"
proof (cases "free_slot (file_descriptors v)")
  case None
  with assms show ?thesis by (intro fail) (auto simp: file_new_descriptor_def)
next
  case (Some i)
  obtain p s where k: "fs_kzalloc 16 (fat v) = (p, s)" by (cases "fs_kzalloc 16 (fat v)") blast
  show ?thesis
  proof (cases "p = 0")
    case True
    with assms Some k show ?thesis by (intro fail) (auto simp: file_new_descriptor_def)
  next
    case False
    show ?thesis
      using assms Some k False by (intro ok [of "\<lparr>fd_addr = p, fd_index = int i + 1, fd_private = 0\<rparr>" i]) (auto simp: file_new_descriptor_def Let_def)
  qed
qed

text \<open>How opening changes the table: not at all, or one free slot is taken by the descriptor.\<close>

definition took_slot :: "'d vfs \<Rightarrow> nat \<Rightarrow> file_descriptor \<Rightarrow> 'd vfs \<Rightarrow> bool" where
  "took_slot v i d v' \<longleftrightarrow> free_slot (file_descriptors v) = Some i \<and> fd_index d = int i + 1 \<and>
     file_descriptors v' = (file_descriptors v)[i := Some d]"

lemma open_private_cases:
  assumes "open_private io root mode desc v = ((r, desc'), v')"
    and "desc = None \<and> file_descriptors v = file_descriptors v0 \<or> (\<exists>i d. desc = Some d \<and> took_slot v0 i d v)"
  shows "(\<exists>e. r = Inl e) \<and> desc' = None \<and> file_descriptors v' = file_descriptors v0 \<or>
    (\<exists>i d. (r = Inr (int i + 1) \<or> (\<exists>e. r = Inl e)) \<and> desc' = Some d \<and> took_slot v0 i d v')"
proof -
  obtain ro s where o: "fat16_open io (first root) mode (fat v) = (ro, s)"
    by (cases "fat16_open io (first root) mode (fat v)") blast
  show ?thesis
  proof (cases ro)
    case (Inl e)
    with assms o show ?thesis by (auto simp: open_private_def took_slot_def)
  next
    case (Inr p)
    show ?thesis
    proof (cases desc)
      case None
      obtain rd w where n: "file_new_descriptor (v\<lparr>fat := s\<rparr>) = (rd, w)"
        by (cases "file_new_descriptor (v\<lparr>fat := s\<rparr>)") blast
      from n show ?thesis
      proof (cases rule: new_descriptor_cases)
        case fail
        with assms o Inr None n show ?thesis by (auto simp: open_private_def)
      next
        case (ok i d)
        have "took_slot v0 i (d\<lparr>fd_private := p\<rparr>) v'" "r = Inr (int i + 1)" "desc' = Some (d\<lparr>fd_private := p\<rparr>)"
          using assms o Inr None n ok by (auto simp: open_private_def took_slot_def Let_def)
        then show ?thesis by blast
      qed
    next
      case (Some d)
      then obtain i where i: "took_slot v0 i d v" using assms(2) by auto
      have "took_slot v0 i (d\<lparr>fd_private := p\<rparr>) v'" "r = Inr (int i + 1)" "desc' = Some (d\<lparr>fd_private := p\<rparr>)"
        using assms(1) o Inr Some i by (auto simp: open_private_def took_slot_def Let_def)
      then show ?thesis by blast
    qed
  qed
qed

lemma open_parsed_cases:
  assumes "open_parsed io root mode v = ((r, desc'), v')"
  shows "(\<exists>e. r = Inl e) \<and> desc' = None \<and> file_descriptors v' = file_descriptors v \<or>
    (\<exists>i d. (r = Inr (int i + 1) \<or> (\<exists>e. r = Inl e)) \<and> desc' = Some d \<and> took_slot v i d v')"
proof (cases "first root = [] \<or> disk_get (drive_no root) = None \<or> disk_filesystem v = None \<or> mode = FILE_MODE_INVALID")
  case True
  with assms show ?thesis by (auto simp: open_parsed_def split: if_splits)
next
  case valid: False
  show ?thesis
  proof (cases "mode = FILE_MODE_READ")
    case True
    with assms valid have "open_private io root mode None v = ((r, desc'), v')" by (auto simp: open_parsed_def)
    from open_private_cases [OF this, of v] show ?thesis by simp
  next
    case False
    obtain rd w where n: "file_new_descriptor v = (rd, w)" by (cases "file_new_descriptor v") blast
    from n show ?thesis
    proof (cases rule: new_descriptor_cases)
      case fail
      with assms valid False n show ?thesis by (auto simp: open_parsed_def)
    next
      case (ok i d)
      with assms valid False n have "open_private io root mode (Some d) w = ((r, desc'), v')" by (auto simp: open_parsed_def)
      from open_private_cases [OF this, of v] ok show ?thesis by (auto simp: took_slot_def)
    qed
  qed
qed

lemma took_slot_release: "took_slot v i d w \<Longrightarrow> (file_descriptors w)[nat (fd_index d - 1) := None] = file_descriptors v"
  by (auto simp: took_slot_def free_slot_Some list_update_same_conv)

lemma fopen_status_cases:
  assumes "fopen_status io path mode_str v = (r, v')"
  obtains (error) e where "r = Inl e" "file_descriptors v' = file_descriptors v"
  | (opened) i d where "r = Inr (int i + 1)" "took_slot v i d v'"
proof (cases "file_get_mode_by_string mode_str \<noteq> FILE_MODE_READ \<and> file_validate_path (Some path) \<noteq> Inr ()")
  case True
  with assms show ?thesis by (intro error) (auto simp: fopen_status_def)
next
  case valid: False
  obtain rp m where p: "pathparser_parse (kheap (fat v)) path = (rp, m)"
    by (cases "pathparser_parse (kheap (fat v)) path") blast
  let ?v = "v\<lparr>fat := (fat v)\<lparr>kheap := m\<rparr>\<rparr>"
  show ?thesis
  proof (cases rp)
    case None
    with assms valid p show ?thesis by (intro error) (auto simp: fopen_status_def Let_def)
  next
    case (Some root)
    obtain r1 d1 v1 where o: "open_parsed io root (file_get_mode_by_string mode_str) ?v = ((r1, d1), v1)"
      by (cases "open_parsed io root (file_get_mode_by_string mode_str) ?v") (auto intro: prod.exhaust)
    have t: "took_slot ?v i d v1 = took_slot v i d v1" for i d by (simp add: took_slot_def)
    from open_parsed_cases [OF o, unfolded t] consider e where "r1 = Inl e" "d1 = None" "file_descriptors v1 = file_descriptors v"
      | e i d where "r1 = Inl e" "d1 = Some d" "took_slot v i d v1" | i d where "r1 = Inr (int i + 1)" "d1 = Some d" "took_slot v i d v1"
      by fastforce
    then show ?thesis
    proof cases
      case 1
      with assms valid p Some o show ?thesis by (intro error) (auto simp: fopen_status_def Let_def)
    next
      case 2
      with assms valid p Some o took_slot_release [OF 2(3)] show ?thesis
        by (intro error) (auto simp: fopen_status_def Let_def file_free_descriptor_def)
    next
      case 3
      with assms valid p Some o show ?thesis by (intro opened [of i d]) (auto simp: fopen_status_def Let_def took_slot_def)
    qed
  qed
qed

end
