(* ===== verification/Vfs_Names.thy ===== *)
theory Vfs_Names
  imports Vfs
begin

text \<open>
  The paths that \<^verbatim>\<open>file_validate_path\<close> accepts, and the short names that FAT16 makes of their parts.
\<close>

section \<open>Which paths are valid\<close>

text \<open>
  The reference: a path is \<^verbatim>\<open>0:/\<close> and one or more parts separated by single slashes; a part is one to
  eight characters, optionally followed by a dot and one to three more.
\<close>

definition name_char :: "u8 \<Rightarrow> bool" where
  "name_char c \<longleftrightarrow> 0x20 < c \<and> c < 0x7F \<and> c \<noteq> 46 \<and> c \<noteq> 47 \<and> c \<notin> set bad_chars"

definition part_83 :: "u8 list \<Rightarrow> bool" where
  "part_83 w \<longleftrightarrow> (\<exists>b e. 1 \<le> length b \<and> length b \<le> 8 \<and> list_all name_char b \<and>
     (w = b \<or> 1 \<le> length e \<and> length e \<le> 3 \<and> list_all name_char e \<and> w = b @ 46 # e))"

fun join_parts :: "u8 list list \<Rightarrow> u8 list" where
  "join_parts [] = []"
| "join_parts [w] = w"
| "join_parts (w # ws) = w @ 47 # join_parts ws"

definition part_end :: "cstring \<Rightarrow> bool" where
  "part_end rest \<longleftrightarrow> rest = [] \<or> hd rest = 0 \<or> hd rest = 47"

lemma name_char_facts:
  assumes "name_char c"
  shows "c \<noteq> 0" "c \<noteq> 46" "c \<noteq> 47" "\<not> (c \<le> 0x20 \<or> c \<ge> 0x7F)" "c \<notin> set bad_chars"
  using assms by (auto simp: name_char_def)

lemma validate_ext_dest:
  "validate_part p b e True = Some (b', e', d', rest) \<Longrightarrow>
     \<exists>x. p = x @ rest \<and> list_all name_char x \<and> part_end rest \<and> e + length x \<le> max e 3 \<and> b' = b \<and> e' = e + length x \<and> d'"
proof (induction p arbitrary: e)
  case Nil
  then show ?case by (auto simp: part_end_def)
next
  case (Cons c p)
  show ?case
  proof (cases "c = 0 \<or> c = 47")
    case True
    with Cons.prems show ?thesis by (auto simp: part_end_def)
  next
    case False
    with Cons.prems have v: "validate_part p b (e + 1) True = Some (b', e', d', rest)" "e + 1 \<le> 3" "name_char c"
      by (auto simp: name_char_def split: if_splits)
    from Cons.IH [OF v(1)] obtain x where "p = x @ rest" "list_all name_char x" "part_end rest"
      "e + 1 + length x \<le> max (e + 1) 3" "b' = b" "e' = e + 1 + length x" d' by blast
    with v show ?thesis by (intro exI [of _ "c # x"]) auto
  qed
qed

lemma validate_ext_intro:
  "list_all name_char x \<Longrightarrow> part_end rest \<Longrightarrow> e + length x \<le> 3 \<Longrightarrow>
     validate_part (x @ rest) b e True = Some (b, e + length x, True, rest)"
proof (induction x arbitrary: e)
  case Nil
  then show ?case by (cases rest) (auto simp: part_end_def)
qed (simp add: name_char_facts)

text \<open>The characters before and behind the dot.\<close>

definition name_split :: "cstring \<Rightarrow> nat \<Rightarrow> u8 list \<Rightarrow> nat \<times> nat \<times> bool \<times> cstring \<Rightarrow> bool" where
  "name_split p b x r \<longleftrightarrow> (case r of (b', e', d', rest) \<Rightarrow>
     part_end rest \<and> list_all name_char x \<and> b' = b + length x \<and> (x \<noteq> [] \<longrightarrow> b' \<le> 8) \<and>
     (p = x @ rest \<and> e' = 0 \<and> \<not> d' \<or>
      (\<exists>y. p = x @ 46 # y @ rest \<and> list_all name_char y \<and> length y \<le> 3 \<and> e' = length y \<and> d' \<and> b' \<noteq> 0)))"

lemma validate_base_dest:
  "validate_part p b 0 False = Some r \<Longrightarrow> \<exists>x. name_split p b x r"
proof (induction p arbitrary: b)
  case Nil
  then show ?case by (intro exI [of _ "[]"]) (auto simp: part_end_def name_split_def)
next
  case (Cons c p)
  consider "c = 0 \<or> c = 47" | "c = 46" | "c \<noteq> 0" "c \<noteq> 47" "c \<noteq> 46" by blast
  then show ?case
  proof cases
    case 1
    with Cons.prems show ?thesis by (intro exI [of _ "[]"]) (auto simp: part_end_def name_split_def)
  next
    case 2
    obtain b' e' d' rest where r: "r = (b', e', d', rest)" by (cases r)
    with 2 Cons.prems have v: "validate_part p b 0 True = Some (b', e', d', rest)" "b \<noteq> 0" by (auto split: if_splits)
    from validate_ext_dest [OF v(1)] v(2) 2 show ?thesis by (intro exI [of _ "[]"]) (auto simp: name_split_def r)
  next
    case 3
    with Cons.prems have v: "validate_part p (b + 1) 0 False = Some r" "b + 1 \<le> 8" "name_char c"
      by (auto simp: name_char_def split: if_splits)
    from Cons.IH [OF v(1)] obtain x where "name_split p (b + 1) x r" by blast
    with v(2,3) show ?thesis by (intro exI [of _ "c # x"]) (auto simp: name_split_def split: prod.splits)
  qed
qed

lemma validate_base_intro:
  assumes "list_all name_char x" and "length x \<le> 8"
  shows "validate_part (x @ p) 0 0 False = validate_part p (length x) 0 False"
proof -
  have "b + length x \<le> 8 \<Longrightarrow> validate_part (x @ p) b 0 False = validate_part p (b + length x) 0 False" for b
    using assms(1)
  proof (induction x arbitrary: b)
    case (Cons c x)
    from Cons.IH [of "b + 1"] Cons.prems show ?case by (simp add: name_char_facts)
  qed simp
  from this [of 0] assms(2) show ?thesis by simp
qed

lemma validate_part_83:
  assumes "part_83 w" and "part_end rest"
  shows "\<exists>b e d. validate_part (w @ rest) 0 0 False = Some (b, e, d, rest) \<and> b \<noteq> 0 \<and> (d \<longrightarrow> e \<noteq> 0)"
proof -
  from assms(1) obtain b e where b: "1 \<le> length b" "length b \<le> 8" "list_all name_char b"
    and w: "w = b \<or> 1 \<le> length e \<and> length e \<le> 3 \<and> list_all name_char e \<and> w = b @ 46 # e"
    unfolding part_83_def by blast
  from w show ?thesis
  proof
    assume "w = b"
    moreover have "validate_part rest (length b) 0 False = Some (length b, 0, False, rest)"
      using assms(2) by (cases rest) (auto simp: part_end_def)
    ultimately have "validate_part (w @ rest) 0 0 False = Some (length b, 0, False, rest)"
      using validate_base_intro [OF b(3,2), of rest] by simp
    with b(1) show ?thesis by (intro exI conjI) auto
  next
    assume e: "1 \<le> length e \<and> length e \<le> 3 \<and> list_all name_char e \<and> w = b @ 46 # e"
    then have "validate_part (e @ rest) (length b) 0 True = Some (length b, length e, True, rest)"
      using validate_ext_intro [of e rest 0 "length b"] assms(2) by simp
    moreover have "validate_part (46 # e @ rest) (length b) 0 False = validate_part (e @ rest) (length b) 0 True"
      using b(1) by (cases b) auto
    ultimately have "validate_part (w @ rest) 0 0 False = Some (length b, length e, True, rest)"
      using validate_base_intro [OF b(3,2), of "46 # e @ rest"] e by simp
    with b(1) e show ?thesis by (intro exI conjI) auto
  qed
qed

lemma validate_part_83_dest:
  assumes "validate_part p 0 0 False = Some (b, e, d, rest)" and "b \<noteq> 0" and "d \<longrightarrow> e \<noteq> 0"
  shows "\<exists>w. p = w @ rest \<and> part_83 w \<and> part_end rest"
proof -
  obtain x where x: "name_split p 0 x (b, e, d, rest)" using validate_base_dest [OF assms(1)] by blast
  then have "length x \<le> 8" "1 \<le> length x" "list_all name_char x" "part_end rest"
    using assms(2) by (auto simp: name_split_def Suc_le_eq)
  note x' = this
  from x consider "p = x @ rest" | y where "p = x @ 46 # y @ rest" "list_all name_char y" "length y \<le> 3" "e = length y" d
    by (auto simp: name_split_def)
  then show ?thesis
  proof cases
    case 1
    with x' show ?thesis by (intro exI [of _ x]) (auto simp: part_83_def)
  next
    case 2
    then have "part_83 (x @ 46 # y)"
      unfolding part_83_def using x' assms(3) by (intro exI [of _ x] exI [of _ y]) (auto simp: Suc_le_eq)
    with 2 x' show ?thesis by (intro exI [of _ "x @ 46 # y"]) simp
  qed
qed

text \<open>A whole path behind the drive; a C string ends at its first NUL.\<close>

lemma part_83_chars: "part_83 w \<Longrightarrow> w \<noteq> [] \<and> 0 \<notin> set w \<and> 47 \<notin> set w"
proof -
  assume w: "part_83 w"
  have "\<not> name_char 0" "\<not> name_char 47" by (simp_all add: name_char_def bad_chars_def)
  then have "0 \<notin> set b \<and> 47 \<notin> set b" if "list_all name_char b" for b
    using that by (auto simp: list_all_iff)
  with w show ?thesis by (auto simp: part_83_def)
qed

lemma validate_parts_dest: "validate_parts p = Inr () \<Longrightarrow> \<exists>ws. ws \<noteq> [] \<and> list_all part_83 ws \<and> cstr p = join_parts ws"
proof (induction p rule: validate_parts.induct)
  case (1 p)
  from "1.prems" obtain b e d rest where v: "validate_part p 0 0 False = Some (b, e, d, rest)"
    "b \<noteq> 0" "d \<longrightarrow> e \<noteq> 0" by (subst (asm) validate_parts.simps) (auto split: option.splits if_splits)
  from validate_part_83_dest [OF v] obtain w where w: "p = w @ rest" "part_83 w" "part_end rest" by blast
  have cw: "cstr p = w @ cstr rest"
    using w(1) part_83_chars [OF w(2)] by (auto simp: cstr_def takeWhile_append)
  show ?case
  proof (cases "char_at rest 0 = 0")
    case True
    then have "cstr rest = []" by (cases rest) (auto simp: cstr_def char_at_def)
    with cw w(2) show ?thesis by (intro exI [of _ "[w]"]) simp
  next
    case False
    then obtain rest' where r: "rest = 47 # rest'"
      using w(3) by (cases rest) (auto simp: part_end_def char_at_def)
    have n: "char_at rest 1 \<noteq> 0" and v': "validate_parts (drop 1 rest) = Inr ()"
      using "1.prems" v False by (subst (asm) validate_parts.simps, simp split: if_splits)+
    from "1.IH" [OF v(1) refl refl refl _ False n] v v' obtain ws where ws: "ws \<noteq> []" "list_all part_83 ws" "cstr (drop 1 rest) = join_parts ws"
      by auto
    have "cstr rest = 47 # join_parts ws" using r ws(3) by (simp add: cstr_def)
    with ws cw w(2) show ?thesis by (intro exI [of _ "w # ws"]) (cases ws, auto)
  qed
qed

lemma validate_parts_intro:
  "list_all part_83 ws \<Longrightarrow> ws \<noteq> [] \<Longrightarrow> cstr p = join_parts ws \<Longrightarrow> validate_parts p = Inr ()"
proof (induction ws arbitrary: p)
  case (Cons w ws)
  have w: "part_83 w" using Cons.prems by simp
  have j: "cstr p = w @ (if ws = [] then [] else 47 # join_parts ws)" using Cons.prems by (cases ws) auto
  obtain rest where p: "p = w @ rest" and rest: "cstr rest = (if ws = [] then [] else 47 # join_parts ws)"
  proof -
    have "take (length w) p = w"
      using j takeWhile_eq_take [of "\<lambda>c. c \<noteq> 0" p] by (metis append_eq_conv_conj cstr_def take_all_iff take_take min.absorb1 length_append le_add1 nat_le_linear)
    then have p: "p = w @ drop (length w) p" by (metis append_take_drop_id)
    have "cstr (w @ drop (length w) p) = w @ cstr (drop (length w) p)"
      using part_83_chars [OF w] by (auto simp: cstr_def takeWhile_append)
    then have "cstr p = w @ cstr (drop (length w) p)" using p by simp
    with j p that show ?thesis by auto
  qed
  have e: "part_end rest" using rest by (cases rest) (auto simp: part_end_def cstr_def split: if_splits)
  from validate_part_83 [OF w e] obtain b f d where v: "validate_part p 0 0 False = Some (b, f, d, rest)"
    "b \<noteq> 0" "d \<longrightarrow> f \<noteq> 0" unfolding p by blast
  show ?case
  proof (cases "ws = []")
    case True
    then have "char_at rest 0 = 0" using rest by (cases rest) (auto simp: cstr_def char_at_def split: if_splits)
    with v show ?thesis by (subst validate_parts.simps) auto
  next
    case False
    then obtain rest' where r: "rest = 47 # rest'" "cstr rest' = join_parts ws"
      using rest by (cases rest) (auto simp: cstr_def split: if_splits)
    obtain w' ws' where ws: "ws = w' # ws'" using False by (cases ws) auto
    have "cstr rest' \<noteq> []" using r(2) ws Cons.prems part_83_chars [of w'] by (cases ws') auto
    then have "char_at rest 1 \<noteq> 0" using r(1) by (cases rest') (auto simp: cstr_def char_at_def)
    moreover have "validate_parts (drop 1 rest) = Inr ()" using Cons.IH [of rest'] Cons.prems False r by simp
    ultimately show ?thesis using v r(1) by (subst validate_parts.simps) (auto simp: char_at_def)
  qed
qed simp

text \<open>
  C25. \<^verbatim>\<open>file_validate_path\<close> accepts exactly the paths of less than 108 characters that are \<^verbatim>\<open>0:/\<close> followed by
  8.3 names separated by single slashes: at least one name, no empty name, no trailing slash, at
  most one dot in a name with something on both sides, and no control, space, non-ASCII or reserved
  character.
\<close>

theorem file_validate_path_correct:
  "file_validate_path (Some f) = Inr () \<longleftrightarrow>
     length (cstr f) < RORTHOX_MAX_PATH \<and>
     (\<exists>ws. ws \<noteq> [] \<and> list_all part_83 ws \<and> cstr f = [48, 58, 47] @ join_parts ws)"
proof -
  have len: "strnlen f RORTHOX_MAX_PATH \<ge> RORTHOX_MAX_PATH \<longleftrightarrow> RORTHOX_MAX_PATH \<le> length (cstr f)"
    by (simp add: strnlen_eq)
  have pre: "strncmp f [48, 58, 47] 3 = 0 \<longleftrightarrow> take 3 (cstr f) = [48, 58, 47]"
    by (simp add: strncmp_eq cstr_def)
  have d: "cstr f = [48, 58, 47] @ cstr (drop 3 f)" if "take 3 (cstr f) = [48, 58, 47]"
  proof -
    have "\<exists>g. f = [48, 58, 47] @ g"
      using that by (cases f; cases "tl f"; cases "tl (tl f)") (auto simp: cstr_def numeral_3_eq_3 split: if_splits)
    then show ?thesis by (auto simp: cstr_def)
  qed
  show ?thesis
  proof (cases "take 3 (cstr f) = [48, 58, 47]")
    case True
    then show ?thesis
      using len pre d [OF True] validate_parts_dest [of "drop 3 f"] validate_parts_intro [of _ "drop 3 f"]
      by (auto simp: file_validate_path_def)
  next
    case False
    then have "\<not> (\<exists>ws. cstr f = [48, 58, 47] @ join_parts ws)" by auto
    with False pre show ?thesis by (auto simp: file_validate_path_def)
  qed
qed

section \<open>Short names\<close>

definition upcase :: "u8 \<Rightarrow> u8" where
  "upcase c = (if 97 \<le> c \<and> c \<le> 122 then c - 97 + 65 else c)"

lemma create_name_char:
  assumes "name_char c"
  shows "create_name (c # ps) base e dot entry =
    (if (\<not> dot \<and> base \<ge> 8) \<or> (dot \<and> e \<ge> 3) then Inl EINVARG
     else if dot then create_name ps base (e + 1) dot (entry\<lparr>ext := (ext entry)[e := upcase c]\<rparr>)
     else create_name ps (base + 1) e dot (entry\<lparr>filename := (filename entry)[base := upcase c]\<rparr>))"
  unfolding create_name.simps upcase_def Let_def using name_char_facts [OF assms] by (simp only: if_False)

lemma create_name_base:
  "list_all name_char b \<Longrightarrow> k + length b \<le> 8 \<Longrightarrow> length (filename entry) = 8 \<Longrightarrow>
   create_name (b @ rest) k e False entry = create_name rest (k + length b) e False
     (entry\<lparr>filename := take k (filename entry) @ map upcase b @ drop (k + length b) (filename entry)\<rparr>)"
proof (induction b arbitrary: k entry)
  case (Cons c b)
  let ?entry = "entry\<lparr>filename := (filename entry)[k := upcase c]\<rparr>"
  have "create_name (b @ rest) (k + 1) e False ?entry = create_name rest (k + 1 + length b) e False
     (?entry\<lparr>filename := take (k + 1) (filename ?entry) @ map upcase b @ drop (k + 1 + length b) (filename ?entry)\<rparr>)"
    using Cons.prems by (intro Cons.IH) auto
  then show ?case
    using Cons.prems by (simp add: create_name_char take_Suc_conv_app_nth del: create_name.simps)
qed simp

lemma create_name_ext:
  "list_all name_char x \<Longrightarrow> k + length x \<le> 3 \<Longrightarrow> length (ext entry) = 3 \<Longrightarrow>
   create_name x base k True entry =
     Inr (entry\<lparr>ext := take k (ext entry) @ map upcase x @ drop (k + length x) (ext entry)\<rparr>)"
proof (induction x arbitrary: k entry)
  case (Cons c x)
  let ?entry = "entry\<lparr>ext := (ext entry)[k := upcase c]\<rparr>"
  have "create_name x base (k + 1) True ?entry =
     Inr (?entry\<lparr>ext := take (k + 1) (ext ?entry) @ map upcase x @ drop (k + 1 + length x) (ext ?entry)\<rparr>)"
    using Cons.prems by (intro Cons.IH) auto
  then show ?case
    using Cons.prems by (simp add: create_name_char take_Suc_conv_app_nth del: create_name.simps)
qed simp

lemma proper_string_padded:
  "list_all (\<lambda>c. c \<noteq> 0 \<and> c \<noteq> 32) b \<Longrightarrow> i + length b \<le> n \<Longrightarrow>
   fat16_to_proper_string (b @ replicate (n - (i + length b)) 32) i n = b"
proof (induction b arbitrary: i)
  case Nil
  then show ?case by (cases "n - i") auto
next
  case (Cons c b)
  then show ?case using Cons.IH [of "i + 1"] by (cases b) auto
qed

lemma upcase_cases: "upcase c = c \<and> \<not> (97 \<le> c \<and> c \<le> 122) \<or> 97 \<le> c \<and> c \<le> 122 \<and> uint (upcase c) = uint c - 32"
  by (auto simp: upcase_def uint_sub_lem [THEN iffD1] word_le_def)

lemma upcase_name:
  assumes "name_char c"
  shows "upcase c \<noteq> 0" "upcase c \<noteq> 32" "upcase c \<noteq> 0xE5" "upcase c \<noteq> 46"
  using assms upcase_cases [of c] unfolding name_char_def by (auto simp: word_less_def word_le_def)

lemma upcase_zero: "0 = upcase c \<longleftrightarrow> c = 0"
  using upcase_cases [of c] by (auto simp: word_le_def)

lemma tolower_upcase: "tolower (upcase c) = tolower c"
proof (cases "97 \<le> c \<and> c \<le> 122")
  case True
  then have u: "97 \<le> uint c" "uint c \<le> 122" by (simp_all add: word_le_def)
  then have "sint c = uint c" "uint (c - 32) = uint c - 32"
    by (simp_all add: sint_uint signed_take_bit_int_eq_self uint_sub_lem [THEN iffD1] word_le_def)
  moreover have "sint (c - 32) = uint c - 32"
    using u calculation by (simp add: sint_uint signed_take_bit_int_eq_self)
  ultimately show ?thesis using True u by (auto simp: upcase_def tolower_def)
qed (auto simp: upcase_def)

lemma upcase_names:
  assumes "list_all name_char b"
  shows "list_all (\<lambda>c. c \<noteq> 0 \<and> c \<noteq> 32) (map upcase b)"
  using assms by (auto simp: list_all_iff upcase_name)

text \<open>The entry of a name, and what a directory listing makes of it.\<close>

lemma create_name_part:
  assumes b: "1 \<le> length b" "length b \<le> 8" "list_all name_char b"
    and x: "length x \<le> 3" "list_all name_char x"
    and w: "w = (if x = [] then b else b @ 46 # x)"
  shows "create_name w 0 0 False blank_entry = Inr (blank_entry\<lparr>
     filename := map upcase b @ replicate (8 - length b) 32, ext := map upcase x @ replicate (3 - length x) 32\<rparr>)"
proof -
  let ?e = "blank_entry\<lparr>filename := map upcase b @ replicate (8 - length b) 32\<rparr>"
  have "length (filename blank_entry) = 8" by (simp add: blank_entry_def)
  from create_name_base [OF b(3) _ this, of 0 "drop (length b) w" 0]
  have s: "create_name w 0 0 False blank_entry = create_name (drop (length b) w) (length b) 0 False ?e"
    using b(2) w by (simp add: blank_entry_def split: if_splits)
  have l: "length (ext ?e) = 3" by (simp add: blank_entry_def)
  show ?thesis
  proof (cases "x = []")
    case True
    with s w show ?thesis by (simp add: blank_entry_def)
  next
    case False
    with s w have "create_name w 0 0 False blank_entry = create_name x (length b) 0 True ?e" by simp
    with create_name_ext [OF x(2) _ l, of 0] x(1) show ?thesis by (simp add: blank_entry_def)
  qed
qed

lemma full_name_part:
  assumes b: "1 \<le> length b" "length b \<le> 8" "list_all name_char b" and x: "length x \<le> 3" "list_all name_char x"
    and i: "filename i = map upcase b @ replicate (8 - length b) 32" "ext i = map upcase x @ replicate (3 - length x) 32"
  shows "fat16_get_full_relative_filename i = map upcase (if x = [] then b else b @ 46 # x)"
proof -
  have "fat16_to_proper_string (filename i) 0 8 = map upcase b" "fat16_to_proper_string (ext i) 0 3 = map upcase x"
    using i b x proper_string_padded [OF upcase_names [OF b(3)], of 0 8] proper_string_padded [OF upcase_names [OF x(2)], of 0 3]
    by simp_all
  moreover have "x \<noteq> [] \<Longrightarrow> ext i ! 0 \<noteq> 0 \<and> ext i ! 0 \<noteq> 32" "x = [] \<Longrightarrow> ext i ! 0 = 32"
    using i(2) x(2) by (cases x; simp add: upcase_name)+
  moreover have "upcase 46 = 46" by (simp add: upcase_def)
  ultimately show ?thesis by (auto simp: fat16_get_full_relative_filename_def)
qed

text \<open>
  C26. A name that \<^verbatim>\<open>file_validate_path\<close> accepts is stored without loss: \<^verbatim>\<open>fat16_create\<close> makes an entry of it
  with all fields of their size, which is neither the end of a directory nor a slot that a lookup
  skips, whose printed name is the name in capitals, and which the comparison of a lookup finds
  under the same name again.
\<close>

theorem create_name_lookup:
  assumes "part_83 w"
  shows "\<exists>entry. create_name w 0 0 False blank_entry = Inr entry \<and>
     length (filename entry) = 8 \<and> length (ext entry) = 3 \<and> filename entry ! 0 \<noteq> 0 \<and>
     \<not> entry_skipped (fat16_modified entry) \<and>
     fat16_get_full_relative_filename (fat16_modified entry) = map upcase w \<and>
     istrncmp (fat16_get_full_relative_filename (fat16_modified entry)) w RORTHOX_MAX_PATH = 0"
proof -
  from assms obtain b x where b: "1 \<le> length b" "length b \<le> 8" "list_all name_char b"
    and x: "length x \<le> 3" "list_all name_char x" and w: "w = (if x = [] then b else b @ 46 # x)"
  proof -
    from assms obtain b e where b: "1 \<le> length b" "length b \<le> 8" "list_all name_char b"
      and "w = b \<or> 1 \<le> length e \<and> length e \<le> 3 \<and> list_all name_char e \<and> w = b @ 46 # e"
      unfolding part_83_def by blast
    then consider "w = b" | "e \<noteq> []" "length e \<le> 3" "list_all name_char e" "w = b @ 46 # e" by force
    then show ?thesis
    proof cases
      case 1
      show ?thesis using b 1 by (intro that [of b "[]"]) simp_all
    next
      case 2
      show ?thesis using b 2 by (intro that [of b e]) simp_all
    qed
  qed
  define entry where "entry = blank_entry\<lparr>filename := map upcase b @ replicate (8 - length b) 32,
    ext := map upcase x @ replicate (3 - length x) 32\<rparr>"
  have n: "fat16_get_full_relative_filename (fat16_modified entry) = map upcase w"
    using full_name_part [OF b x, of "fat16_modified entry"] w by (simp add: entry_def fat16_modified_def)
  obtain c b' where c: "b = c # b'" "name_char c" using b by (cases b) auto
  have z: "0 \<notin> set w" "0 \<notin> set (map upcase w)"
    using part_83_chars [OF assms] upcase_zero by (auto simp: image_iff) 
  then have "cstr (map upcase w) = map upcase w" "cstr w = w" by (auto simp: cstr_def takeWhile_eq_all_conv)
  then have "istrncmp (map upcase w) w RORTHOX_MAX_PATH = 0"
    by (simp add: istrncmp_eq tolower_upcase comp_def)
  moreover have "\<not> entry_skipped (fat16_modified entry)" "filename entry ! 0 \<noteq> 0"
    using upcase_name [OF c(2)] c(1)
    by (simp_all add: entry_skipped_def entry_def fat16_modified_def blank_entry_def zero_item_def item_of_def
        FAT_FILE_ARCHIVED_def FAT_FILE_VOLUME_LABEL_def)
  ultimately show ?thesis
    using create_name_part [OF b x w] b x n by (intro exI [of _ entry]) (simp add: entry_def)
qed

theorem create_name_lookup_witness:
  "part_83 [97, 46, 98] \<and> (\<exists>entry. create_name [97, 46, 98] 0 0 False blank_entry = Inr entry \<and>
     fat16_get_full_relative_filename (fat16_modified entry) = [65, 46, 66])"
proof -
  have p: "part_83 [97, 46, 98]"
    unfolding part_83_def by (intro exI [of _ "[97]"] exI [of _ "[98]"]) (simp add: name_char_def bad_chars_def)
  with create_name_lookup [OF p] show ?thesis by (auto simp: upcase_def)
qed

end
