(* ===== verification/Fat16_Example.thy ===== *)
theory Fat16_Example
  imports Fat16_Files
begin

text \<open>
  A concrete FAT16 volume on the reference drive, on which the theorems about files are evaluated.
\<close>

section \<open>An example volume\<close>

text \<open>
  A volume of 5000 clusters of one sector, with two tables of 20 sectors and a root directory of 512
  entries, mounted on the reference drive. It holds one file, \<^verbatim>\<open>A\<close>, of the five bytes
  \<^verbatim>\<open>hello\<close> in cluster 2.
\<close>

definition example_header :: fat_header where
  "example_header = \<lparr>short_jmp_ins = [0xEB, 0x3C, 0x90], oem_identifier = replicate 8 0x20, byte_per_secotr = 512,
     sectors_per_cluster = 1, reserved_sectors = 1, fat_copies = 2, root_dir_entries = 512, number_of_sectors = 5073,
     media_type = 0xF8, sectors_per_fat = 20, sectors_per_track = 32, number_of_heads = 64, hidden_sectors = 0,
     sectors_big = 0\<rparr>"

definition example_file :: fat_directory_item where
  "example_file = blank_entry\<lparr>filename := 65 # replicate 7 32, attribute := FAT_FILE_ARCHIVED,
     low_16_bits_first_cluster := 2, filesize := 5\<rparr>"

definition example_drive :: ata_drive where
  "example_drive = blank_drive\<lparr>nsectors := 5073, media := (\<lambda>n.
     if n = 1 \<or> n = 21 then [0xF8, 0xFF, 0xFF, 0xFF, 0xFF, 0xFF] @ replicate 506 0
     else if n = 41 then item_bytes example_file @ replicate 480 0
     else if n = 73 then [104, 101, 108, 108, 111] @ replicate 507 0
     else replicate 512 0)\<rparr>"

definition example_fs :: "ata_drive fs" where
  "example_fs = \<lparr>kheap = kmem_boot, fsdisk = disk_search_and_init example_drive,
     fs_private = \<lparr>private_addr = 0, header = \<lparr>primary_header = example_header,
         extended_header = \<lparr>drive_number = 0x80, win_nt_bit = 0, signatur = 0x29, volume_id = 0,
           volume_id_string = replicate 11 0x20, system_id_string = replicate 8 0x20\<rparr>\<rparr>,
       root_directory = \<lparr>dir_addr = 0, dir_item_addr = 0, dir_items = example_file # replicate 511 zero_item,
         dir_first_cluster = 0, dir_total = 1, dir_sector_pos = 41, dir_ending_sector_pos = 73\<rparr>,
       cluster_read_stream = Some \<lparr>stream_addr = 0, stream_pos = 0\<rparr>,
       fat_read_stream = Some \<lparr>stream_addr = 0, stream_pos = 0\<rparr>,
       directory_stream = Some \<lparr>stream_addr = 0, stream_pos = 0\<rparr>,
       descriptors = [], write_ready = False, mutation_disabled = False, max_writable = 0\<rparr>\<rparr>"

lemma example_drive_ok: "drive_disk_ok (disk_search_and_init example_drive)"
  by (auto simp: drive_disk_ok_def disk_search_and_init_def drive_fit_def example_drive_def blank_drive_def ATA_POLL_LIMIT_def
      RORTHOX_SECTOR_SIZE_def item_bytes_def example_file_def blank_entry_def put32_def word_bytes_def)

lemma fs_kzalloc_ok:
  assumes "grows k0 (kheap s) as" "length as < free_blocks k0" "heap_blocks n = 1" "heap_accepts n"
  obtains p m where "fs_kzalloc n s = (p, s\<lparr>kheap := m\<rparr>)" "p \<noteq> 0" "grows k0 m (as @ [p])"
proof -
  obtain p m where k: "kzalloc (kheap s) n = (p, m)" by (cases "kzalloc (kheap s) n") blast
  have "p \<noteq> 0" using grows_kzalloc_iff [OF assms(1) k assms(3,4)] assms(2) by simp
  with grows_kzalloc [OF assms(1) k _ assms(3,4)] k show ?thesis by (intro that [of p m]) (simp_all add: fs_kzalloc_def)
qed

lemma small_request: "heap_blocks 16 = 1" "heap_accepts 16" "heap_blocks 20 = 1" "heap_accepts 20"
  "heap_blocks 12 = 1" "heap_accepts 12" "heap_blocks 32 = 1" "heap_accepts 32"
  by (simp_all add: heap_blocks_def heap_accepts_def)

lemma example_file_facts:
  "filename example_file ! 0 \<noteq> 0" "\<not> entry_skipped example_file"
  "istrncmp (fat16_get_full_relative_filename example_file) [97] RORTHOX_MAX_PATH = 0"
  "attribute example_file AND FAT_FILE_SUBDIRECTORY = 0"
  by code_simp+

lemma example_find:
  assumes p: "fs_private s = fs_private example_fs" and k: "sector_size (fsdisk s) = 512"
    and g: "grows kmem_boot (kheap s) as" "length as < 100"
  obtains f m as' where "fat16_find_item_in_directory io (root_directory (fs_private s)) [97] s = (Inr f, s\<lparr>kheap := m\<rparr>)"
    "file_of f = Some example_file" "grows kmem_boot m as'" "length as' = Suc (Suc (length as))"
proof -
  let ?d = "root_directory (fs_private s)"
  have free: "length as < free_blocks kmem_boot" "length as + 1 < free_blocks kmem_boot" using g(2) by (simp_all add: kmem_boot_free)
  from fs_kzalloc_ok [OF g(1) free(1) small_request(5,6)] obtain p m where
    1: "fs_kzalloc 12 s = (p, s\<lparr>kheap := m\<rparr>)" "p \<noteq> 0" "grows kmem_boot m (as @ [p])" .
  have g': "grows kmem_boot (kheap (s\<lparr>kheap := m\<rparr>)) (as @ [p])" "length (as @ [p]) < free_blocks kmem_boot"
    using 1(3) free by simp_all
  from fs_kzalloc_ok [OF g' small_request(7,8)] obtain q m' where
    2: "fs_kzalloc 32 (s\<lparr>kheap := m\<rparr>) = (q, s\<lparr>kheap := m'\<rparr>)" "q \<noteq> 0" "grows kmem_boot m' ((as @ [p]) @ [q])" by auto
  have l: "entry_location io ?d 0 s = (Inr (41 * 512), s)"
    using p k by (simp add: entry_location_def example_fs_def wrap_int_def)
  have n: "fat16_new_fat_item_for_directory_item io example_file s =
      (Some \<lparr>item_addr = p, item_union = FileItem q example_file, entry_pos = 0\<rparr>, s\<lparr>kheap := m'\<rparr>)"
    using 1 2 example_file_facts(4) by (simp add: fat16_new_fat_item_for_directory_item_def fat_16_clone_directory_item_def Let_def)
  have "find_loop io ?d [97] 0 [example_file] s =
      (Inr \<lparr>item_addr = p, item_union = FileItem q example_file, entry_pos = 41 * 512\<rparr>, s\<lparr>kheap := m'\<rparr>)"
    using example_file_facts(1-3) l n by simp
  moreover have "take (nat (dir_total ?d)) (dir_items ?d) = [example_file]" using p by (simp add: example_fs_def)
  ultimately show ?thesis
    by (intro that [of "\<lparr>item_addr = p, item_union = FileItem q example_file, entry_pos = 41 * 512\<rparr>" m' "(as @ [p]) @ [q]"])
      (use 2(3) in \<open>simp_all add: fat16_find_item_in_directory_def file_of_def\<close>)
qed

lemma example_fat16_open:
  assumes p: "fs_private s = fs_private example_fs" and k: "sector_size (fsdisk s) = 512"
    and g: "grows kmem_boot (kheap s) as" "length as < 90" and x: "part_str x = [97]"
  obtains q f m as' where "fat16_open io [x] FILE_MODE_READ s = (Inr q, s\<lparr>kheap := m, fs_private := (fs_private s)\<lparr>descriptors :=
       [\<lparr>desc_addr = q, desc_item = f, desc_pos = 0, desc_mode = FILE_MODE_READ\<rparr>]\<rparr>\<rparr>)"
    "file_of f = Some example_file" "grows kmem_boot m as'" "length as' = Suc (Suc (Suc (length as)))"
proof -
  from g have "length as < free_blocks kmem_boot" by (simp add: kmem_boot_free)
  from fs_kzalloc_ok [OF g(1) this small_request(3,4)] obtain q m where
    1: "fs_kzalloc 20 s = (q, s\<lparr>kheap := m\<rparr>)" "q \<noteq> 0" "grows kmem_boot m (as @ [q])" .
  from example_find [of "s\<lparr>kheap := m\<rparr>" "as @ [q]" io] obtain f m' as' where
    2: "fat16_find_item_in_directory io (root_directory (fs_private s)) [97] (s\<lparr>kheap := m\<rparr>) = (Inr f, s\<lparr>kheap := m'\<rparr>)"
      "file_of f = Some example_file" "grows kmem_boot m' as'" "length as' = Suc (Suc (Suc (length as)))"
    using p k g 1(3) by auto
  have "descriptors (fs_private s) = []" using p by (simp add: example_fs_def)
  with 1 2 x show ?thesis
    by (intro that [of q f m' as']) (simp_all add: fat16_open_def open_item_def fat16_get_directory_entry_def)
qed

end
