(* ===== verification/Vfs_Table.thy ===== *)
theory Vfs_Table
  imports Vfs Fat16_Example
begin

text \<open>
  The table of open files under every operation of \<^verbatim>\<open>kernel/fs/file.c\<close>: which slot an open takes, what a
  failure and a close give back, and the invariant of all reachable states.
\<close>

lemma get_descriptor_update:
  assumes "length (file_descriptors v) = RORTHOX_MAX_FILE_DESCRIPTORS" "i < RORTHOX_MAX_FILE_DESCRIPTORS"
    and "file_descriptors v' = (file_descriptors v)[i := x]"
  shows "file_get_descriptor fd v' = (if fd = int i + 1 then x else file_get_descriptor fd v)"
proof (cases "fd = int i + 1")
  case True
  with assms show ?thesis by (simp add: file_get_descriptor_def)
next
  case False
  show ?thesis
  proof (cases "fd \<le> 0 \<or> fd > int RORTHOX_MAX_FILE_DESCRIPTORS")
    case out: True
    with False show ?thesis by (simp only: file_get_descriptor_def if_True if_False)
  next
    case inside: False
    with False have "i \<noteq> nat (fd - 1)" by auto
    then have "(file_descriptors v)[i := x] ! nat (fd - 1) = file_descriptors v ! nat (fd - 1)" by simp
    with inside False assms(3) show ?thesis by (simp only: file_get_descriptor_def if_True if_False)
  qed
qed

text \<open>
  Everything the kernel does with files, on any device \<open>io\<close>, and the states it reaches from the
  initialised tables.
\<close>

inductive file_step :: "'d ports \<Rightarrow> 'd vfs \<Rightarrow> 'd vfs \<Rightarrow> bool" for io where
  fopen: "fopen io path mode_str v = (fd, v') \<Longrightarrow> file_step io v v'"
| fclose: "fclose fd v = (r, v') \<Longrightarrow> file_step io v v'"
| open_file: "file_open io p mode v = (r, v') \<Longrightarrow> file_step io v v'"
| read_file: "file_read io fd null count v = (r, v') \<Longrightarrow> file_step io v v'"
| write_file: "file_write io fd buffer count v = (n, v') \<Longrightarrow> file_step io v v'"
| seek_file: "file_seek fd offset whence v = (n, v') \<Longrightarrow> file_step io v v'"
| fseek: "fseek fd offset whence v = (u, v') \<Longrightarrow> file_step io v v'"
| fread: "fread io sz nmemb fd v = (r, v') \<Longrightarrow> file_step io v v'"

inductive vfs_reach :: "'d ports \<Rightarrow> 'd vfs \<Rightarrow> bool" for io where
  init: "fs_init v = Some v' \<Longrightarrow> vfs_reach io v'"
| resolve: "vfs_reach io v \<Longrightarrow> vfs_reach io (fs_resolve io v)"
| step: "vfs_reach io v \<Longrightarrow> file_step io v v' \<Longrightarrow> vfs_reach io v'"

lemma table_unchanged:
  "file_read io fd null count v = (r, v') \<Longrightarrow> file_descriptors v' = file_descriptors v"
  "file_write io fd buffer count v = (n, v') \<Longrightarrow> file_descriptors v' = file_descriptors v"
  "file_seek fd offset whence v = (n, v') \<Longrightarrow> file_descriptors v' = file_descriptors v"
  "fseek fd offset whence v = (u, v') \<Longrightarrow> file_descriptors v' = file_descriptors v"
  "fread io sz nmemb fd v = (r, v') \<Longrightarrow> file_descriptors v' = file_descriptors v"
  by (auto simp: file_read_def file_write_def file_seek_def fseek_def fread_def split: option.splits if_splits prod.splits)

lemma fs_init_table: "fs_init v = Some v' \<Longrightarrow> file_descriptors v' = replicate RORTHOX_MAX_FILE_DESCRIPTORS None"
  by (auto simp: fs_init_def fs_load_def fs_insert_filesystem_def)

lemma fopen_status_inv:
  assumes "desc_table v" "fopen_status io path mode_str v = (r, v')"
  shows "desc_table v'"
  using assms(2)
  by (cases rule: fopen_status_cases) (use assms(1) in \<open>auto simp: took_slot_def intro: desc_table_put desc_table_cong [THEN iffD2]\<close>)

lemma fclose_table:
  assumes "fclose fd v = (r, v')" 
  shows "r = Inl EIO \<and> v' = v \<and> file_get_descriptor fd v = None \<or>
    r = Inr () \<and> (\<exists>d. file_get_descriptor fd v = Some d \<and> file_descriptors v' = (file_descriptors v)[nat (fd_index d - 1) := None])"
  using assms by (auto simp: fclose_def fat16_close_def file_free_descriptor_def split: option.splits)

lemma fclose_inv: "desc_table v \<Longrightarrow> fclose fd v = (r, v') \<Longrightarrow> desc_table v'"
  using fclose_table [of fd v r v'] by (auto intro: desc_table_drop)

lemma file_open_inv:
  assumes "desc_table v" "file_open io p mode v = (r, v')"
  shows "desc_table v'"
proof -
  let ?f = "fopen_status io (the p) (case mode of FILE_MODE_READ \<Rightarrow> [114] | FILE_MODE_WRITE \<Rightarrow> [119] | _ \<Rightarrow> [97]) v"
  obtain r1 v1 where f: "?f = (r1, v1)" by (cases ?f) blast
  have "v' = v \<or> v' = v1 \<or> (\<exists>fd. v' = snd (fclose fd v1))"
    using assms(2) f by (auto simp: file_open_def Let_def split: if_splits sum.splits)
  moreover have t: "desc_table v1" by (rule fopen_status_inv [OF assms(1) f])
  moreover have "desc_table (snd (fclose fd v1))" for fd using fclose_inv [OF t] by (cases "fclose fd v1") auto
  ultimately show ?thesis using assms(1) by auto
qed

lemma step_table: "file_step io v v' \<Longrightarrow> desc_table v \<Longrightarrow> desc_table v'"
proof (induction rule: file_step.induct)
  case (fopen path mode_str v fd v')
  then show ?case by (auto simp: fopen_def intro: fopen_status_inv split: prod.splits)
qed (blast intro: fclose_inv file_open_inv desc_table_cong [THEN iffD2] table_unchanged)+

lemma reach_table: "vfs_reach io v \<Longrightarrow> desc_table v"
proof (induction rule: vfs_reach.induct)
  case (init v v')
  then show ?case by (auto simp: desc_table_def dest: fs_init_table)
next
  case (resolve v)
  then show ?case by (auto simp: fs_resolve_def desc_table_def split: prod.splits)
qed (rule step_table)

section \<open>A file that is opened\<close>

definition example_vfs :: "ata_drive vfs" where
  "example_vfs = \<lparr>filesystems = Some FAT16 # replicate 11 None, file_descriptors = replicate 512 None,
     disk_filesystem = Some FAT16, fat = example_fs\<rparr>"

text \<open>Opening \<^verbatim>\<open>0:/a\<close> for reading.\<close>

definition example_name :: cstring where
  "example_name = [48, 58, 47, 97]"

lemma example_name_facts:
  "path_ok example_name" "path_components (drop 3 (cstr example_name)) = [[97]]" "tonumericdigit (char_at example_name 0) = 0"
  by code_simp+

lemma example_vfs_table: "desc_table example_vfs"
  by (simp add: desc_table_def example_vfs_def RORTHOX_MAX_FILE_DESCRIPTORS_def)

lemma example_fopen:
  obtains d v where "fopen_status ata_io example_name [114] example_vfs = (Inr 1, v)"
    "file_descriptors v = Some d # replicate 511 None" "fd_index d = 1"
    "\<exists>f. fs_private (fat v) = (fs_private example_fs)\<lparr>descriptors :=
       [\<lparr>desc_addr = fd_private d, desc_item = f, desc_pos = 0, desc_mode = FILE_MODE_READ\<rparr>]\<rparr> \<and> file_of f = Some example_file"
    "fsdisk (fat v) = fsdisk example_fs"
proof -
  obtain r m where p: "pathparser_parse kmem_boot example_name = (r, m)" by (cases "pathparser_parse kmem_boot example_name") blast
  from pathparser_parse_cases [OF kmem_boot_wf kmem_boot_low p] obtain root where
    r: "r = Some root" "drive_no root = 0" "map part_str (first root) = [[97]]" "grows kmem_boot m (root_addrs root)"
    by (cases r) (auto simp: example_name_facts kmem_boot_free)
  from r(3) obtain x where x: "first root = [x]" "part_str x = [97]" by auto
  let ?s = "example_fs\<lparr>kheap := m\<rparr>"
  have l: "length (root_addrs root) = 3" using x by (simp add: root_addrs_def part_addrs_def)
  have s: "fs_private ?s = fs_private example_fs" "sector_size (fsdisk ?s) = 512" "grows kmem_boot (kheap ?s) (root_addrs root)"
    "length (root_addrs root) < 90"
    using r(4) l by (simp_all add: example_fs_def disk_search_and_init_def RORTHOX_SECTOR_SIZE_def)
  obtain q f m' as' where o: "fat16_open ata_io [x] FILE_MODE_READ ?s = (Inr q, ?s\<lparr>kheap := m', fs_private := (fs_private ?s)\<lparr>descriptors :=
       [\<lparr>desc_addr = q, desc_item = f, desc_pos = 0, desc_mode = FILE_MODE_READ\<rparr>]\<rparr>\<rparr>)"
    "file_of f = Some example_file" "grows kmem_boot m' as'" "length as' = Suc (Suc (Suc (length (root_addrs root))))"
    by (rule example_fat16_open [OF s x(2)])
  let ?t = "?s\<lparr>kheap := m', fs_private := (fs_private ?s)\<lparr>descriptors :=
       [\<lparr>desc_addr = q, desc_item = f, desc_pos = 0, desc_mode = FILE_MODE_READ\<rparr>]\<rparr>\<rparr>"
  have "grows kmem_boot (kheap ?t) as'" "length as' < free_blocks kmem_boot" using o l by (simp_all add: kmem_boot_free)
  from fs_kzalloc_ok [OF this small_request(1,2)] obtain a m'' where
    n: "fs_kzalloc 16 ?t = (a, ?t\<lparr>kheap := m''\<rparr>)" "a \<noteq> 0" .
  have slot: "free_slot (replicate 512 (None :: file_descriptor option)) = Some 0" by (simp add: numeral_eq_Suc)
  let ?d = "\<lparr>fd_addr = a, fd_index = 1, fd_private = 0\<rparr>"
  have new: "file_new_descriptor (example_vfs\<lparr>fat := ?t\<rparr>) =
      (Inr ?d, example_vfs\<lparr>fat := ?t\<lparr>kheap := m''\<rparr>, file_descriptors := (replicate 512 None)[0 := Some ?d]\<rparr>)"
    using n slot by (simp add: file_new_descriptor_def example_vfs_def Let_def)
  have op: "open_parsed ata_io root FILE_MODE_READ (example_vfs\<lparr>fat := ?s\<rparr>) = ((Inr 1, Some (?d\<lparr>fd_private := q\<rparr>)),
      example_vfs\<lparr>fat := ?t\<lparr>kheap := m''\<rparr>, file_descriptors := (replicate 512 None)[0 := Some (?d\<lparr>fd_private := q\<rparr>)]\<rparr>)"
    using o new x r(2) by (simp add: open_parsed_def open_private_def disk_get_def example_vfs_def Let_def)
  have mode: "file_get_mode_by_string [114] = FILE_MODE_READ" by code_simp
  have v: "fopen_status ata_io example_name [114] example_vfs = (Inr 1,
      example_vfs\<lparr>fat := ?t\<lparr>kheap := pathparser_free m'' (Some root)\<rparr>, file_descriptors := (replicate 512 None)[0 := Some (?d\<lparr>fd_private := q\<rparr>)]\<rparr>)"
    using p r(1) op mode by (simp add: fopen_status_def example_vfs_def example_fs_def Let_def)
  have rep: "(replicate 512 None)[0 := y] = y # replicate 511 None" for y :: "file_descriptor option" by (simp add: numeral_eq_Suc)
  show ?thesis
    by (rule that [of _ "?d\<lparr>fd_private := q\<rparr>", OF v]) (use o(2) rep in \<open>auto\<close>)
qed

section \<open>Properties\<close>

text \<open>
  C27. Whatever sequence of opens, closes, reads, writes and seeks the kernel performs, with or without
  errors and on any device, the table of open files stays consistent: it keeps its 512 slots, and a
  descriptor that a number looks up has that number stored in it, so that \<^verbatim>\<open>file_free_descriptor\<close> always
  clears the slot of the file being closed and no other.
\<close>

theorem vfs_table_invariant:
  assumes "vfs_reach io v"
  shows "length (file_descriptors v) = 512 \<and>
    (\<forall>fd d. file_get_descriptor fd v = Some d \<longrightarrow> 1 \<le> fd \<and> fd \<le> 512 \<and> fd_index d = fd \<and>
       file_get_descriptor fd (file_free_descriptor d v) = None \<and>
       (\<forall>fd'. fd' \<noteq> fd \<longrightarrow> file_get_descriptor fd' (file_free_descriptor d v) = file_get_descriptor fd' v))"
proof -
  note t = reach_table [OF assms]
  then have len: "length (file_descriptors v) = RORTHOX_MAX_FILE_DESCRIPTORS" by (simp add: desc_table_def)
  have "file_get_descriptor fd' (file_free_descriptor d v) = (if fd' = fd then None else file_get_descriptor fd' v)"
    if "file_get_descriptor fd v = Some d" for fd fd' d
  proof -
    note d = desc_table_get [OF t that]
    have i: "nat (fd - 1) < RORTHOX_MAX_FILE_DESCRIPTORS" using d by (simp add: RORTHOX_MAX_FILE_DESCRIPTORS_def)
    have "file_descriptors (file_free_descriptor d v) = (file_descriptors v)[nat (fd - 1) := None]"
      using d by (simp add: file_free_descriptor_def)
    from get_descriptor_update [OF len i this] d show ?thesis by simp
  qed
  with len desc_table_get [OF t] show ?thesis by (simp add: RORTHOX_MAX_FILE_DESCRIPTORS_def)
qed

theorem vfs_table_invariant_witness:
  "\<exists>v d. vfs_reach ata_io v \<and> file_get_descriptor 1 v = Some d \<and> fd_index d = 1 \<and>
     file_get_descriptor 1 (file_free_descriptor d v) = None"
proof -
  obtain d v where v: "fopen_status ata_io example_name [114] example_vfs = (Inr 1, v)"
    "file_descriptors v = Some d # replicate 511 None" by (rule example_fopen)
  have "fs_init example_vfs = Some example_vfs"
    by (simp add: fs_init_def fs_load_def fs_insert_filesystem_def example_vfs_def RORTHOX_MAX_FILESYSTEMS_def
        RORTHOX_MAX_FILE_DESCRIPTORS_def eval_nat_numeral)
  then have "vfs_reach ata_io example_vfs" by (rule vfs_reach.init)
  moreover have "fopen ata_io example_name [114] example_vfs = (1, v)" using v(1) by (simp add: fopen_def)
  ultimately have r: "vfs_reach ata_io v" by (blast intro: vfs_reach.step file_step.fopen)
  have g: "file_get_descriptor 1 v = Some d" using v(2) by (simp add: file_get_descriptor_def RORTHOX_MAX_FILE_DESCRIPTORS_def)
  from vfs_table_invariant [OF r] g r show ?thesis by blast
qed

text \<open>
  C28. Opening and the table of open files. A failing \<^verbatim>\<open>fopen\<close> leaves the table as it was, whatever it had
  reserved before the failure. A successful one returns the smallest descriptor that was not in use, which
  then is in use and carries its own number, and changes no other.
\<close>

theorem fopen_status_table:
  assumes "desc_table v" and "fopen_status io path mode_str v = (r, v')"
  shows "case r of
      Inl _ \<Rightarrow> file_descriptors v' = file_descriptors v
    | Inr fd \<Rightarrow> 1 \<le> fd \<and> fd \<le> 512 \<and> file_get_descriptor fd v = None \<and>
        (\<forall>fd'. 1 \<le> fd' \<and> fd' < fd \<longrightarrow> file_get_descriptor fd' v \<noteq> None) \<and>
        (\<exists>d. file_get_descriptor fd v' = Some d \<and> fd_index d = fd) \<and>
        (\<forall>fd'. fd' \<noteq> fd \<longrightarrow> file_get_descriptor fd' v' = file_get_descriptor fd' v)"
  using assms(2)
proof (cases rule: fopen_status_cases)
  case (opened i d)
  from assms(1) have len: "length (file_descriptors v) = RORTHOX_MAX_FILE_DESCRIPTORS" by (simp add: desc_table_def)
  from opened(2) len have i: "i < RORTHOX_MAX_FILE_DESCRIPTORS" "file_descriptors v ! i = None"
    "\<forall>j < i. file_descriptors v ! j \<noteq> None" "fd_index d = int i + 1" "file_descriptors v' = (file_descriptors v)[i := Some d]"
    by (auto simp: took_slot_def free_slot_Some)
  note u = get_descriptor_update [OF len i(1,5)]
  have "file_get_descriptor fd' v \<noteq> None" if "1 \<le> fd'" "fd' < int i + 1" for fd'
  proof -
    have "nat (fd' - 1) < i" using that by auto
    with i(1,3) that show ?thesis by (auto simp: file_get_descriptor_def)
  qed
  moreover have "file_get_descriptor (int i + 1) v = None" "int i + 1 \<le> 512"
    using i(1,2) by (simp_all add: file_get_descriptor_def RORTHOX_MAX_FILE_DESCRIPTORS_def)
  ultimately show ?thesis using opened(1) i(4) u by simp
qed simp

theorem fopen_status_table_witness:
  "\<exists>v. fopen_status ata_io example_name [114] example_vfs = (Inr 1, v) \<and> file_get_descriptor 1 example_vfs = None \<and>
     (\<exists>d. file_get_descriptor 1 v = Some d \<and> fd_index d = 1) \<and> file_get_descriptor 2 v = file_get_descriptor 2 example_vfs"
proof -
  obtain d v where "fopen_status ata_io example_name [114] example_vfs = (Inr 1, v)" by (rule example_fopen)
  with fopen_status_table [OF example_vfs_table this] show ?thesis by simp
qed

text \<open>
  C29. Opening and closing are inverse on the table: the descriptor that a successful \<^verbatim>\<open>fopen\<close> returns can
  be closed, and then the table is what it was before the file was opened.
\<close>

theorem fopen_fclose_table:
  assumes "desc_table v" and "fopen_status io path mode_str v = (r, v')"
  shows "case r of
      Inl _ \<Rightarrow> file_descriptors v' = file_descriptors v
    | Inr fd \<Rightarrow> fst (fclose fd v') = Inr () \<and> file_descriptors (snd (fclose fd v')) = file_descriptors v"
  using assms(2)
proof (cases rule: fopen_status_cases)
  case (opened i d)
  from assms(1) have len: "length (file_descriptors v) = RORTHOX_MAX_FILE_DESCRIPTORS" by (simp add: desc_table_def)
  with opened(2) have i: "i < RORTHOX_MAX_FILE_DESCRIPTORS" "fd_index d = int i + 1"
    "file_descriptors v' = (file_descriptors v)[i := Some d]" by (auto simp: took_slot_def free_slot_Some)
  have g: "file_get_descriptor (int i + 1) v' = Some d" using get_descriptor_update [OF len i(1,3)] by simp
  obtain rc w where c: "fclose (int i + 1) v' = (rc, w)" by (cases "fclose (int i + 1) v'") blast
  from fclose_table [OF c] g i(2) have "rc = Inr ()" "file_descriptors w = (file_descriptors v')[nat (fd_index d - 1) := None]"
    by auto
  with took_slot_release [OF opened(2)] opened(1) c show ?thesis by simp
qed simp

theorem fopen_fclose_table_witness:
  "\<exists>v. fopen_status ata_io example_name [114] example_vfs = (Inr 1, v) \<and> fst (fclose 1 v) = Inr () \<and>
     file_descriptors (snd (fclose 1 v)) = replicate 512 None"
proof -
  obtain d v where "fopen_status ata_io example_name [114] example_vfs = (Inr 1, v)" by (rule example_fopen)
  with fopen_fclose_table [OF example_vfs_table this] show ?thesis by (simp add: example_vfs_def)
qed

end
