(* ===== verification/Fat16_Media.thy ===== *)
theory Fat16_Media
  imports Fat16_Example
begin

text \<open>
  FAT16 on a disk that keeps its contents (the interface \<open>media_disk\<close>): what the entries of the table
  and the clusters hold, and that reading returns it.
\<close>

section \<open>Mounted volumes\<close>

text \<open>
  A mounted volume on a disk that keeps its contents: the three streams exist, the table is accepted by
  \<^verbatim>\<open>fat16_cluster_limit\<close>, and the tables and all clusters lie on the disk, below the positions
  an \<^verbatim>\<open>int\<close> can address.
\<close>

definition streams_open :: "'d fs \<Rightarrow> bool" where
  "streams_open s \<longleftrightarrow> cluster_read_stream (fs_private s) \<noteq> None \<and> fat_read_stream (fs_private s) \<noteq> None \<and>
     directory_stream (fs_private s) \<noteq> None"

definition data_end :: "'d fs \<Rightarrow> int" where
  "data_end s = fat16_cluster_to_sector s (fat16_cluster_limit s + 1)"

definition mounted :: "('d disk \<Rightarrow> bool) \<Rightarrow> ('d disk \<Rightarrow> nat) \<Rightarrow> 'd fs \<Rightarrow> bool" where
  "mounted ok cap s \<longleftrightarrow> ok (fsdisk s) \<and> streams_open s \<and> fat16_cluster_limit s \<noteq> 0 \<and>
     uint (reserved_sectors (hdr s)) + uint (sectors_per_fat (hdr s)) \<le> dir_ending_sector_pos (root_directory (fs_private s)) \<and>
     data_end s \<le> int (cap (fsdisk s)) \<and> data_end s * 512 \<le> INT_MAX"

text \<open>Two states that differ in stream positions and the registers of the drive only.\<close>

definition no_streams :: "fat_private \<Rightarrow> fat_private" where
  "no_streams p = p\<lparr>cluster_read_stream := None, fat_read_stream := None, directory_stream := None\<rparr>"

lemma no_streams_sel:
  assumes "no_streams p = no_streams q"
  shows "header p = header q" "root_directory p = root_directory q" "descriptors p = descriptors q"
    "write_ready p = write_ready q" "mutation_disabled p = mutation_disabled q" "max_writable p = max_writable q"
  using assms by (cases p, cases q, simp add: no_streams_def)+

definition same_volume ::
  "('d disk \<Rightarrow> bool) \<Rightarrow> ('d disk \<Rightarrow> nat \<Rightarrow> u8 list) \<Rightarrow> ('d disk \<Rightarrow> nat) \<Rightarrow> 'd fs \<Rightarrow> 'd fs \<Rightarrow> bool" where
  "same_volume ok content cap s s' \<longleftrightarrow> ok (fsdisk s') \<and> content (fsdisk s') = content (fsdisk s) \<and>
     cap (fsdisk s') = cap (fsdisk s) \<and> sector_size (fsdisk s') = sector_size (fsdisk s) \<and>
     kheap s' = kheap s \<and> streams_open s' \<and>
     no_streams (fs_private s') = no_streams (fs_private s)"

text \<open>The entry of a cluster in the first copy of the table, and the contents of a cluster.\<close>

definition fat_on :: "(nat \<Rightarrow> u8 list) \<Rightarrow> 'd fs \<Rightarrow> int \<Rightarrow> int" where
  "fat_on m s c = (let p = nat (fat16_get_first_fat_sector s * 512 + c * 2)
     in uint (bytes_word (media_byte m p) (media_byte m (p + 1))))"

definition cluster_start :: "'d fs \<Rightarrow> int \<Rightarrow> nat" where
  "cluster_start s c = nat (fat16_cluster_to_sector s c * 512)"

definition cluster_data :: "(nat \<Rightarrow> u8 list) \<Rightarrow> 'd fs \<Rightarrow> int \<Rightarrow> u8 list" where
  "cluster_data m s c = media_bytes m (cluster_start s c) (nat (cluster_bytes s))"

text \<open>A chain: valid clusters, each entry names the next one. The end is not looked at here.\<close>

fun fat_chain :: "(nat \<Rightarrow> u8 list) \<Rightarrow> 'd fs \<Rightarrow> int list \<Rightarrow> bool" where
  "fat_chain m s [] \<longleftrightarrow> True"
| "fat_chain m s [c] \<longleftrightarrow> fat16_valid_cluster s c"
| "fat_chain m s (c # d # cs) \<longleftrightarrow> fat16_valid_cluster s c \<and> fat_on m s c = d \<and> fat_chain m s (d # cs)"

lemma cluster_limit_positive:
  assumes "fat16_cluster_limit s \<noteq> 0"
  shows "4086 \<le> fat16_cluster_limit s" "sectors_per_cluster (hdr s) \<noteq> 0"
    "fat16_cluster_limit s + 1 \<le> uint (sectors_per_fat (hdr s)) * sector_size (fsdisk s) div 2"
  using assms by (auto simp: fat16_cluster_limit_def Let_def split: if_splits)

lemma valid_cluster_bounds:
  "fat16_valid_cluster s c \<Longrightarrow> 2 \<le> c \<and> c \<le> fat16_cluster_limit s \<and> fat16_cluster_limit s \<noteq> 0"
  by (auto simp: fat16_valid_cluster_def)

text \<open>What only depends on the volume.\<close>

lemma same_volume_eq:
  assumes "same_volume ok content cap s s'"
  shows "hdr s' = hdr s" "root_directory (fs_private s') = root_directory (fs_private s)"
    "fat16_cluster_limit s' = fat16_cluster_limit s" "fat16_valid_cluster s' = fat16_valid_cluster s"
    "fat16_cluster_to_sector s' = fat16_cluster_to_sector s" "cluster_bytes s' = cluster_bytes s"
    "data_end s' = data_end s" "fat_on m s' = fat_on m s" "cluster_start s' = cluster_start s"
    "cluster_data m s' = cluster_data m s"
proof -
  have z: "sector_size (fsdisk s') = sector_size (fsdisk s)" using assms by (simp add: same_volume_def)
  note p = no_streams_sel [of "fs_private s'" "fs_private s"]
  show h: "hdr s' = hdr s" and r: "root_directory (fs_private s') = root_directory (fs_private s)"
    using assms p by (simp_all add: same_volume_def)
  show l: "fat16_cluster_limit s' = fat16_cluster_limit s" by (simp only: fat16_cluster_limit_def h r z)
  show v: "fat16_valid_cluster s' = fat16_valid_cluster s" by (rule HOL.ext) (simp only: fat16_valid_cluster_def l)
  show t: "fat16_cluster_to_sector s' = fat16_cluster_to_sector s" by (rule HOL.ext) (simp only: fat16_cluster_to_sector_def h r)
  show b: "cluster_bytes s' = cluster_bytes s" by (simp only: cluster_bytes_def h z)
  show "data_end s' = data_end s" by (simp only: data_end_def t l)
  show "fat_on m s' = fat_on m s" by (rule HOL.ext) (simp only: fat_on_def fat16_get_first_fat_sector_def h)
  show st: "cluster_start s' = cluster_start s" by (rule HOL.ext) (simp only: cluster_start_def t)
  show "cluster_data m s' = cluster_data m s" by (rule HOL.ext) (simp only: cluster_data_def st b)
qed

lemma same_volume_content:
  assumes "same_volume ok content cap s s'"
  shows "content (fsdisk s') = content (fsdisk s)" "cap (fsdisk s') = cap (fsdisk s)" "kheap s' = kheap s"
    "descriptors (fs_private s') = descriptors (fs_private s)" "ok (fsdisk s')" "streams_open s'"
    "max_writable (fs_private s') = max_writable (fs_private s)"
  using assms no_streams_sel [of "fs_private s'" "fs_private s"] by (simp_all add: same_volume_def)

lemma same_volume_refl: "ok (fsdisk s) \<Longrightarrow> streams_open s \<Longrightarrow> same_volume ok content cap s s"
  by (simp add: same_volume_def)

lemma same_volume_trans:
  "same_volume ok content cap s s' \<Longrightarrow> same_volume ok content cap s' s'' \<Longrightarrow> same_volume ok content cap s s''"
  by (simp add: same_volume_def)

lemma mounted_same_volume:
  assumes "mounted ok cap s" "same_volume ok content cap s s'"
  shows "mounted ok cap s'"
  using assms(1) same_volume_eq [OF assms(2)] same_volume_content [OF assms(2)] by (simp add: mounted_def)

lemma fat_chain_same_volume:
  assumes "same_volume ok content cap s s'"
  shows "fat_chain m s' cs = fat_chain m s cs"
  by (induction cs rule: induct_list012) (simp_all add: same_volume_eq [OF assms])

section \<open>Reading\<close>

context media_disk begin

lemma seek_stream:
  assumes "mounted disk_ok capacity s"
  obtains st s' where "fs_seek w (int p) s = (Inr (), s')" "same_volume disk_ok content capacity s s'"
    "fsdisk s' = fsdisk s" "stream_of w s' = Some st" "stream_pos st = int p"
proof -
  from assms have o: "disk_ok (fsdisk s)" "streams_open s" by (simp_all add: mounted_def)
  then obtain st where st: "stream_of w s = Some st" by (cases w) (auto simp: streams_open_def stream_of_def)
  show ?thesis
    by (rule that [of "set_stream w (Some (st\<lparr>stream_pos := int p\<rparr>)) s" "st\<lparr>stream_pos := int p\<rparr>"])
      (use st o in \<open>cases w; simp add: fs_seek_def diskstreamer_seek_def set_stream_def stream_of_def same_volume_def streams_open_def no_streams_def\<close>)+
qed

lemma read_stream:
  assumes "disk_ok (fsdisk s)" "streams_open s" "stream_of w s = Some st" "stream_pos st = int p"
    and "p + n \<le> 512 * capacity (fsdisk s)" "int (p + n) \<le> INT_MAX"
  obtains s' where "fs_read io w (int n) s = ((Inr (), media_bytes (content (fsdisk s)) p n), s')"
    "same_volume disk_ok content capacity s s'"
proof -
  from diskstreamer_read [OF assms(1,4-6)] obtain k where
    k: "diskstreamer_read io st (int n) (fsdisk s) = (Inr (), media_bytes (content (fsdisk s)) p n, st\<lparr>stream_pos := int (p + n)\<rparr>, k)"
      "disk_ok k" "content k = content (fsdisk s)" "capacity k = capacity (fsdisk s)" by blast
  have "sector_size k = sector_size (fsdisk s)" using geometry [OF k(2)] geometry [OF assms(1)] by simp
  with k assms(2,3) show ?thesis
    by (intro that [of "set_stream w (Some (st\<lparr>stream_pos := int (p + n)\<rparr>)) (s\<lparr>fsdisk := k\<rparr>)"])
      (cases w; simp add: fs_read_def set_stream_def same_volume_def streams_open_def no_streams_def)+
qed

end

context media_disk begin

lemma mounted_sector_size: "mounted disk_ok capacity s \<Longrightarrow> sector_size (fsdisk s) = 512"
  using geometry [of "fsdisk s"] by (simp add: mounted_def RORTHOX_SECTOR_SIZE_def)

lemma mounted_bytes:
  assumes "mounted disk_ok capacity s" "int p \<le> data_end s * 512"
  shows "p \<le> 512 * capacity (fsdisk s)" "int p \<le> INT_MAX"
  using assms by (auto simp: mounted_def)

lemma fat_entry_position:
  assumes m: "mounted disk_ok capacity s" and c: "0 \<le> c" "c \<le> fat16_cluster_limit s"
  defines "p \<equiv> nat (fat16_get_first_fat_sector s * 512 + c * 2)"
  shows "int p = fat16_get_first_fat_sector s * 512 + c * 2" "int (p + 2) \<le> data_end s * 512"
proof -
  let ?d = "dir_ending_sector_pos (root_directory (fs_private s))"
  have l: "fat16_cluster_limit s \<noteq> 0" and r: "uint (reserved_sectors (hdr s)) + uint (sectors_per_fat (hdr s)) \<le> ?d"
    using m by (simp_all add: mounted_def)
  note lim = cluster_limit_positive [OF l] and ss = mounted_sector_size [OF m]
  have "0 \<le> fat16_get_first_fat_sector s" by (simp add: fat16_get_first_fat_sector_def)
  then show p: "int p = fat16_get_first_fat_sector s * 512 + c * 2" using c(1) by (simp add: p_def)
  have "?d \<le> data_end s"
    using lim(1) by (simp add: data_end_def fat16_cluster_to_sector_def)
  moreover have "c + 1 \<le> uint (sectors_per_fat (hdr s)) * 256" using lim(3) c(2) ss by simp
  ultimately show "int (p + 2) \<le> data_end s * 512"
    using p r by (simp add: fat16_get_first_fat_sector_def)
qed

lemma cluster_position:
  assumes m: "mounted disk_ok capacity s" and c: "fat16_valid_cluster s c"
  shows "int (cluster_start s c) = fat16_cluster_to_sector s c * 512"
    "int (cluster_start s c) + cluster_bytes s \<le> data_end s * 512" "0 < cluster_bytes s"
proof -
  let ?d = "dir_ending_sector_pos (root_directory (fs_private s))"
  let ?n = "uint (sectors_per_cluster (hdr s))"
  have "uint (reserved_sectors (hdr s)) + uint (sectors_per_fat (hdr s)) \<le> ?d" using m by (simp add: mounted_def)
  then have d: "0 \<le> ?d" using uint_ge_0 [of "reserved_sectors (hdr s)"] uint_ge_0 [of "sectors_per_fat (hdr s)"] by linarith
  note v = valid_cluster_bounds [OF c]
  have n: "0 < ?n" using cluster_limit_positive(2) [of s] v by (simp add: word_neq_0_conv word_less_def)
  have "0 \<le> fat16_cluster_to_sector s c" using d v n by (simp add: fat16_cluster_to_sector_def)
  then show s: "int (cluster_start s c) = fat16_cluster_to_sector s c * 512" by (simp add: cluster_start_def)
  show "0 < cluster_bytes s" using n mounted_sector_size [OF m] by (simp add: cluster_bytes_def)
  have "(c - 2) * ?n + ?n \<le> (fat16_cluster_limit s - 1) * ?n"
    using mult_right_mono [of "c - 1" "fat16_cluster_limit s - 1" ?n] v n by (simp add: algebra_simps)
  then show "int (cluster_start s c) + cluster_bytes s \<le> data_end s * 512"
    unfolding s using mounted_sector_size [OF m]
    by (simp add: cluster_bytes_def data_end_def fat16_cluster_to_sector_def algebra_simps)
qed

lemma get_fat_entry_media:
  assumes m: "mounted disk_ok capacity s" and c: "0 \<le> c" "c \<le> fat16_cluster_limit s"
  obtains s' where "fat16_get_fat_entry io c s = (Inr (fat_on (content (fsdisk s)) s c), s')"
    "same_volume disk_ok content capacity s s'"
proof -
  define p where "p = nat (fat16_get_first_fat_sector s * 512 + c * 2)"
  note pos = fat_entry_position [OF m c, folded p_def]
  obtain st s1 where 1: "fs_seek FatStream (int p) s = (Inr (), s1)" "same_volume disk_ok content capacity s s1"
    "fsdisk s1 = fsdisk s" "stream_of FatStream s1 = Some st" "stream_pos st = int p" by (rule seek_stream [OF m])
  note m1 = mounted_same_volume [OF m 1(2)]
  then have o: "disk_ok (fsdisk s1)" "streams_open s1" by (simp_all add: mounted_def)
  have b: "p + 2 \<le> 512 * capacity (fsdisk s1)" "int (p + 2) \<le> INT_MAX"
    using mounted_bytes [OF m pos(2)] 1(3) by simp_all
  obtain s2 where 2: "fs_read io FatStream (int 2) s1 = ((Inr (), media_bytes (content (fsdisk s1)) p 2), s2)"
    "same_volume disk_ok content capacity s1 s2" by (rule read_stream [OF o 1(4,5) b])
  have "fat_read_stream (fs_private s) \<noteq> None" using m by (simp add: mounted_def streams_open_def)
  moreover have "le16 (media_bytes (content (fsdisk s)) p 2) 0 = bytes_word (media_byte (content (fsdisk s)) p) (media_byte (content (fsdisk s)) (p + 1))"
    by (simp add: le16_def media_bytes_def)
  ultimately have "fat16_get_fat_entry io c s = (Inr (fat_on (content (fsdisk s)) s c), s2)"
    using 1(1,3) 2(1) pos(1) mounted_sector_size [OF m]
    by (simp add: fat16_get_fat_entry_def RORTHOX_FAT16_FAT_ENTRY_SIZE_def fs_read_all_def fat_on_def p_def [symmetric] Let_def)
  then show ?thesis using same_volume_trans [OF 1(2) 2(2)] by (rule that)
qed

lemma chain_next:
  assumes "fat_chain m s cs" "Suc i < length cs"
  shows "fat_on m s (cs ! i) = cs ! Suc i"
  using assms
proof (induction cs arbitrary: i rule: induct_list012)
  case (3 c d cs)
  then show ?case by (cases i) auto
qed auto

lemma chain_valid:
  assumes "fat_chain m s cs" "i < length cs"
  shows "fat16_valid_cluster s (cs ! i)"
  using assms
proof (induction cs arbitrary: i rule: induct_list012)
  case (3 c d cs)
  then show ?case by (cases i) auto
qed auto

lemma chain_short:
  assumes "fat_chain m s cs" "distinct cs" "cs \<noteq> []"
  shows "int (length cs) \<le> fat16_cluster_limit s - 1"
proof -
  have v: "\<forall>c \<in> set cs. 2 \<le> c \<and> c \<le> fat16_cluster_limit s"
    using chain_valid [OF assms(1)] by (auto simp: in_set_conv_nth fat16_valid_cluster_def)
  then have "set cs \<subseteq> {2..fat16_cluster_limit s}" by auto
  then have "card (set cs) \<le> card {2..fat16_cluster_limit s}" by (rule card_mono [rotated]) simp
  moreover have "2 \<le> fat16_cluster_limit s" using v assms(3) by (cases cs) auto
  ultimately show ?thesis using assms(2) by (simp add: distinct_card)
qed

lemma cluster_ahead_media:
  assumes "mounted disk_ok capacity s" "fat_chain (content (fsdisk s)) s cs" "i + n < length cs"
  shows "\<exists>s'. cluster_ahead n io (cs ! i) s = (Inr (cs ! (i + n)), s') \<and> same_volume disk_ok content capacity s s'"
  using assms
proof (induction n arbitrary: i s)
  case 0
  then show ?case by (auto simp: mounted_def intro: same_volume_refl)
next
  case (Suc n)
  let ?m = "content (fsdisk s)"
  have v: "fat16_valid_cluster s (cs ! i)" using chain_valid [OF Suc.prems(2), of i] Suc.prems(3) by simp
  then have c: "0 \<le> cs ! i" "cs ! i \<le> fat16_cluster_limit s" by (auto simp: fat16_valid_cluster_def)
  obtain s1 where 1: "fat16_get_fat_entry io (cs ! i) s = (Inr (fat_on ?m s (cs ! i)), s1)"
    "same_volume disk_ok content capacity s s1" by (rule get_fat_entry_media [OF Suc.prems(1) c])
  have n: "fat_on ?m s (cs ! i) = cs ! Suc i" using chain_next [OF Suc.prems(2)] Suc.prems(3) by simp
  have nv: "fat16_valid_cluster s1 (cs ! Suc i)"
    using chain_valid [OF Suc.prems(2), of "Suc i"] Suc.prems(3) same_volume_eq(4) [OF 1(2)] by simp
  have ch: "fat_chain (content (fsdisk s1)) s1 cs"
    using Suc.prems(2) fat_chain_same_volume [OF 1(2)] same_volume_content(1) [OF 1(2)] by simp
  from Suc.IH [OF mounted_same_volume [OF Suc.prems(1) 1(2)] ch, of "Suc i"] Suc.prems(3) obtain s2 where
    "cluster_ahead n io (cs ! Suc i) s1 = (Inr (cs ! (i + Suc n)), s2)" "same_volume disk_ok content capacity s1 s2" by auto
  with 1 n nv same_volume_trans [OF 1(2)] show ?case by auto
qed

end

definition chain_data :: "(nat \<Rightarrow> u8 list) \<Rightarrow> 'd fs \<Rightarrow> int list \<Rightarrow> u8 list" where
  "chain_data m s cs = concat (map (cluster_data m s) cs)"

lemma length_cluster_data [simp]: "length (cluster_data m s c) = nat (cluster_bytes s)"
  by (simp add: cluster_data_def)

lemma media_bytes_take_drop: "n \<le> k - w \<Longrightarrow> media_bytes m (p + w) n = take n (drop w (media_bytes m p k))"
  by (rule nth_equalityI) (auto simp: media_bytes_def add.assoc)

lemma chain_data_drop:
  "i < length cs \<Longrightarrow> chain_data m s (drop i cs) = cluster_data m s (cs ! i) @ chain_data m s (drop (Suc i) cs)"
  by (simp add: chain_data_def Cons_nth_drop_Suc [symmetric])

lemma chain_data_same_volume: "same_volume ok content cap s s' \<Longrightarrow> chain_data m s' cs = chain_data m s cs"
  by (simp add: chain_data_def same_volume_eq)

lemma read_internal_loop_step:
  assumes "\<not> (len \<le> 0 \<or> bs \<le> within)" and "part = (if bs - within > len then len else bs - within)"
    and "pos = fat16_cluster_to_sector s current * sector_size (fsdisk s) + within"
    and "pos mod 2 ^ 64 = pos" and "\<not> (pos > INT_MAX \<or> part > INT_MAX - pos)"
  shows "read_internal_loop io w bs current within traversed len s =
    (case fs_seek w pos s of
       (Inl e, s) \<Rightarrow> ((Inl e, []), s)
     | (Inr _, s) \<Rightarrow>
         (case fs_read io w part s of
            ((Inl e, out), s) \<Rightarrow> ((Inl e, out), s)
          | ((Inr _, out), s) \<Rightarrow>
              if len - part = 0 then ((Inr (), out), s)
              else (case fat16_get_fat_entry io current s of
                      (Inl e, s) \<Rightarrow> ((Inl e, out), s)
                    | (Inr next, s) \<Rightarrow>
                        if \<not> fat16_valid_cluster s next \<or> traversed + 1 > fat16_cluster_limit s - 1
                        then ((Inl EIO, out), s)
                        else let ((r, rest), s) = read_internal_loop io w bs next 0 (traversed + 1) (len - part) s
                             in ((r, out @ rest), s))))"
  by (subst read_internal_loop.simps, unfold Let_def, fold assms(2,3), unfold assms(4)) (use assms(1,5) in \<open>simp only: if_False\<close>)

context media_disk begin

text \<open>One round of the loop: the part of the cluster that is asked for.\<close>

lemma read_round:
  assumes m: "mounted disk_ok capacity s" and c: "fat16_valid_cluster s c" and n: "int (within + n) \<le> cluster_bytes s"
  obtains s1 s2 where "fs_seek w (fat16_cluster_to_sector s c * sector_size (fsdisk s) + int within) s = (Inr (), s1)"
    "fs_read io w (int n) s1 = ((Inr (), take n (drop within (cluster_data (content (fsdisk s)) s c))), s2)"
    "same_volume disk_ok content capacity s s2"
    "fat16_cluster_to_sector s c * sector_size (fsdisk s) + int within \<ge> 0"
    "fat16_cluster_to_sector s c * sector_size (fsdisk s) + int within + int n \<le> INT_MAX"
proof -
  note p = cluster_position [OF m c] and ss = mounted_sector_size [OF m]
  let ?p = "cluster_start s c + within"
  have e: "fat16_cluster_to_sector s c * sector_size (fsdisk s) + int within = int ?p" using p(1) ss by simp
  have le: "int (?p + n) \<le> data_end s * 512" using p(2) n by simp
  obtain st s1 where 1: "fs_seek w (int ?p) s = (Inr (), s1)" "same_volume disk_ok content capacity s s1"
    "fsdisk s1 = fsdisk s" "stream_of w s1 = Some st" "stream_pos st = int ?p" by (rule seek_stream [OF m])
  have o: "disk_ok (fsdisk s1)" "streams_open s1" using same_volume_content [OF 1(2)] by simp_all
  have b: "?p + n \<le> 512 * capacity (fsdisk s1)" "int (?p + n) \<le> INT_MAX" using mounted_bytes [OF m le] 1(3) by simp_all
  obtain s2 where 2: "fs_read io w (int n) s1 = ((Inr (), media_bytes (content (fsdisk s1)) ?p n), s2)"
    "same_volume disk_ok content capacity s1 s2" by (rule read_stream [OF o 1(4,5) b])
  have "media_bytes (content (fsdisk s1)) ?p n = take n (drop within (cluster_data (content (fsdisk s)) s c))"
    using n 1(3) by (simp add: cluster_data_def media_bytes_take_drop)
  with e 1 2 b same_volume_trans [OF 1(2) 2(2)] that show ?thesis by simp
qed

lemma read_loop_last:
  assumes m: "mounted disk_ok capacity s" and c: "fat16_valid_cluster s c" and n: "int (within + len) \<le> cluster_bytes s" "0 < len"
  shows "\<exists>s'. read_internal_loop io w (cluster_bytes s) c (int within) t (int len) s =
    ((Inr (), take len (drop within (cluster_data (content (fsdisk s)) s c))), s') \<and> same_volume disk_ok content capacity s s'"
proof -
  let ?pos = "fat16_cluster_to_sector s c * sector_size (fsdisk s) + int within"
  obtain s1 s2 where r: "fs_seek w ?pos s = (Inr (), s1)"
    "fs_read io w (int len) s1 = ((Inr (), take len (drop within (cluster_data (content (fsdisk s)) s c))), s2)"
    "same_volume disk_ok content capacity s s2" "?pos \<ge> 0" "?pos + int len \<le> INT_MAX"
    by (rule read_round [OF m c n(1)])
  have pm: "?pos mod 2 ^ 64 = ?pos" using r(4,5) by (simp add: INT_MAX_def)
  have g: "\<not> (int len \<le> 0 \<or> cluster_bytes s \<le> int within)" "\<not> (?pos > INT_MAX \<or> int len > INT_MAX - ?pos)"
    "int len = (if cluster_bytes s - int within > int len then int len else cluster_bytes s - int within)"
    using n r(5) by auto
  have "read_internal_loop io w (cluster_bytes s) c (int within) t (int len) s =
      ((Inr (), take len (drop within (cluster_data (content (fsdisk s)) s c))), s2)"
    using r(1,2) by (subst read_internal_loop_step [OF g(1,3) refl pm g(2)]) simp
  with r(3) show ?thesis by blast
qed

lemma read_loop_next:
  assumes m: "mounted disk_ok capacity s" and c: "fat16_valid_cluster s c"
    and n: "int within < cluster_bytes s" "cluster_bytes s - int within < len"
    and d: "fat16_valid_cluster s (fat_on (content (fsdisk s)) s c)" and t: "t + 1 \<le> fat16_cluster_limit s - 1"
  obtains s3 where "same_volume disk_ok content capacity s s3"
    "read_internal_loop io w (cluster_bytes s) c (int within) t len s =
      (let ((r, rest), s') = read_internal_loop io w (cluster_bytes s) (fat_on (content (fsdisk s)) s c) 0 (t + 1)
             (len - (cluster_bytes s - int within)) s3
       in ((r, drop within (cluster_data (content (fsdisk s)) s c) @ rest), s'))"
proof -
  let ?pos = "fat16_cluster_to_sector s c * sector_size (fsdisk s) + int within" and ?m = "content (fsdisk s)"
  define part where "part = nat (cluster_bytes s) - within"
  have ip: "int part = cluster_bytes s - int within" using n by (simp add: part_def)
  have wp: "int (within + part) \<le> cluster_bytes s" using ip by simp
  obtain s1 s2 where r: "fs_seek w ?pos s = (Inr (), s1)"
    "fs_read io w (int part) s1 = ((Inr (), take part (drop within (cluster_data ?m s c))), s2)"
    "same_volume disk_ok content capacity s s2" "?pos \<ge> 0" "?pos + int part \<le> INT_MAX"
    by (rule read_round [OF m c wp])
  have pm: "?pos mod 2 ^ 64 = ?pos" using r(4,5) by (simp add: INT_MAX_def)
  have g: "\<not> (len \<le> 0 \<or> cluster_bytes s \<le> int within)" "\<not> (?pos > INT_MAX \<or> int part > INT_MAX - ?pos)"
    "int part = (if cluster_bytes s - int within > len then len else cluster_bytes s - int within)"
    using n r(5) ip by auto
  note eq = same_volume_eq [OF r(3)] same_volume_content [OF r(3)]
  have b: "0 \<le> c" "c \<le> fat16_cluster_limit s2" using c by (auto simp: eq fat16_valid_cluster_def)
  obtain s3 where e: "fat16_get_fat_entry io c s2 = (Inr (fat_on (content (fsdisk s2)) s2 c), s3)"
    "same_volume disk_ok content capacity s2 s3" by (rule get_fat_entry_media [OF mounted_same_volume [OF m r(3)] b])
  note s3 = same_volume_trans [OF r(3) e(2)]
  have e': "fat16_get_fat_entry io c s2 = (Inr (fat_on ?m s c), s3)" using e(1) by (simp add: eq)
  have v: "\<not> (\<not> fat16_valid_cluster s3 (fat_on ?m s c) \<or> t + 1 > fat16_cluster_limit s3 - 1)"
    using d t same_volume_eq(3,4) [OF s3] by simp
  have tk: "take part (drop within (cluster_data ?m s c)) = drop within (cluster_data ?m s c)" by (simp add: part_def)
  have nz: "\<not> len - (cluster_bytes s - int within) = 0" using n by simp
  show ?thesis
    by (rule that [OF s3], subst read_internal_loop_step [OF g(1,3) refl pm g(2)], unfold r(1,2) e' prod.case sum.case)
      (simp only: nz v if_False e' prod.case sum.case tk ip)
qed

lemma read_loop_media:
  assumes "mounted disk_ok capacity s" "fat_chain (content (fsdisk s)) s cs" "int (length cs) \<le> fat16_cluster_limit s - 1"
    and "i < length cs" "int within < cluster_bytes s"
    and "i * nat (cluster_bytes s) + within + len \<le> length cs * nat (cluster_bytes s)"
  shows "\<exists>s'. read_internal_loop io w (cluster_bytes s) (cs ! i) (int within) (int i + 1) (int len) s =
      ((Inr (), take len (drop within (chain_data (content (fsdisk s)) s (drop i cs)))), s') \<and>
      same_volume disk_ok content capacity s s'"
  using assms
proof (induction "length cs - i" arbitrary: i within len s)
  case (Suc k)
  note m = Suc.prems(1) and ch = Suc.prems(2)
  let ?m = "content (fsdisk s)" and ?b = "cluster_bytes s" and ?c = "cs ! i"
  let ?B = "nat ?b"
  have v: "fat16_valid_cluster s ?c" by (rule chain_valid [OF ch Suc.prems(4)])
  have B: "0 < ?B" "int ?B = ?b" using cluster_position(3) [OF m v] by simp_all
  consider "len = 0" | "0 < len" "within + len \<le> ?B" | "?B < within + len" by linarith
  then show ?case
  proof cases
    case 1
    with m show ?thesis by (auto simp: read_internal_loop.simps mounted_def intro: same_volume_refl)
  next
    case 2
    then have "int (within + len) \<le> ?b" using B by linarith
    moreover have "take len (drop within (chain_data ?m s (drop i cs))) = take len (drop within (cluster_data ?m s ?c))"
      using 2 Suc.prems(4) by (simp add: chain_data_drop)
    ultimately show ?thesis using read_loop_last [OF m v _ 2(1)] by simp
  next
    case 3
    have suc: "Suc i < length cs"
    proof (rule ccontr)
      assume "\<not> Suc i < length cs"
      then have "length cs = Suc i" using Suc.prems(4) by simp
      then show False using Suc.prems(6) 3 by simp
    qed
    have nx: "fat_on ?m s ?c = cs ! Suc i" by (rule chain_next [OF ch suc])
    have d: "fat16_valid_cluster s (fat_on ?m s ?c)" using chain_valid [OF ch suc] nx by simp
    have t: "int i + 1 + 1 \<le> fat16_cluster_limit s - 1" using Suc.prems(3) suc by linarith
    have l: "?b - int within < int len" using 3 B by linarith
    obtain s3 where s3: "same_volume disk_ok content capacity s s3"
      and e: "read_internal_loop io w ?b ?c (int within) (int i + 1) (int len) s =
        (let ((r, rest), s') = read_internal_loop io w ?b (fat_on ?m s ?c) 0 (int i + 1 + 1) (int len - (?b - int within)) s3
         in ((r, drop within (cluster_data ?m s ?c) @ rest), s'))"
      by (rule read_loop_next [OF m v Suc.prems(5) l d t])
    note eq3 = same_volume_eq [OF s3] same_volume_content [OF s3]
    define len' where "len' = len - (?B - within)"
    have len': "int len - (?b - int within) = int len'" using 3 B Suc.prems(5) by (simp add: len'_def)
    have bound: "Suc i * ?B + 0 + len' \<le> length cs * ?B" using Suc.prems(5,6) 3 B by (simp add: len'_def)
    have "\<exists>s'. read_internal_loop io w (cluster_bytes s3) (cs ! Suc i) (int 0) (int (Suc i) + 1) (int len') s3 =
        ((Inr (), take len' (drop 0 (chain_data (content (fsdisk s3)) s3 (drop (Suc i) cs)))), s') \<and>
        same_volume disk_ok content capacity s3 s'"
      using Suc.hyps(2) Suc.prems(2,3) suc B bound mounted_same_volume [OF m s3] fat_chain_same_volume [OF s3]
      by (intro Suc.hyps(1)) (simp_all add: eq3)
    then obtain s4 where s4: "read_internal_loop io w ?b (cs ! Suc i) 0 (int i + 1 + 1) (int len') s3 =
        ((Inr (), take len' (chain_data ?m s (drop (Suc i) cs))), s4)" "same_volume disk_ok content capacity s3 s4"
      by (auto simp: eq3 chain_data_same_volume [OF s3] add.commute add.left_commute)
    have "take len (drop within (chain_data ?m s (drop i cs))) =
        drop within (cluster_data ?m s ?c) @ take len' (chain_data ?m s (drop (Suc i) cs))"
      using 3 Suc.prems(4,5) by (simp add: chain_data_drop len'_def)
    with e s4(1) len' nx same_volume_trans [OF s3 s4(2)] show ?thesis by simp
  qed
qed simp

end

text \<open>The clusters of a file, and its contents.\<close>

definition file_on :: "(nat \<Rightarrow> u8 list) \<Rightarrow> 'd fs \<Rightarrow> fat_directory_item \<Rightarrow> int list \<Rightarrow> bool" where
  "file_on m s i cs \<longleftrightarrow> fat_chain m s cs \<and> distinct cs \<and> (cs \<noteq> [] \<longrightarrow> hd cs = fat16_get_first_cluster i) \<and>
     unat (filesize i) \<le> length cs * nat (cluster_bytes s)"

definition file_contents :: "(nat \<Rightarrow> u8 list) \<Rightarrow> 'd fs \<Rightarrow> fat_directory_item \<Rightarrow> int list \<Rightarrow> u8 list" where
  "file_contents m s i cs = take (unat (filesize i)) (chain_data m s cs)"

lemma drop_chain_data:
  "k \<le> length cs \<Longrightarrow> drop (k * nat (cluster_bytes s) + w) (chain_data m s cs) = drop w (chain_data m s (drop k cs))"
proof (induction k arbitrary: cs)
  case (Suc k)
  then obtain c cs' where cs: "cs = c # cs'" by (cases cs) auto
  have "drop (Suc k * nat (cluster_bytes s) + w) (chain_data m s cs) = drop (k * nat (cluster_bytes s) + w) (chain_data m s cs')"
    by (simp add: cs chain_data_def)
  then show ?case using Suc cs by simp
qed simp

context media_disk begin

lemma cluster_for_offset_media:
  assumes m: "mounted disk_ok capacity s" and ch: "fat_chain (content (fsdisk s)) s cs" "distinct cs"
    and off: "off < length cs * nat (cluster_bytes s)"
  obtains s' where "fat16_get_cluster_for_offset io (hd cs) (int off) s = (Inr (cs ! (off div nat (cluster_bytes s))), s')"
    "same_volume disk_ok content capacity s s'" "off div nat (cluster_bytes s) < length cs"
proof -
  let ?b = "cluster_bytes s"
  have ne: "cs \<noteq> []" using off by auto
  have v: "fat16_valid_cluster s (hd cs)" using chain_valid [OF ch(1), of 0] ne by (simp add: hd_conv_nth)
  have B: "0 < nat ?b" "int (nat ?b) = ?b" using cluster_position(3) [OF m v] by simp_all
  have k: "off div nat ?b < length cs" using off B by (simp add: less_mult_imp_div_less)
  have a: "int off div ?b = int (off div nat ?b)" using B(2) by (metis zdiv_int)
  have lim: "\<not> int (off div nat ?b) \<ge> fat16_cluster_limit s - 1" using k chain_short [OF ch ne] by linarith
  have "cs ! 0 = hd cs" using ne by (simp add: hd_conv_nth)
  with cluster_ahead_media [OF m ch(1), of 0 "off div nat ?b"] k obtain s' where
    "cluster_ahead (off div nat ?b) io (hd cs) s = (Inr (cs ! (off div nat ?b)), s')" "same_volume disk_ok content capacity s s'"
    by auto
  with v B a lim k show ?thesis by (intro that) (simp_all add: fat16_get_cluster_for_offset_def Let_def)
qed

lemma read_internal_media:
  assumes m: "mounted disk_ok capacity s" and ch: "fat_chain (content (fsdisk s)) s cs" "distinct cs"
    and off: "off < length cs * nat (cluster_bytes s)" "off + len \<le> length cs * nat (cluster_bytes s)"
    and i: "int (off + len) \<le> INT_MAX"
  shows "\<exists>s'. fat16_read_internal io (hd cs) (int off) (int len) s =
    ((Inr (), take len (drop off (chain_data (content (fsdisk s)) s cs))), s') \<and> same_volume disk_ok content capacity s s'"
proof -
  let ?b = "cluster_bytes s" and ?m = "content (fsdisk s)"
  have ne: "cs \<noteq> []" using off by auto
  have v: "fat16_valid_cluster s (hd cs)" using chain_valid [OF ch(1), of 0] ne by (simp add: hd_conv_nth)
  have B: "0 < nat ?b" "int (nat ?b) = ?b" using cluster_position(3) [OF m v] by simp_all
  define k w where "k = off div nat ?b" and "w = off mod nat ?b"
  have kw: "off = k * nat ?b + w" by (simp add: k_def w_def)
  have dm: "int off div ?b = int k" "int off mod ?b = int w" using B(2) unfolding k_def w_def by (metis zdiv_int, metis zmod_int)
  obtain s1 where 1: "fat16_get_cluster_for_offset io (hd cs) (int off) s = (Inr (cs ! k), s1)"
    "same_volume disk_ok content capacity s s1" and k: "k < length cs"
    unfolding k_def by (rule cluster_for_offset_media [OF m ch off(1)])
  note eq = same_volume_eq [OF 1(2)] same_volume_content [OF 1(2)]
  have "\<exists>s'. read_internal_loop io ClusterStream (cluster_bytes s1) (cs ! k) (int w) (int k + 1) (int len) s1 =
      ((Inr (), take len (drop w (chain_data (content (fsdisk s1)) s1 (drop k cs)))), s') \<and>
      same_volume disk_ok content capacity s1 s'"
  proof (rule read_loop_media [OF mounted_same_volume [OF m 1(2)] _ _ k])
    show "fat_chain (content (fsdisk s1)) s1 cs" using ch(1) fat_chain_same_volume [OF 1(2)] eq by simp
    show "int (length cs) \<le> fat16_cluster_limit s1 - 1" using chain_short [OF ch ne] eq by simp
    have "w < nat ?b" using B by (simp add: w_def)
    then show "int w < cluster_bytes s1" using B eq by linarith
    show "k * nat (cluster_bytes s1) + w + len \<le> length cs * nat (cluster_bytes s1)" using off(2) kw eq by simp
  qed
  then obtain s2 where 2: "read_internal_loop io ClusterStream ?b (cs ! k) (int w) (int k + 1) (int len) s1 =
      ((Inr (), take len (drop off (chain_data ?m s cs))), s2)" "same_volume disk_ok content capacity s1 s2"
    using drop_chain_data [of k cs s w ?m] k by (auto simp: eq chain_data_same_volume [OF 1(2)] kw)
  have "\<not> (int len < 0 \<or> int off < 0 \<or> int len > INT_MAX - int off \<or> ?b = 0)" using i B by auto
  then have "fat16_read_internal io (hd cs) (int off) (int len) s = ((Inr (), take len (drop off (chain_data ?m s cs))), s2)"
    unfolding fat16_read_internal_def fat16_read_internal_from_stream_def Let_def using 1(1) 2(1) dm by simp
  with same_volume_trans [OF 1(2) 2(2)] show ?thesis by blast
qed

end

abbreviation open_desc :: "u32 \<Rightarrow> 'd fs \<Rightarrow> fat_file_descriptor option" where
  "open_desc p s \<equiv> List.find (\<lambda>d. desc_addr d = p) (descriptors (fs_private s))"

lemma find_map_pos:
  "List.find (\<lambda>d. desc_addr d = q) (map (\<lambda>d. if desc_addr d = p then d\<lparr>desc_pos := x\<rparr> else d) ds) =
     map_option (\<lambda>d. if desc_addr d = p then d\<lparr>desc_pos := x\<rparr> else d) (List.find (\<lambda>d. desc_addr d = q) ds)"
  by (induction ds) auto

lemma open_desc_addr: "open_desc p s = Some d \<Longrightarrow> desc_addr d = p"
  by (auto simp: find_Some_iff)

lemma open_desc_set_pos:
  "open_desc q (set_pos p x s) = (if p = q then map_option (\<lambda>d. d\<lparr>desc_pos := x\<rparr>) (open_desc q s) else open_desc q s)"
  by (cases "open_desc q s") (auto simp: set_pos_def find_map_pos dest: open_desc_addr)

lemma mounted_set_pos: "mounted ok cap (set_pos p x s) = mounted ok cap s"
proof -
  have "volume (set_pos p x s) = volume s" by (simp add: volume_def set_pos_def)
  from volume_limit [OF this] show ?thesis by (simp add: mounted_def data_end_def) (simp add: set_pos_def streams_open_def)
qed

context media_disk begin

text \<open>A read of an open file returns the next bytes, as many as are asked for and left.\<close>

lemma read_bytes_media:
  fixes count :: u32
  assumes m: "mounted disk_ok capacity s" and d: "open_desc p s = Some d" "desc_mode d = FILE_MODE_READ"
    and i: "file_of (desc_item d) = Some i" "file_on (content (fsdisk s)) s i cs" "uint (filesize i) \<le> INT_MAX"
  defines "n \<equiv> min (unat count) (unat (filesize i) - unat (desc_pos d))"
  shows "\<exists>s' s1. fat16_read_bytes io p count s =
      ((Inr (int n), take n (drop (unat (desc_pos d)) (file_contents (content (fsdisk s)) s i cs))), s') \<and>
      same_volume disk_ok content capacity s s1 \<and> s' = (if n = 0 then s1 else set_pos p (desc_pos d + of_nat n) s1)"
proof (cases "n = 0")
  case True
  then have "count = 0 \<or> desc_pos d \<ge> filesize i" by (auto simp: n_def word_le_nat_alt unat_eq_0 min_def split: if_splits)
  moreover have "find_desc p s = d" using d by (simp add: find_desc_def)
  moreover have "same_volume disk_ok content capacity s s" using m by (auto simp: mounted_def intro: same_volume_refl)
  ultimately show ?thesis using d i True by (auto simp: fat16_read_bytes_def Let_def)
next
  case False
  let ?pos = "unat (desc_pos d)" and ?size = "unat (filesize i)"
  have f: "find_desc p s = d" using d by (simp add: find_desc_def)
  have lt: "?pos < ?size" "count \<noteq> 0" using False by (auto simp: n_def)
  then have g: "\<not> (count = 0 \<or> desc_pos d \<ge> filesize i)" by (simp add: word_le_nat_alt)
  have sub: "unat (filesize i - desc_pos d) = ?size - ?pos" using lt by (simp add: unat_sub_if' )
  define cnt where "cnt = (if count > filesize i - desc_pos d then filesize i - desc_pos d else count)"
  have cnt: "unat cnt = n" using sub by (auto simp: cnt_def n_def word_less_nat_alt)
  then have cnt': "uint cnt = int n" "cnt = of_nat n" by (simp_all add: cnt [symmetric])
  have n: "?pos + n \<le> ?size" using lt by (simp add: n_def)
  have size: "int ?size \<le> INT_MAX" using i(3) by simp
  have len: "?size \<le> length cs * nat (cluster_bytes s)" and ch: "fat_chain (content (fsdisk s)) s cs" "distinct cs"
    and hd: "cs \<noteq> [] \<longrightarrow> hd cs = fat16_get_first_cluster i" using i(2) by (simp_all add: file_on_def)
  have h: "hd cs = fat16_get_first_cluster i" using hd len lt by auto
  have r: "?pos < length cs * nat (cluster_bytes s)" "?pos + n \<le> length cs * nat (cluster_bytes s)" "int (?pos + n) \<le> INT_MAX"
    using n lt len size by linarith+
  from read_internal_media [OF m ch r] obtain s1 where
    s1: "fat16_read_internal io (fat16_get_first_cluster i) (int ?pos) (int n) s =
      ((Inr (), take n (drop ?pos (chain_data (content (fsdisk s)) s cs))), s1)" "same_volume disk_ok content capacity s s1"
    unfolding h by blast
  have t: "take n (drop ?pos (file_contents (content (fsdisk s)) s i cs)) = take n (drop ?pos (chain_data (content (fsdisk s)) s cs))"
    using n by (simp add: file_contents_def drop_take min_def)
  have gg: "\<not> (uint (desc_pos d) > INT_MAX \<or> uint cnt > INT_MAX - uint (desc_pos d))" using r(3) cnt'(1) by simp
  have s1': "fat16_read_internal io (fat16_get_first_cluster i) (uint (desc_pos d)) (uint cnt) s =
      ((Inr (), take n (drop ?pos (chain_data (content (fsdisk s)) s cs))), s1)"
    using s1(1) by (simp add: cnt'(1))
  have md: "\<not> desc_mode d \<noteq> FILE_MODE_READ" using d(2) by simp
  have "fat16_read_bytes io p count s = ((Inr (uint cnt), take n (drop ?pos (chain_data (content (fsdisk s)) s cs))), set_pos p (desc_pos d + cnt) s1)"
    unfolding fat16_read_bytes_def Let_def f i(1) cnt_def [symmetric] option.case s1' prod.case sum.case
    by (simp only: md g gg if_False)
  then have "fat16_read_bytes io p count s = ((Inr (int n), take n (drop ?pos (chain_data (content (fsdisk s)) s cs))), set_pos p (desc_pos d + of_nat n) s1)"
    unfolding cnt'(1) by (simp only: cnt'(2))
  with s1(2) False t show ?thesis by auto
qed

end

end
