(* ===== verification/Vfs_Read.thy ===== *)
theory Vfs_Read
  imports Vfs_Table Fat16_Media
begin

text \<open>
  Reading through the whole stack: file descriptor, FAT16 chain, stream, sectors.
\<close>

lemma example_geometry:
  assumes "fs_private s = (fs_private example_fs)\<lparr>descriptors := ds\<rparr>" and "fsdisk s = fsdisk example_fs"
  shows "fat16_cluster_limit s = 5001" "cluster_bytes s = 512" "fat16_cluster_to_sector s c = 71 + c"
    "mounted drive_disk_ok (\<lambda>k. nsectors (drive k)) s"
proof -
  show l: "fat16_cluster_limit s = 5001"
    using assms by (simp add: fat16_cluster_limit_def example_fs_def example_header_def Let_def disk_search_and_init_def RORTHOX_SECTOR_SIZE_def)
  show "cluster_bytes s = 512"
    using assms by (simp add: cluster_bytes_def example_fs_def example_header_def disk_search_and_init_def RORTHOX_SECTOR_SIZE_def)
  show c: "fat16_cluster_to_sector s c = 71 + c" for c
    using assms by (simp add: fat16_cluster_to_sector_def example_fs_def example_header_def)
  show "mounted drive_disk_ok (\<lambda>k. nsectors (drive k)) s"
    using assms example_drive_ok l c [of 5002]
    by (simp add: mounted_def data_end_def streams_open_def example_fs_def example_header_def INT_MAX_def
        disk_search_and_init_def example_drive_def)
qed

lemma example_file_on:
  assumes "fs_private s = (fs_private example_fs)\<lparr>descriptors := ds\<rparr>" and "fsdisk s = fsdisk example_fs"
  shows "file_on (media (drive (fsdisk s))) s example_file [2]"
    "file_contents (media (drive (fsdisk s))) s example_file [2] = [104, 101, 108, 108, 111]"
proof -
  note g = example_geometry [OF assms]
  show "file_on (media (drive (fsdisk s))) s example_file [2]"
    by (simp add: file_on_def fat16_valid_cluster_def g fat16_get_first_cluster_def example_file_def
        RORTHOX_FAT16_BAD_SECTOR_def RORTHOX_FAT16_EOC_START_def)
  have "media (drive (fsdisk s)) 73 = [104, 101, 108, 108, 111] @ replicate 507 0"
    using assms(2) by (simp add: example_fs_def example_drive_def disk_search_and_init_def)
  then have "take 5 (cluster_data (media (drive (fsdisk s))) s 2) = [104, 101, 108, 108, 111]"
    by (simp add: cluster_data_def cluster_start_def g media_bytes_def take_map media_byte_def RORTHOX_SECTOR_SIZE_def upt_rec)
  then show "file_contents (media (drive (fsdisk s))) s example_file [2] = [104, 101, 108, 108, 111]"
    by (simp add: file_contents_def chain_data_def example_file_def)
qed

text \<open>
  C30. Reading a file. On a mounted volume whose disk keeps its contents, \<^verbatim>\<open>file_read\<close> on a file that is
  open for reading returns the bytes of the file from the current position on, as many as are asked for
  and left, whatever clusters they lie in; the position moves behind them and nothing on the disk changes.
\<close>

theorem file_read_correct:
  fixes count :: u32
  assumes "media_disk io ok content cap" and "mounted ok cap (fat v)"
    and "file_get_descriptor fd v = Some fdesc" and "open_desc (fd_private fdesc) (fat v) = Some d"
    and "desc_mode d = FILE_MODE_READ" and "file_of (desc_item d) = Some i"
    and "file_on (content (fsdisk (fat v))) (fat v) i cs" and "uint (filesize i) \<le> INT_MAX" and "count \<le> 0x7FFFFFFF"
  defines "n \<equiv> min (unat count) (unat (filesize i) - unat (desc_pos d))"
  shows "\<exists>v'. file_read io fd False count v =
      ((Inr (int n), take n (drop (unat (desc_pos d)) (file_contents (content (fsdisk (fat v))) (fat v) i cs))), v') \<and>
      content (fsdisk (fat v')) = content (fsdisk (fat v)) \<and> mounted ok cap (fat v') \<and>
      file_descriptors v' = file_descriptors v \<and>
      open_desc (fd_private fdesc) (fat v') = Some (d\<lparr>desc_pos := desc_pos d + of_nat n\<rparr>)"
proof -
  obtain s1 s' where
    r: "fat16_read_bytes io (fd_private fdesc) count (fat v) =
      ((Inr (int n), take n (drop (unat (desc_pos d)) (file_contents (content (fsdisk (fat v))) (fat v) i cs))), s')"
      "same_volume ok content cap (fat v) s1" "s' = (if n = 0 then s1 else set_pos (fd_private fdesc) (desc_pos d + of_nat n) s1)"
    using media_disk.read_bytes_media [OF assms(1,2,4-8), of count, folded n_def] by (elim exE conjE) (rule that)
  have f: "file_read io fd False count v = ((Inr (int n),
      take n (drop (unat (desc_pos d)) (file_contents (content (fsdisk (fat v))) (fat v) i cs))), v\<lparr>fat := s'\<rparr>)"
    using assms(3,9) r(1) by (simp add: file_read_def)
  note eq = same_volume_content [OF r(2)]
  have o: "open_desc (fd_private fdesc) s1 = Some d" using assms(4) eq(4) by simp
  then have "open_desc (fd_private fdesc) s' = Some (d\<lparr>desc_pos := desc_pos d + of_nat n\<rparr>)"
    unfolding r(3) using open_desc_set_pos [of "fd_private fdesc" "fd_private fdesc" _ s1] by (cases "n = 0") simp_all
  moreover have "mounted ok cap s'" "content (fsdisk s') = content (fsdisk (fat v))"
    unfolding r(3) using mounted_same_volume [OF assms(2) r(2)] mounted_set_pos [of ok cap _ _ s1] eq(1) by (cases "n = 0", simp_all add: set_pos_def)+
  ultimately show ?thesis
    using f by (intro exI [of _ "v\<lparr>fat := s'\<rparr>"] conjI) simp_all
qed

theorem file_read_correct_witness:
  "\<exists>v v'. fopen_status ata_io example_name [114] example_vfs = (Inr 1, v) \<and>
     file_read ata_io 1 False 3 v = ((Inr 3, [104, 101, 108]), v')"
proof -
  obtain d v f where v: "fopen_status ata_io example_name [114] example_vfs = (Inr 1, v)"
    "file_descriptors v = Some d # replicate 511 None"
    "fs_private (fat v) = (fs_private example_fs)\<lparr>descriptors :=
       [\<lparr>desc_addr = fd_private d, desc_item = f, desc_pos = 0, desc_mode = FILE_MODE_READ\<rparr>]\<rparr>"
    "file_of f = Some example_file" "fsdisk (fat v) = fsdisk example_fs"
    by (metis example_fopen)
  have g: "file_get_descriptor 1 v = Some d" using v(2) by (simp add: file_get_descriptor_def RORTHOX_MAX_FILE_DESCRIPTORS_def)
  let ?d = "\<lparr>desc_addr = fd_private d, desc_item = f, desc_pos = 0, desc_mode = FILE_MODE_READ\<rparr>"
  have o: "open_desc (fd_private d) (fat v) = Some ?d" "desc_mode ?d = FILE_MODE_READ" "file_of (desc_item ?d) = Some example_file"
    "uint (filesize example_file) \<le> INT_MAX"
    using v(3,4) by (simp_all add: example_file_def INT_MAX_def)
  have size: "filesize example_file = 5" by (simp add: example_file_def)
  note e = example_file_on [OF v(3,5)]
  from file_read_correct [OF ata.media_disk_axioms example_geometry(4) [OF v(3,5)] g o(1-3) e(1) o(4), of 3]
  show ?thesis using v(1) size by (auto simp: e(2))
qed

end
