(* ===== verification/Vfs_Failstop.thy ===== *)
theory Vfs_Failstop
  imports Vfs_Read
begin

text \<open>
  What reading leaves alone in the file system, and what follows for a volume on which a write has
  failed.
\<close>

section \<open>What reading leaves alone\<close>

text \<open>Everything of the volume but the streams.\<close>

abbreviation pv :: "'d fs \<Rightarrow> fat_private" where
  "pv s \<equiv> no_streams (fs_private s)"

named_theorems pv_frame \<open>reading keeps \<^verbatim>\<open>fs_private\<close>, up to the streams\<close>

lemma pv_seek [pv_frame]: "fs_seek w p s = (r, s') \<Longrightarrow> pv s' = pv s"
  by (cases w) (auto simp: fs_seek_def set_stream_def no_streams_def split: option.splits prod.splits)

lemma pv_read [pv_frame]: "fs_read io w n s = (r, s') \<Longrightarrow> pv s' = pv s"
  by (cases w) (auto simp: fs_read_def set_stream_def no_streams_def split: option.splits prod.splits)

lemma pv_read_all [pv_frame]: "fs_read_all io w n s = (r, s') \<Longrightarrow> pv s' = pv s"
  by (auto simp: fs_read_all_def split: prod.splits dest: pv_read)

lemma pv_alloc [pv_frame]: "fs_kzalloc n s = (p, s') \<Longrightarrow> pv s' = pv s"
  by (auto simp: fs_kzalloc_def split: prod.splits)

lemma pv_free [simp]: "pv (fs_kfree p s) = pv s" "pv (fat16_free_directory d s) = pv s" "pv (fat16_fat_item_free i s) = pv s"
  by (simp_all add: fs_kfree_def fat16_free_directory_def fat16_fat_item_free_def split: option.splits fat_item_union.splits)

lemma pv_fat_entry [pv_frame]: "fat16_get_fat_entry io c s = (r, s') \<Longrightarrow> pv s' = pv s"
  by (auto simp: fat16_get_fat_entry_def and_then_eq Let_def split: if_splits dest!: pv_frame)

lemma pv_ahead [pv_frame]: "cluster_ahead n io c s = (r, s') \<Longrightarrow> pv s' = pv s"
proof (induction n arbitrary: c s)
  case (Suc n)
  then show ?case by (auto simp: and_then_eq split: if_splits dest!: pv_frame)
qed simp

lemma pv_for_offset [pv_frame]: "fat16_get_cluster_for_offset io c off s = (r, s') \<Longrightarrow> pv s' = pv s"
  by (auto simp: fat16_get_cluster_for_offset_def Let_def split: if_splits dest: pv_ahead)

lemma pv_read_loop [pv_frame]: "read_internal_loop io w bs c within t len s = (r, s') \<Longrightarrow> pv s' = pv s"
proof (induction io w bs c within t len s arbitrary: r s' rule: read_internal_loop.induct)
  case (1 io w bs c within t len s)
  show ?case
    using "1.prems" "1.IH"
    by (subst (asm) read_internal_loop.simps) (auto simp: Let_def split: if_splits prod.splits sum.splits dest!: pv_frame)
qed

lemma pv_read_internal [pv_frame]: "fat16_read_internal io c off len s = (r, s') \<Longrightarrow> pv s' = pv s"
  by (auto simp: fat16_read_internal_def fat16_read_internal_from_stream_def Let_def split: if_splits prod.splits sum.splits
      dest!: pv_frame)

lemma pv_advance [pv_frame]: "directory_advance io cur s = (r, s') \<Longrightarrow> pv s' = pv s"
  by (auto simp: directory_advance_def and_then_eq split: if_splits dest!: pv_frame)

lemma pv_fetch [pv_frame]: "directory_fetch io cur pos s = (r, s') \<Longrightarrow> pv s' = pv s"
  by (auto simp: directory_fetch_def and_then_eq Let_def split: if_splits dest!: pv_frame)

lemma pv_next [pv_frame]: "fat16_directory_next io cur s = (r, s') \<Longrightarrow> pv s' = pv s"
  by (auto simp: fat16_directory_next_def and_then_eq Let_def split: if_splits option.splits dest!: pv_frame)

lemma pv_total_loop [pv_frame]: "total_items_loop left io cur n s = (r, s') \<Longrightarrow> pv s' = pv s"
proof (induction left arbitrary: cur n s)
  case 0
  then show ?case
    by (subst (asm) total_items_loop.simps) (auto simp: and_then_eq split: option.splits if_splits dest!: pv_frame)
next
  case (Suc left)
  obtain r1 s1 where n: "fat16_directory_next io cur s = (r1, s1)" by (cases "fat16_directory_next io cur s") blast
  note p = pv_next [OF n]
  show ?case
  proof (cases "\<exists>e p c. r1 = Inr (Some (e, p, c)) \<and> filename e ! 0 \<noteq> 0")
    case True
    with Suc.prems n obtain c where "total_items_loop left io c (n + 1) s1 = (r, s')"
      by (subst (asm) total_items_loop.simps) auto
    from Suc.IH [OF this] p show ?thesis by simp
  next
    case False
    with Suc.prems n p show ?thesis
      by (subst (asm) total_items_loop.simps) (cases r1; auto split: option.splits)
  qed
qed

lemma pv_total [pv_frame]: "fat16_get_total_items_for_directory io sec s = (r, s') \<Longrightarrow> pv s' = pv s"
  by (auto simp: fat16_get_total_items_for_directory_def Let_def split: if_splits sum.splits dest: pv_total_loop)

lemma pv_load_items [pv_frame]: "load_items n io cur s = (r, s') \<Longrightarrow> pv s' = pv s"
proof (induction n arbitrary: cur s r)
  case (Suc n)
  from Suc.prems show ?case
    by (auto simp: and_then_eq split: prod.splits sum.splits option.splits dest!: pv_frame Suc.IH)
qed simp

lemma pv_load_directory [pv_frame]: "fat16_load_fat_directory io i s = (d, s') \<Longrightarrow> pv s' = pv s"
  by (auto simp: fat16_load_fat_directory_def Let_def split: if_splits prod.splits sum.splits dest!: pv_frame)

lemma pv_new_item [pv_frame]: "fat16_new_fat_item_for_directory_item io i s = (d, s') \<Longrightarrow> pv s' = pv s"
  by (auto simp: fat16_new_fat_item_for_directory_item_def fat_16_clone_directory_item_def Let_def
      split: if_splits prod.splits option.splits dest!: pv_frame)

lemma pv_location [pv_frame]: "entry_location io d i s = (r, s') \<Longrightarrow> pv s' = pv s"
  by (auto simp: entry_location_def and_then_eq Let_def split: if_splits dest!: pv_frame)

lemma pv_find_loop [pv_frame]: "find_loop io d name i es s = (r, s') \<Longrightarrow> pv s' = pv s"
proof (induction io d name i es s rule: find_loop.induct)
  case (2 io d name i e es s)
  show ?case
  proof (cases "filename e ! 0 \<noteq> 0 \<and> \<not> entry_skipped e \<and> istrncmp (fat16_get_full_relative_filename e) name RORTHOX_MAX_PATH = 0")
    case True
    obtain r1 s1 where l: "entry_location io d i s = (r1, s1)" by (cases "entry_location io d i s") blast
    obtain f s2 where n: "fat16_new_fat_item_for_directory_item io e s1 = (f, s2)"
      by (cases "fat16_new_fat_item_for_directory_item io e s1") blast
    from "2.prems" True l n pv_location [OF l] pv_new_item [OF n] show ?thesis
      by (cases r1; cases f) auto
  next
    case False
    with "2.prems" "2.IH" show ?thesis by (auto split: if_splits)
  qed
qed simp

lemma pv_find [pv_frame]: "fat16_find_item_in_directory io d name s = (r, s') \<Longrightarrow> pv s' = pv s"
  by (auto simp: fat16_find_item_in_directory_def dest: pv_frame)

lemma pv_descend [pv_frame]: "descend io i ps s = (r, s') \<Longrightarrow> pv s' = pv s"
  by (induction io i ps s rule: descend.induct)
    (auto simp: Let_def split: fat_item_union.splits prod.splits sum.splits dest!: pv_frame)

lemma pv_entry [pv_frame]: "fat16_get_directory_entry io path s = (r, s') \<Longrightarrow> pv s' = pv s"
  by (auto simp: fat16_get_directory_entry_def and_then_eq dest!: pv_frame)

section \<open>Fail-stop\<close>

abbreviation disabled :: "'d fs \<Rightarrow> bool" where
  "disabled s \<equiv> mutation_disabled (fs_private s)"

lemma pv_disabled: "pv s' = pv s \<Longrightarrow> disabled s' = disabled s"
  by (rule no_streams_sel(5))

lemma disabled_prepare: "disabled s \<Longrightarrow> fat16_prepare_write io s = (Inl EIO, s)"
  by (simp add: fat16_prepare_write_def)

lemma disabled_write:
  assumes "disabled s"
  shows "\<exists>r. fat16_write_bytes io p inp count s = (r, s) \<and> (r = Inl EBADF \<or> r = Inl EIO \<or> count = 0 \<and> r = Inr 0)"
  by (auto simp: fat16_write_bytes_def Let_def disabled_prepare [OF assms])

lemma disabled_open:
  assumes "disabled s" "mode \<noteq> FILE_MODE_READ"
  shows "\<exists>e. fat16_open io path mode s = (Inl e, s)"
  using assms(2) by (auto simp: fat16_open_def disabled_prepare [OF assms(1)])

lemma disabled_open_read:
  assumes "fat16_open io path FILE_MODE_READ s = (r, s')"
  shows "disabled s' = disabled s"
proof -
  obtain p s1 where k: "fs_kzalloc 20 s = (p, s1)" by (cases "fs_kzalloc 20 s") blast
  obtain f s2 where e: "fat16_get_directory_entry io path s1 = (f, s2)" by (cases "fat16_get_directory_entry io path s1") blast
  have "disabled s2 = disabled s" using pv_entry [OF e] pv_alloc [OF k] by (intro pv_disabled) simp
  with assms k e pv_disabled [OF pv_alloc [OF k]] show ?thesis
    by (auto simp: fat16_open_def open_item_def Let_def fs_kfree_def split: if_splits sum.splits)
qed

lemma disabled_open_any:
  assumes "fat16_open io path mode s = (r, s')" "disabled s"
  shows "disabled s'"
  using assms disabled_open [OF assms(2), of mode io path] disabled_open_read [of io path s r s']
  by (cases "mode = FILE_MODE_READ") auto

lemma disabled_misc [simp]:
  "disabled (set_pos p x s) = disabled s" "disabled (fs_kfree p s) = disabled s" "disabled (s\<lparr>kheap := m\<rparr>) = disabled s"
  "disabled (fat16_fat_item_free i s) = disabled s" "disabled (snd (fat16_close p s)) = disabled s"
proof -
  show "disabled (set_pos p x s) = disabled s" "disabled (fs_kfree p s) = disabled s" "disabled (s\<lparr>kheap := m\<rparr>) = disabled s"
    by (simp_all add: set_pos_def fs_kfree_def)
  show i: "disabled (fat16_fat_item_free i s) = disabled s" for i and s :: "'a fs" by (rule pv_disabled) simp
  show "disabled (snd (fat16_close p s)) = disabled s"
    by (simp add: fat16_close_def fat16_free_file_descriptor_def Let_def fs_kfree_def i)
qed

lemma disabled_read_bytes: "fat16_read_bytes io p count s = (r, s') \<Longrightarrow> disabled s' = disabled s"
  by (auto simp: fat16_read_bytes_def Let_def split: if_splits option.splits prod.splits sum.splits dest!: pv_read_internal pv_disabled)

lemma disabled_read_members: "read_members n io p sz count s = (r, s') \<Longrightarrow> disabled s' = disabled s"
proof (induction n arbitrary: count s r)
  case (Suc n)
  then show ?case
    by (auto simp: Let_def split: if_splits prod.splits sum.splits dest!: pv_read_internal pv_disabled Suc.IH)
qed simp

lemma disabled_read: "fat16_read io p sz n s = (r, s') \<Longrightarrow> disabled s' = disabled s"
  by (auto simp: fat16_read_def split: option.splits if_splits dest: disabled_read_members)

lemma disabled_seek:
  "fat16_seek p off m s = (u, s') \<Longrightarrow> disabled s' = disabled s"
  "fat16_seek_signed p i m s = (n, s') \<Longrightarrow> disabled s' = disabled s"
  by (auto simp: fat16_seek_def fat16_seek_signed_def Let_def split: option.splits if_splits FILE_SEEK_MODE.splits)

text \<open>The virtual file system on a volume that does not accept changes any more.\<close>

lemma disabled_new_descriptor:
  "file_new_descriptor v = (r, v') \<Longrightarrow> disabled (fat v') = disabled (fat v) \<and> fsdisk (fat v') = fsdisk (fat v)"
  by (auto simp: file_new_descriptor_def fs_kzalloc_def Let_def split: option.splits prod.splits if_splits)

lemma disabled_free_descriptor [simp]:
  "disabled (fat (file_free_descriptor d v)) = disabled (fat v)" "fsdisk (fat (file_free_descriptor d v)) = fsdisk (fat v)"
  by (simp_all add: file_free_descriptor_def fs_kfree_def)

lemma disabled_open_private:
  assumes "open_private io root mode desc v = ((r, desc'), v')" "disabled (fat v)"
  shows "disabled (fat v') \<and> (mode \<noteq> FILE_MODE_READ \<longrightarrow> (\<exists>e. r = Inl e) \<and> fsdisk (fat v') = fsdisk (fat v))"
proof -
  obtain ro s where o: "fat16_open io (first root) mode (fat v) = (ro, s)"
    by (cases "fat16_open io (first root) mode (fat v)") blast
  note d = disabled_open_any [OF o assms(2)]
  show ?thesis
  proof (cases ro)
    case (Inl e)
    moreover have "mode \<noteq> FILE_MODE_READ \<Longrightarrow> s = fat v" using disabled_open [OF assms(2), of mode io "first root"] o by auto
    ultimately show ?thesis using assms(1) o d by (auto simp: open_private_def)
  next
    case (Inr p)
    then have "mode = FILE_MODE_READ" using disabled_open [OF assms(2), of mode io "first root"] o by auto
    moreover have "disabled (fat v')"
    proof (cases desc)
      case None
      obtain rd w where n: "file_new_descriptor (v\<lparr>fat := s\<rparr>) = (rd, w)" by (cases "file_new_descriptor (v\<lparr>fat := s\<rparr>)") blast
      from disabled_new_descriptor [OF n] d assms(1) o Inr None n show ?thesis
        by (auto simp: open_private_def Let_def split: sum.splits)
    next
      case (Some x)
      with d assms(1) o Inr show ?thesis by (auto simp: open_private_def Let_def)
    qed
    ultimately show ?thesis by simp
  qed
qed

lemma disabled_open_parsed:
  assumes "open_parsed io root mode v = ((r, desc'), v')" "disabled (fat v)"
  shows "disabled (fat v') \<and> (mode \<noteq> FILE_MODE_READ \<longrightarrow> (\<exists>e. r = Inl e) \<and> fsdisk (fat v') = fsdisk (fat v))"
proof -
  obtain rd w where n: "file_new_descriptor v = (rd, w)" by (cases "file_new_descriptor v") blast
  note nd = disabled_new_descriptor [OF n]
  from assms(1) consider "v' = v" "\<exists>e. r = Inl e" | e where "rd = Inl e" "r = Inl e" "v' = w"
    | d where "rd = Inr d" "open_private io root mode (Some d) w = ((r, desc'), v')"
    | "open_private io root mode None v = ((r, desc'), v')"
    by (auto simp: open_parsed_def n split: if_splits sum.splits)
  then show ?thesis
  proof cases
    case 3
    from disabled_open_private [OF 3(2)] nd assms(2) show ?thesis by simp
  next
    case 4
    from disabled_open_private [OF 4] assms(2) show ?thesis by simp
  qed (use nd assms(2) in auto)
qed

lemma disabled_fopen_status:
  assumes "fopen_status io path mode_str v = (r, v')" "disabled (fat v)"
  shows "disabled (fat v') \<and>
    (file_get_mode_by_string mode_str \<noteq> FILE_MODE_READ \<longrightarrow> (\<exists>e. r = Inl e) \<and> fsdisk (fat v') = fsdisk (fat v))"
proof -
  obtain rp m where p: "pathparser_parse (kheap (fat v)) path = (rp, m)"
    by (cases "pathparser_parse (kheap (fat v)) path") blast
  let ?v = "v\<lparr>fat := (fat v)\<lparr>kheap := m\<rparr>\<rparr>" and ?mode = "file_get_mode_by_string mode_str"
  show ?thesis
  proof (cases "?mode \<noteq> FILE_MODE_READ \<and> file_validate_path (Some path) \<noteq> Inr () \<or> rp = None")
    case True
    with assms p show ?thesis by (auto simp: fopen_status_def Let_def split: if_splits)
  next
    case False
    then obtain root where rp: "rp = Some root" by auto
    obtain r1 d1 v1 where o: "open_parsed io root ?mode ?v = ((r1, d1), v1)"
      by (cases "open_parsed io root ?mode ?v") (auto intro: prod.exhaust)
    from disabled_open_parsed [OF o] assms(2) have
      "disabled (fat v1) \<and> (?mode \<noteq> FILE_MODE_READ \<longrightarrow> (\<exists>e. r1 = Inl e) \<and> fsdisk (fat v1) = fsdisk (fat v))" by simp
    moreover have "r = r1 \<and> disabled (fat v') = disabled (fat v1) \<and> fsdisk (fat v') = fsdisk (fat v1)"
      using assms(1) False p rp o by (auto simp: fopen_status_def Let_def split: sum.splits option.splits)
    ultimately show ?thesis by auto
  qed
qed

lemma disabled_fclose: "fclose fd v = (r, v') \<Longrightarrow> disabled (fat v') = disabled (fat v) \<and> fsdisk (fat v') = fsdisk (fat v)"
proof -
  assume f: "fclose fd v = (r, v')"
  have d: "fsdisk (snd (fat16_close p s)) = fsdisk s" for p and s :: "'a fs"
    by (auto simp: fat16_close_def fat16_free_file_descriptor_def fat16_fat_item_free_def fat16_free_directory_def fs_kfree_def Let_def
        split: option.splits fat_item_union.splits)
  show ?thesis
  proof (cases "file_get_descriptor fd v")
    case None
    with f show ?thesis by (simp add: fclose_def)
  next
    case (Some desc)
    let ?c = "fat16_close (fd_private desc) (fat v)"
    have "v' = file_free_descriptor desc (v\<lparr>fat := snd ?c\<rparr>)" using f Some by (simp add: fclose_def fat16_close_def)
    then show ?thesis using d by simp
  qed
qed

lemma disabled_file_open:
  assumes "file_open io p mode v = (r, v')" "disabled (fat v)"
  shows "disabled (fat v') \<and> (mode \<noteq> FILE_MODE_READ \<longrightarrow> (\<exists>e. r = Inl e) \<and> fsdisk (fat v') = fsdisk (fat v))"
proof (cases "mode = FILE_MODE_INVALID \<or> file_validate_path p \<noteq> Inr ()")
  case True
  with assms show ?thesis by (auto simp: file_open_def)
next
  case False
  let ?str = "case mode of FILE_MODE_READ \<Rightarrow> [114] | FILE_MODE_WRITE \<Rightarrow> [119] | _ \<Rightarrow> [97]"
  obtain r1 v1 where f: "fopen_status io (the p) ?str v = (r1, v1)" by (cases "fopen_status io (the p) ?str v") blast
  have m: "mode \<noteq> FILE_MODE_READ \<Longrightarrow> file_get_mode_by_string ?str \<noteq> FILE_MODE_READ"
    using False by (cases mode) (simp_all add: file_get_mode_by_string_def strncmp_eq cstr_def)
  note s = disabled_fopen_status [OF f assms(2)]
  have c: "disabled (fat (snd (fclose fd v1))) = disabled (fat v1)" for fd
    using disabled_fclose [of fd v1] by (cases "fclose fd v1") auto
  show ?thesis
  proof (cases r1)
    case (Inl e)
    with assms(1) False f s m show ?thesis by (auto simp: file_open_def Let_def)
  next
    case (Inr fd)
    with s m have "mode = FILE_MODE_READ" by auto
    moreover have "disabled (fat v')"
      using assms(1) False f s c Inr by (auto simp: file_open_def Let_def split: if_splits sum.splits)
    ultimately show ?thesis by simp
  qed
qed

lemma disabled_file_write:
  assumes "disabled (fat v)"
  shows "\<exists>r. file_write io fd buffer count v = (r, v) \<and> (count = 0 \<and> r = Inr 0 \<or> (\<exists>err. r = Inl err))"
proof (cases "file_get_descriptor fd v")
  case None
  then show ?thesis by (simp add: file_write_def)
next
  case (Some desc)
  let ?b = "case buffer of None \<Rightarrow> [] | Some bs \<Rightarrow> bs"
  obtain r where r: "fat16_write_bytes io (fd_private desc) ?b count (fat v) = (r, fat v)"
    "r = Inl EBADF \<or> r = Inl EIO \<or> count = 0 \<and> r = Inr 0"
    using disabled_write [OF assms] by blast
  have "file_write io fd buffer count v = (if count > 0x7FFFFFFF \<or> (count \<noteq> 0 \<and> buffer = None) then Inl EINVARG else r, v)"
    using Some r(1) by (simp add: file_write_def)
  with r(2) show ?thesis by auto
qed

lemma disabled_step: "file_step io v v' \<Longrightarrow> disabled (fat v) \<Longrightarrow> disabled (fat v')"
proof (induction rule: file_step.induct)
  case (fopen path mode_str v fd v')
  then show ?case by (auto simp: fopen_def split: prod.splits dest: disabled_fopen_status)
next
  case (write_file fd buffer count v n v')
  then show ?case
    using disabled_write [of "fat v" io]
    by (auto simp: file_write_def split: option.splits if_splits prod.splits) (metis prod.inject)+
qed (auto simp: file_read_def file_seek_def fseek_def fread_def split: option.splits if_splits prod.splits
      dest: disabled_fclose disabled_file_open disabled_read_bytes disabled_seek disabled_read)


text \<open>A volume on which a flush has failed; \<^verbatim>\<open>0:/b\<close> cannot be created there any more.\<close>

definition failed_vfs :: "ata_drive vfs" where
  "failed_vfs = example_vfs\<lparr>fat := disable_mutation example_fs\<rparr>"


end
