(* ===== verification/Terminal.thy ===== *)
theory Terminal
  imports CString
begin

text \<open>
  The text console, \<^verbatim>\<open>kernel/arch/i686/tty.c\<close>. The page at \<^verbatim>\<open>0xB8000\<close> is a list of 16-bit cells, the place of the
  hardware cursor is the value written to the cursor registers of the VGA controller. The model is
  for the configured build, \<^verbatim>\<open>IODBG\<close> false: nothing is copied to the debug port.
\<close>

definition VGA_WIDTH :: nat where "VGA_WIDTH = 80"
definition VGA_HEIGHT :: nat where "VGA_HEIGHT = 25"

record terminal =
  video_mem :: "u16 list"
  terminal_row :: u16
  terminal_col :: u16
  terminal_color :: u8
  background_color :: u8
  cursor_register :: u16
  terminal_count :: int
  cursor_pos :: int

section \<open>Cells\<close>

definition vga_entry_color :: "u8 \<Rightarrow> u8 \<Rightarrow> u8" where
  "vga_entry_color fg bg = fg OR push_bit 4 bg"

definition vga_entry :: "u8 \<Rightarrow> u8 \<Rightarrow> u16" where
  "vga_entry uc color = ucast uc OR push_bit 8 (ucast color)"

text \<open>The parameters are bytes, so a coordinate is taken modulo 256.\<close>

definition update_cursor :: "u8 \<Rightarrow> u8 \<Rightarrow> terminal \<Rightarrow> terminal" where
  "update_cursor x y t =
     (let pos = unat y * VGA_WIDTH + unat x
      in t\<lparr>cursor_register := (of_nat pos AND 0xFF) OR push_bit 8 (drop_bit 8 (of_nat pos) AND 0xFF)\<rparr>)"

definition console_sync_cursor :: "terminal \<Rightarrow> terminal" where
  "console_sync_cursor t = t\<lparr>cursor_register :=
     (word_of_int (cursor_pos t) AND 0xFF) OR push_bit 8 (drop_bit 8 (word_of_int (cursor_pos t)) AND 0xFF)\<rparr>"

definition terminal_putchar :: "int \<Rightarrow> int \<Rightarrow> u8 \<Rightarrow> u8 \<Rightarrow> terminal \<Rightarrow> terminal" where
  "terminal_putchar x y c colour t =
     (if x < 0 \<or> x \<ge> int VGA_WIDTH \<or> y < 0 \<or> y \<ge> int VGA_HEIGHT then t
      else let index = nat (y * int VGA_WIDTH + x)
           in update_cursor (word_of_int x) (word_of_int y)
                (t\<lparr>video_mem := (video_mem t)[index := vga_entry c (vga_entry_color colour (background_color t))]\<rparr>))"

section \<open>The cursor\<close>

abbreviation sync_cursor :: "terminal \<Rightarrow> terminal" where
  "sync_cursor t \<equiv> update_cursor (ucast (terminal_col t)) (ucast (terminal_row t)) t"

definition terminal_backspace :: "terminal \<Rightarrow> terminal" where
  "terminal_backspace t =
     (if terminal_row t = 0 \<and> terminal_col t = 0 then t
      else let t = (if terminal_col t = 0
                    then t\<lparr>terminal_row := terminal_row t - 1, terminal_col := of_nat VGA_WIDTH - 1\<rparr>
                    else t\<lparr>terminal_col := terminal_col t - 1\<rparr>);
               t = terminal_putchar (uint (terminal_col t)) (uint (terminal_row t)) 32 (terminal_color t) t
           in sync_cursor t)"

definition terminal_move_cursor :: "int \<Rightarrow> terminal \<Rightarrow> unit result \<times> terminal" where
  "terminal_move_cursor delta t =
     (let last_cell = int VGA_WIDTH * int VGA_HEIGHT - 1;
          position = uint (terminal_row t) * int VGA_WIDTH + uint (terminal_col t)
      in if delta < - position \<or> delta > last_cell - position then (Inl EINVARG, t)
         else let new_position = position + delta;
                  t = t\<lparr>terminal_row := word_of_int (new_position div int VGA_WIDTH),
                        terminal_col := word_of_int (new_position mod int VGA_WIDTH)\<rparr>
              in (Inr (), sync_cursor t))"

text \<open>The loop copies cells to lower places only, so it is a copy of the old cells.\<close>

fun scroll_loop :: "nat \<Rightarrow> nat \<Rightarrow> u16 list \<Rightarrow> u16 list" where
  "scroll_loop 0 i cells = cells"
| "scroll_loop (Suc n) i cells = scroll_loop n (i + 1) (cells[i := cells ! (i + VGA_WIDTH)])"

fun blank_loop :: "nat \<Rightarrow> nat \<Rightarrow> u16 \<Rightarrow> u16 list \<Rightarrow> u16 list" where
  "blank_loop 0 i e cells = cells"
| "blank_loop (Suc n) i e cells = blank_loop n (i + 1) e (cells[i := e])"

definition terminal_scroll :: "terminal \<Rightarrow> terminal" where
  "terminal_scroll t =
     (let cells = scroll_loop ((VGA_HEIGHT - 1) * VGA_WIDTH) 0 (video_mem t);
          cells = blank_loop VGA_WIDTH ((VGA_HEIGHT - 1) * VGA_WIDTH) (vga_entry 32 (terminal_color t)) cells
      in t\<lparr>video_mem := cells, terminal_row := of_nat VGA_HEIGHT - 1\<rparr>)"

definition checkIndent :: "terminal \<Rightarrow> terminal" where
  "checkIndent t =
     (let t = (if terminal_col t \<ge> of_nat VGA_WIDTH then t\<lparr>terminal_col := 0, terminal_row := terminal_row t + 1\<rparr> else t)
      in if terminal_row t \<ge> of_nat VGA_HEIGHT then terminal_scroll t else t)"

definition terminal_writechar :: "u8 \<Rightarrow> u8 \<Rightarrow> terminal \<Rightarrow> terminal" where
  "terminal_writechar c colour t =
     (if c = 10
      then sync_cursor (checkIndent (t\<lparr>terminal_row := terminal_row t + 1, terminal_col := 0\<rparr>))
      else if c = 0x08 then terminal_backspace t
      else let t = terminal_putchar (uint (terminal_col t)) (uint (terminal_row t)) c colour t;
               t = checkIndent (t\<lparr>terminal_col := terminal_col t + 1\<rparr>)
           in sync_cursor t)"

section \<open>Starting\<close>

definition copyright :: "u8 list" where
  "copyright = [67, 111, 112, 121, 114, 105, 103, 104, 116, 32, 40, 67, 41, 32, 82, 32, 67, 32, 78, 44, 32,
     71, 80, 76, 45, 50, 46, 48, 0]"

definition initialize_cell :: "nat \<Rightarrow> nat \<Rightarrow> terminal \<Rightarrow> terminal" where
  "initialize_cell y x t =
     (let index = y * VGA_WIDTH + x;
          t = t\<lparr>video_mem := (video_mem t)[index := vga_entry 0x00 (terminal_color t)]\<rparr>
      in if x < length copyright \<and> y = 0
         then t\<lparr>video_mem := (video_mem t)[index := vga_entry (copyright ! x) (terminal_color t)],
                terminal_col := terminal_col t + 1\<rparr>
         else if x \<le> length copyright \<and> y = 0
         then t\<lparr>terminal_col := 0, terminal_row := terminal_row t + 1, cursor_pos := cursor_pos t + 1\<rparr>
         else t)"

definition terminal_initialize :: "u8 \<Rightarrow> terminal \<Rightarrow> terminal" where
  "terminal_initialize bg_colour t =
     (let t = t\<lparr>terminal_row := 0, terminal_col := 0, background_color := bg_colour,
                terminal_color := vga_entry_color 15 bg_colour\<rparr>;
          t = fold (\<lambda>y. fold (initialize_cell y) [0..<VGA_WIDTH]) [0..<VGA_HEIGHT] t
      in t\<lparr>terminal_count := terminal_count t + 1\<rparr>)"

definition terminal_panic :: "u8 \<Rightarrow> terminal \<Rightarrow> terminal" where
  "terminal_panic bg_colour t = terminal_initialize bg_colour t"

section \<open>Text\<close>

definition printc :: "cstring \<Rightarrow> u8 \<Rightarrow> terminal \<Rightarrow> terminal" where
  "printc str color t = fold (\<lambda>c. terminal_writechar c color) (take (strlen str) str) t"

definition print :: "cstring \<Rightarrow> terminal \<Rightarrow> terminal" where
  "print str t = fold (\<lambda>c. terminal_writechar c 15) (take (strlen str) str) t"

definition print_bool :: "u32 \<Rightarrow> terminal \<Rightarrow> terminal" where
  "print_bool b t = (if b \<noteq> 0 then print [84, 114, 117, 101] t else print [70, 97, 108, 115, 101] t)"

text \<open>The digits are stored from the last place \<open>i\<close> down to 0.\<close>

fun bin_loop :: "nat \<Rightarrow> u32 \<Rightarrow> u8 list \<Rightarrow> u8 list" where
  "bin_loop 0 x buf = buf"
| "bin_loop (Suc i) x buf = bin_loop i (drop_bit 1 x) (buf[i := ucast (x AND 1) + 48])"

definition print_bin :: "u32 \<Rightarrow> terminal \<Rightarrow> terminal" where
  "print_bin x t = print (bin_loop 32 x (replicate 33 0)) (print [48, 98] t)"

definition hex_digits :: "u8 list" where
  "hex_digits = [48, 49, 50, 51, 52, 53, 54, 55, 56, 57, 65, 66, 67, 68, 69, 70]"

fun hex_loop :: "nat \<Rightarrow> u32 \<Rightarrow> u8 list \<Rightarrow> u8 list" where
  "hex_loop 0 x buf = buf"
| "hex_loop (Suc i) x buf = hex_loop i (drop_bit 4 x) (buf[i := hex_digits ! unat (x AND 0xF)])"

definition print_hex :: "u32 \<Rightarrow> terminal \<Rightarrow> terminal" where
  "print_hex x t = print (hex_loop 8 x (replicate 9 0)) (print [48, 120] t)"

text \<open>A character of the format that is printed as it is.\<close>

definition format_char :: "u8 \<Rightarrow> terminal \<Rightarrow> terminal" where
  "format_char c t = checkIndent ((\<lambda>t. t\<lparr>terminal_col := terminal_col t + 1\<rparr>)
     (terminal_putchar (uint (terminal_col t)) (uint (terminal_row t)) c 15 t))"

text \<open>One conversion: the characters counted and the screen; None when the argument is missing or of the wrong kind.\<close>

definition print_conv :: "u8 \<Rightarrow> vararg list \<Rightarrow> terminal \<Rightarrow> (int \<times> terminal \<times> vararg list) option" where
  "print_conv c args t =
     (if c = 105
      then (case args of ArgInt v # args \<Rightarrow>
              map_option (\<lambda>s. (int (strlen s), print s t, args)) (itoa (replicate 12 0) (sint v)) | _ \<Rightarrow> None)
      else if c = 115
      then (case args of ArgStr (Some s) # args \<Rightarrow> Some (int (strlen s), print s t, args) | _ \<Rightarrow> None)
      else if c = 98
      then (case args of ArgInt v # args \<Rightarrow> Some (if v \<noteq> 0 then 4 else 5, print_bool v t, args) | _ \<Rightarrow> None)
      else if c = 120
      then (case args of ArgInt v # args \<Rightarrow> Some (10, print_hex v t, args) | _ \<Rightarrow> None)
      else if c = 66
      then (case args of ArgInt v # args \<Rightarrow> Some (32, print_bin v t, args) | _ \<Rightarrow> None)
      else Some (1, format_char c t, args))"

fun vprintf :: "cstring \<Rightarrow> vararg list \<Rightarrow> int \<Rightarrow> terminal \<Rightarrow> (int \<times> terminal) option" where
  "vprintf [] args n t = Some (n, t)"
| "vprintf (p # ps) args n t =
     (if p = 0 then Some (n, t)
      else if p \<noteq> 37
      then if p = 10
           then vprintf ps args n (checkIndent (t\<lparr>terminal_row := terminal_row t + 1, terminal_col := 0\<rparr>))
           else vprintf ps args (n + 1) (format_char p t)
      else (case ps of
              [] \<Rightarrow> Some (n + 1, format_char p t)
            | c # ps \<Rightarrow>
                if c = 0 then Some (n + 1, format_char p t)
                else (case print_conv c args t of
                        None \<Rightarrow> None
                      | Some (k, t, args) \<Rightarrow> vprintf ps args (n + k) t)))"

definition printf :: "cstring \<Rightarrow> vararg list \<Rightarrow> terminal \<Rightarrow> (int \<times> terminal) option" where
  "printf format args t = vprintf format args 0 t"

section \<open>The page\<close>

text \<open>
  A well-formed console has a page of 25 rows of 80 cells and its cursor inside. The reference describes it as
  a tape of cells with one position.
\<close>

definition terminal_wf :: "terminal \<Rightarrow> bool" where
  "terminal_wf t \<longleftrightarrow> length (video_mem t) = 2000 \<and> terminal_row t < 25 \<and> terminal_col t < 80"

definition place :: "terminal \<Rightarrow> nat" where
  "place t = unat (terminal_row t) * 80 + unat (terminal_col t)"

definition tape_settle :: "u16 \<Rightarrow> u16 list \<times> nat \<Rightarrow> u16 list \<times> nat" where
  "tape_settle blank = (\<lambda>(cells, p). if p < 2000 then (cells, p) else (drop 80 cells @ replicate 80 blank, p - 80))"

definition tape_write :: "(u8 \<Rightarrow> u16) \<Rightarrow> u16 \<Rightarrow> u16 \<Rightarrow> u8 \<Rightarrow> u16 list \<times> nat \<Rightarrow> u16 list \<times> nat" where
  "tape_write entry blank erased c = (\<lambda>(cells, p).
     if c = 10 then tape_settle blank (cells, (p div 80 + 1) * 80)
     else if c = 8 then (if p = 0 then (cells, p) else (cells[p - 1 := erased], p - 1))
     else tape_settle blank (cells[p := entry c], p + 1))"

lemma scroll_loop_nth:
  "i + n + 80 \<le> length cells \<Longrightarrow> length (scroll_loop n i cells) = length cells \<and>
     (\<forall>j < length cells. scroll_loop n i cells ! j = (if i \<le> j \<and> j < i + n then cells ! (j + 80) else cells ! j))"
proof (induction n arbitrary: i cells)
  case (Suc n)
  let ?c = "cells[i := cells ! (i + VGA_WIDTH)]"
  have "i + 1 + n + 80 \<le> length ?c" using Suc.prems by simp
  from Suc.IH [OF this] Suc.prems show ?case
    by (auto simp: nth_list_update VGA_WIDTH_def) (metis le_antisym not_less_eq_eq)
qed auto

lemma blank_loop_eq: "i + n \<le> length cells \<Longrightarrow> blank_loop n i e cells = take i cells @ replicate n e @ drop (i + n) cells"
proof (induction n arbitrary: i cells)
  case (Suc n)
  have t: "take (Suc i) (cells[i := e]) = take i cells @ [e]" using Suc.prems by (simp add: take_Suc_conv_app_nth)
  have "blank_loop n (i + 1) e (cells[i := e]) = take (i + 1) (cells[i := e]) @ replicate n e @ drop (i + 1 + n) (cells[i := e])"
    using Suc.prems by (intro Suc.IH) simp
  then show ?case using t by simp
qed simp

lemma terminal_scroll_eq:
  assumes "length (video_mem t) = 2000"
  shows "terminal_scroll t = t\<lparr>video_mem := drop 80 (video_mem t) @ replicate 80 (vga_entry 32 (terminal_color t)), terminal_row := 24\<rparr>"
proof -
  let ?s = "scroll_loop 1920 0 (video_mem t)"
  have l: "length ?s = 2000" and s: "\<And>j. j < 1920 \<Longrightarrow> ?s ! j = video_mem t ! (j + 80)"
    using scroll_loop_nth [of 0 1920 "video_mem t"] assms by auto
  have "take 1920 ?s = drop 80 (video_mem t)"
    by (rule nth_equalityI) (use l s assms in \<open>auto simp: add.commute\<close>)
  then show ?thesis
    using blank_loop_eq [of 1920 80 ?s] l by (simp add: terminal_scroll_def VGA_HEIGHT_def VGA_WIDTH_def Let_def)
qed

lemma place_less: "terminal_wf t \<Longrightarrow> place t < 2000"
proof -
  assume "terminal_wf t"
  then have "unat (terminal_row t) < 25" "unat (terminal_col t) < 80" by (simp_all add: terminal_wf_def word_less_nat_alt)
  then show ?thesis by (simp add: place_def)
qed

lemma update_cursor_sel [simp]:
  "video_mem (update_cursor x y t) = video_mem t" "terminal_row (update_cursor x y t) = terminal_row t"
  "terminal_col (update_cursor x y t) = terminal_col t" "terminal_color (update_cursor x y t) = terminal_color t"
  "background_color (update_cursor x y t) = background_color t"
  by (simp_all add: update_cursor_def)

lemma sync_cursor_place:
  assumes "terminal_wf t"
  shows "cursor_register (sync_cursor t) = of_nat (place t)"
proof -
  have r: "unat (terminal_row t) < 25" "unat (terminal_col t) < 80" using assms by (simp_all add: terminal_wf_def word_less_nat_alt)
  then have u: "unat (ucast (terminal_row t) :: u8) = unat (terminal_row t)" "unat (ucast (terminal_col t) :: u8) = unat (terminal_col t)"
    by (simp_all add: unsigned_ucast_eq take_bit_nat_eq_self)
  have "(w AND 0xFF) OR push_bit 8 (drop_bit 8 w AND 0xFF) = w" for w :: u16
  proof -
    have m: "(0xFF :: u16) = mask 8" by (simp add: mask_eq_exp_minus_1)
    show ?thesis unfolding m by (rule bit_word_eqI) (auto simp: bit_simps)
  qed
  then show ?thesis using u by (simp add: update_cursor_def place_def VGA_WIDTH_def)
qed

text \<open>What the two parts of writing a character do on the tape.\<close>

lemma terminal_putchar_here:
  assumes "terminal_wf t"
  shows "video_mem (terminal_putchar (uint (terminal_col t)) (uint (terminal_row t)) c colour t) =
      (video_mem t)[place t := vga_entry c (vga_entry_color colour (background_color t))]"
    "terminal_row (terminal_putchar x y c colour t) = terminal_row t"
    "terminal_col (terminal_putchar x y c colour t) = terminal_col t"
    "terminal_color (terminal_putchar x y c colour t) = terminal_color t"
    "background_color (terminal_putchar x y c colour t) = background_color t"
proof -
  have r: "uint (terminal_row t) < 25" "uint (terminal_col t) < 80" using assms by (simp_all add: terminal_wf_def word_less_def)
  have "nat (uint (terminal_row t) * 80 + uint (terminal_col t)) = place t"
    by (simp add: place_def nat_add_distrib nat_mult_distrib)
  then show "video_mem (terminal_putchar (uint (terminal_col t)) (uint (terminal_row t)) c colour t) =
      (video_mem t)[place t := vga_entry c (vga_entry_color colour (background_color t))]"
    using r by (simp add: terminal_putchar_def VGA_WIDTH_def VGA_HEIGHT_def)
qed (simp_all add: terminal_putchar_def Let_def)

lemma checkIndent_settle:
  assumes "length (video_mem t) = 2000" "unat (terminal_row t) * 80 + unat (terminal_col t) \<le> 2000" "terminal_col t \<le> 80"
    "terminal_row t < 25 \<or> terminal_row t = 25 \<and> terminal_col t = 0"
  shows "terminal_wf (checkIndent t)"
    "(video_mem (checkIndent t), place (checkIndent t)) = tape_settle (vga_entry 32 (terminal_color t)) (video_mem t, place t)"
    "terminal_color (checkIndent t) = terminal_color t" "background_color (checkIndent t) = background_color t"
proof -
  let ?r = "unat (terminal_row t)" and ?c = "unat (terminal_col t)"
  define u where "u = (if terminal_col t \<ge> 80 then t\<lparr>terminal_col := 0, terminal_row := terminal_row t + 1\<rparr> else t)"
  have b: "?c \<le> 80" "?r \<le> 25" using assms(3,4) by (auto simp: word_le_nat_alt word_less_nat_alt)
  have suc: "unat (terminal_row t + 1) = ?r + 1" using b by (subst unat_add_lem [THEN iffD1]) simp_all
  have u: "unat (terminal_col u) < 80" "place u = place t" "unat (terminal_row u) \<le> 25" "video_mem u = video_mem t"
    "terminal_color u = terminal_color t" "background_color u = background_color t"
    using b suc assms by (auto simp: u_def place_def word_le_nat_alt word_less_nat_alt)
  have e: "checkIndent t = (if terminal_row u \<ge> 25 then terminal_scroll u else u)"
    by (simp add: checkIndent_def u_def VGA_WIDTH_def VGA_HEIGHT_def Let_def)
  have p: "place u = 80 * unat (terminal_row u) + unat (terminal_col u)" by (simp add: place_def)
  note sc = terminal_scroll_eq [of u]
  show "terminal_wf (checkIndent t)"
    using u e sc assms(1) by (auto simp: terminal_wf_def word_le_nat_alt word_less_nat_alt)
  show "(video_mem (checkIndent t), place (checkIndent t)) = tape_settle (vga_entry 32 (terminal_color t)) (video_mem t, place t)"
  proof (cases "terminal_row u \<ge> 25")
    case True
    then have "unat (terminal_row u) = 25" "unat (terminal_col u) = 0" using u p assms(2) by (auto simp: word_le_nat_alt place_def)
    then show ?thesis using True e sc u p assms(1) by (simp add: tape_settle_def) (simp add: place_def)
  next
    case False
    then have "place u < 2000" using u p by (simp add: word_le_nat_alt)
    then show ?thesis using False e u by (simp add: tape_settle_def)
  qed
  show "terminal_color (checkIndent t) = terminal_color t" "background_color (checkIndent t) = background_color t"
    using e sc u assms(1) by auto
qed

lemma wf_sync [simp]: "terminal_wf (update_cursor x y t) = terminal_wf t" "place (update_cursor x y t) = place t"
  by (simp_all add: terminal_wf_def place_def)

lemma unat_u16_pred: "w \<noteq> 0 \<Longrightarrow> unat (w - 1) = unat w - 1 \<and> 0 < unat w" for w :: u16
  by (simp add: unat_sub word_le_nat_alt unat_gt_0 Suc_le_eq)

lemma backspace_cases:
  assumes "terminal_wf t"
  shows "terminal_wf (terminal_backspace t)"
    "(video_mem (terminal_backspace t), place (terminal_backspace t)) =
       tape_write e b (vga_entry 32 (vga_entry_color (terminal_color t) (background_color t))) 8 (video_mem t, place t)"
    "terminal_color (terminal_backspace t) = terminal_color t" "background_color (terminal_backspace t) = background_color t"
    "place t \<noteq> 0 \<Longrightarrow> cursor_register (terminal_backspace t) = of_nat (place (terminal_backspace t))"
proof -
  have r: "unat (terminal_row t) < 25" "unat (terminal_col t) < 80" "length (video_mem t) = 2000"
    using assms by (simp_all add: terminal_wf_def word_less_nat_alt)
  define u where "u = (if terminal_col t = 0 then t\<lparr>terminal_row := terminal_row t - 1, terminal_col := 79\<rparr>
    else t\<lparr>terminal_col := terminal_col t - 1\<rparr>)"
  have z: "place t = 0 \<longleftrightarrow> terminal_row t = 0 \<and> terminal_col t = 0" by (auto simp: place_def unat_eq_0)
  have e: "terminal_backspace t = (if place t = 0 then t
      else sync_cursor (terminal_putchar (uint (terminal_col u)) (uint (terminal_row u)) 32 (terminal_color t) u))"
    by (auto simp: terminal_backspace_def u_def z VGA_WIDTH_def Let_def)
  have u: "terminal_wf u \<and> place u = place t - 1 \<and> video_mem u = video_mem t \<and> terminal_color u = terminal_color t \<and>
      background_color u = background_color t" if "place t \<noteq> 0"
  proof (cases "terminal_col t = 0")
    case True
    with that have "terminal_row t \<noteq> 0" using z by simp
    then have "unat (terminal_row t - 1) = unat (terminal_row t) - 1" "0 < unat (terminal_row t)"
      by (simp_all add: unat_u16_pred)
    with True r show ?thesis by (auto simp: u_def terminal_wf_def place_def word_less_nat_alt)
  next
    case False
    then have "unat (terminal_col t - 1) = unat (terminal_col t) - 1" "0 < unat (terminal_col t)"
      by (simp_all add: unat_u16_pred)
    with False r show ?thesis by (auto simp: u_def terminal_wf_def place_def word_less_nat_alt)
  qed
  let ?p = "terminal_putchar (uint (terminal_col u)) (uint (terminal_row u)) 32 (terminal_color t) u"
  have p: "terminal_wf ?p \<and> place ?p = place t - 1 \<and> terminal_color ?p = terminal_color t \<and> background_color ?p = background_color t \<and>
      video_mem ?p = (video_mem t)[place t - 1 := vga_entry 32 (vga_entry_color (terminal_color t) (background_color t))]" if "place t \<noteq> 0"
    using u [OF that] terminal_putchar_here [of u] by (auto simp: terminal_wf_def place_def)
  show "terminal_wf (terminal_backspace t)" "terminal_color (terminal_backspace t) = terminal_color t"
    "background_color (terminal_backspace t) = background_color t"
    using e p assms by (cases "place t = 0"; simp)+
  show "(video_mem (terminal_backspace t), place (terminal_backspace t)) =
       tape_write e b (vga_entry 32 (vga_entry_color (terminal_color t) (background_color t))) 8 (video_mem t, place t)"
    using e p by (cases "place t = 0") (simp_all add: tape_write_def)
  show "cursor_register (terminal_backspace t) = of_nat (place (terminal_backspace t))" if "place t \<noteq> 0"
    using e p [OF that] sync_cursor_place [of ?p] that by simp
qed

text \<open>Writing one character.\<close>

lemma writechar_tape:
  assumes "terminal_wf t"
  shows "terminal_wf (terminal_writechar c colour t)"
    "(video_mem (terminal_writechar c colour t), place (terminal_writechar c colour t)) =
       tape_write (\<lambda>c. vga_entry c (vga_entry_color colour (background_color t))) (vga_entry 32 (terminal_color t))
         (vga_entry 32 (vga_entry_color (terminal_color t) (background_color t))) c (video_mem t, place t)"
    "terminal_color (terminal_writechar c colour t) = terminal_color t"
    "background_color (terminal_writechar c colour t) = background_color t"
    "c \<noteq> 8 \<or> place t \<noteq> 0 \<Longrightarrow> cursor_register (terminal_writechar c colour t) = of_nat (place (terminal_writechar c colour t))"
proof -
  have r: "unat (terminal_row t) < 25" "unat (terminal_col t) < 80" "length (video_mem t) = 2000"
    using assms by (simp_all add: terminal_wf_def word_less_nat_alt)
  have suc: "unat (terminal_row t + 1) = unat (terminal_row t) + 1" "unat (terminal_col t + 1) = unat (terminal_col t) + 1"
    using r by (subst unat_add_lem [THEN iffD1]; simp)+
  have row: "terminal_row t + 1 < 25 \<or> terminal_row t + 1 = 25"
    using r(1) suc(1) by (simp add: word_less_nat_alt word_unat_eq_iff del: add_2_eq_Suc') linarith
  define u where "u = (if c = 10 then t\<lparr>terminal_row := terminal_row t + 1, terminal_col := 0\<rparr>
    else let t = terminal_putchar (uint (terminal_col t)) (uint (terminal_row t)) c colour t in t\<lparr>terminal_col := terminal_col t + 1\<rparr>)"
  have e: "c \<noteq> 8 \<Longrightarrow> terminal_writechar c colour t = sync_cursor (checkIndent u)"
    by (simp add: terminal_writechar_def u_def Let_def)
  have u: "length (video_mem u) = 2000" "unat (terminal_row u) * 80 + unat (terminal_col u) \<le> 2000" "terminal_col u \<le> 80"
    "terminal_row u < 25 \<or> terminal_row u = 25 \<and> terminal_col u = 0" "terminal_color u = terminal_color t"
    "background_color u = background_color t"
    "(video_mem u, place u) = (if c = 10 then (video_mem t, (place t div 80 + 1) * 80)
      else ((video_mem t)[place t := vga_entry c (vga_entry_color colour (background_color t))], place t + 1))"
    using r suc row terminal_putchar_here [OF assms] by (auto simp: u_def Let_def word_le_nat_alt word_less_nat_alt place_def)
  note k = checkIndent_settle [OF u(1-4)]
  show "terminal_wf (terminal_writechar c colour t)" "terminal_color (terminal_writechar c colour t) = terminal_color t"
    "background_color (terminal_writechar c colour t) = background_color t"
    using e k(1,3,4) u(5,6) backspace_cases [OF assms] by (cases "c = 8"; simp add: terminal_writechar_def)+
  show "(video_mem (terminal_writechar c colour t), place (terminal_writechar c colour t)) =
       tape_write (\<lambda>c. vga_entry c (vga_entry_color colour (background_color t))) (vga_entry 32 (terminal_color t))
         (vga_entry 32 (vga_entry_color (terminal_color t) (background_color t))) c (video_mem t, place t)"
  proof (cases "c = 8")
    case True
    then show ?thesis using backspace_cases(2) [OF assms] by (simp add: terminal_writechar_def)
  next
    case False
    then show ?thesis using e k(2) u(5,7) by (simp add: tape_write_def split: if_splits)
  qed
  show "cursor_register (terminal_writechar c colour t) = of_nat (place (terminal_writechar c colour t))" if "c \<noteq> 8 \<or> place t \<noteq> 0"
    using that e sync_cursor_place [OF k(1)] backspace_cases(5) [OF assms] by (cases "c = 8") (simp_all add: terminal_writechar_def)
qed

lemma write_all_tape:
  fixes cs :: "u8 list" and colour :: u8 and t :: terminal
  assumes "terminal_wf t"
  defines "t' \<equiv> fold (\<lambda>c. terminal_writechar c colour) cs t"
  shows "terminal_wf t' \<and> terminal_color t' = terminal_color t \<and> background_color t' = background_color t \<and>
    (video_mem t', place t') =
       fold (tape_write (\<lambda>c. vga_entry c (vga_entry_color colour (background_color t))) (vga_entry 32 (terminal_color t))
         (vga_entry 32 (vga_entry_color (terminal_color t) (background_color t)))) cs (video_mem t, place t) \<and>
    (cursor_register t = of_nat (place t) \<longrightarrow> cursor_register t' = of_nat (place t'))"
  using assms(1) unfolding t'_def
proof (induction cs arbitrary: t)
  case (Cons c cs)
  note w = writechar_tape [OF Cons.prems, of c colour]
  have cur: "cursor_register t = of_nat (place t) \<Longrightarrow>
      cursor_register (terminal_writechar c colour t) = of_nat (place (terminal_writechar c colour t))"
  proof (cases "c = 8 \<and> place t = 0")
    case True
    then have "terminal_row t = 0 \<and> terminal_col t = 0" by (auto simp: place_def unat_eq_0)
    then show "cursor_register t = of_nat (place t) \<Longrightarrow> ?thesis" using True by (simp add: terminal_writechar_def terminal_backspace_def)
  qed (use w(5) in auto)
  from Cons.IH [OF w(1)] w(2-4) cur show ?case by simp
qed simp

lemma initialize_row:
  assumes "length (video_mem t) = 2000" "xs = [0..<n]" "n \<le> 80" "y < 25"
  shows "length (video_mem (fold (initialize_cell y) xs t)) = 2000"
  using assms(1)
  by (induction xs arbitrary: t) (auto simp: initialize_cell_def Let_def)

text \<open>The state behind the first row: the copyright line fills it up to column 28, and column 29 moves on.\<close>

lemma initialize_first_row:
  assumes "terminal_row t = 0" "terminal_col t = 0"
  shows "terminal_row (fold (initialize_cell 0) [0..<80] t) = 1" "terminal_col (fold (initialize_cell 0) [0..<80] t) = 0"
proof -
  have a: "terminal_row (fold (initialize_cell 0) xs t) = terminal_row t \<and>
      terminal_col (fold (initialize_cell 0) xs t) = terminal_col t + of_nat (length xs)" if "\<forall>x \<in> set xs. x < 29" for xs t
    using that by (induction xs arbitrary: t) (auto simp: initialize_cell_def copyright_def Let_def)
  have b: "terminal_row (fold (initialize_cell 0) xs t) = terminal_row t \<and>
      terminal_col (fold (initialize_cell 0) xs t) = terminal_col t" if "\<forall>x \<in> set xs. x > 29" for xs t
    using that by (induction xs arbitrary: t) (auto simp: initialize_cell_def copyright_def Let_def)
  have s: "[0..<80] = [0..<29] @ 29 # [30..<80]" by (simp add: upt_rec [of 29] upt_add_eq_append [of 0 29 51, simplified])
  show "terminal_row (fold (initialize_cell 0) [0..<80] t) = 1" "terminal_col (fold (initialize_cell 0) [0..<80] t) = 0"
    unfolding s using a [of "[0..<29]" t] b [of "[30..<80]"] assms
    by (simp_all add: initialize_cell_def copyright_def Let_def)
qed

lemma initialize_other_row:
  assumes "y \<noteq> 0"
  shows "terminal_row (fold (initialize_cell y) xs t) = terminal_row t" "terminal_col (fold (initialize_cell y) xs t) = terminal_col t"
  using assms by (induction xs arbitrary: t) (auto simp: initialize_cell_def Let_def)

lemma initialize_wf:
  assumes "length (video_mem t) = 2000"
  shows "terminal_wf (terminal_initialize bg t)"
proof -
  let ?row = "\<lambda>y. fold (initialize_cell y) [0..<80]"
  let ?t = "t\<lparr>terminal_row := 0, terminal_col := 0, background_color := bg, terminal_color := vga_entry_color 15 bg\<rparr>"
  have l: "length (video_mem (fold (\<lambda>y. ?row y) ys u)) = 2000" if "length (video_mem u) = 2000" "\<forall>y \<in> set ys. y < 25" for ys u
    using that by (induction ys arbitrary: u) (auto simp: initialize_row)
  have o: "terminal_row (fold (\<lambda>y. ?row y) ys u) = terminal_row u \<and> terminal_col (fold (\<lambda>y. ?row y) ys u) = terminal_col u"
    if "\<forall>y \<in> set ys. y \<noteq> 0" for ys u
    using that by (induction ys arbitrary: u) (auto simp: initialize_other_row)
  have s: "[0..<25] = 0 # [1..<25]" by (simp add: upt_rec [of 0])
  have "terminal_row (fold (\<lambda>y. ?row y) [0..<25] ?t) = 1" "terminal_col (fold (\<lambda>y. ?row y) [0..<25] ?t) = 0"
    unfolding s using o [of "[1..<25]"] initialize_first_row [of ?t] by simp_all
  moreover have "length (video_mem (fold (\<lambda>y. ?row y) [0..<25] ?t)) = 2000" using l [of ?t "[0..<25]"] assms by simp
  ultimately show ?thesis by (simp add: terminal_wf_def terminal_initialize_def VGA_WIDTH_def VGA_HEIGHT_def Let_def)
qed

lemma move_cursor_cases:
  assumes "terminal_wf t" "terminal_move_cursor delta t = (r, t')"
  shows "terminal_wf t' \<and> video_mem t' = video_mem t \<and>
    (if 0 \<le> int (place t) + delta \<and> int (place t) + delta < 2000
     then r = Inr () \<and> int (place t') = int (place t) + delta \<and> cursor_register t' = of_nat (place t')
     else r = Inl EINVARG \<and> t' = t)"
proof -
  have p: "uint (terminal_row t) * 80 + uint (terminal_col t) = int (place t)" by (simp add: place_def)
  show ?thesis
  proof (cases "0 \<le> int (place t) + delta \<and> int (place t) + delta < 2000")
    case True
    define n where "n = nat (int (place t) + delta)"
    have n: "int (place t) + delta = int n" "n < 2000" using True by (auto simp: n_def nat_less_iff)
    let ?u = "t\<lparr>terminal_row := of_nat (n div 80), terminal_col := of_nat (n mod 80)\<rparr>"
    have w: "word_of_int (int n div 80) = (of_nat (n div 80) :: u16)" "word_of_int (int n mod 80) = (of_nat (n mod 80) :: u16)"
      by (metis of_int_of_nat_eq of_nat_numeral zdiv_int zmod_int)+
    have t': "t' = sync_cursor ?u" "r = Inr ()"
      using assms(2) True n(1) p by (auto simp: terminal_move_cursor_def VGA_WIDTH_def VGA_HEIGHT_def Let_def w)
    have u: "unat (of_nat (n div 80) :: u16) = n div 80" "unat (of_nat (n mod 80) :: u16) = n mod 80"
      using n(2) by (simp_all add: unat_of_nat take_bit_nat_eq_self)
    have "terminal_wf ?u" "place ?u = n" using assms(1) n(2) u by (simp_all add: terminal_wf_def place_def word_less_nat_alt)
    with t' sync_cursor_place [of ?u] True n(1) show ?thesis by simp
  next
    case False
    with assms p show ?thesis by (auto simp: terminal_move_cursor_def VGA_WIDTH_def VGA_HEIGHT_def Let_def split: if_splits)
  qed
qed

lemma format_char_wf:
  assumes "terminal_wf t"
  shows "terminal_wf (format_char c t)"
proof -
  have r: "unat (terminal_row t) < 25" "unat (terminal_col t) < 80" "length (video_mem t) = 2000"
    using assms by (simp_all add: terminal_wf_def word_less_nat_alt)
  have suc: "unat (terminal_col t + 1) = unat (terminal_col t) + 1" using r by (subst unat_add_lem [THEN iffD1]; simp)
  show ?thesis
    unfolding format_char_def using r suc terminal_putchar_here [OF assms]
    by (intro checkIndent_settle(1)) (auto simp: word_le_nat_alt word_less_nat_alt)
qed

lemma newline_wf:
  assumes "terminal_wf t"
  shows "terminal_wf (checkIndent (t\<lparr>terminal_row := terminal_row t + 1, terminal_col := 0\<rparr>))"
  using writechar_tape(1) [OF assms, of 10 15] by (simp add: terminal_writechar_def)

lemma print_wf: "terminal_wf t \<Longrightarrow> terminal_wf (print s t)" "terminal_wf t \<Longrightarrow> terminal_wf (printc s c t)"
  by (simp_all add: print_def printc_def write_all_tape)

lemma print_conv_wf: "terminal_wf t \<Longrightarrow> print_conv c args t = Some (k, t', args') \<Longrightarrow> terminal_wf t'"
  by (auto simp: print_conv_def print_bool_def print_bin_def print_hex_def print_wf format_char_wf
      split: if_splits list.splits vararg.splits option.splits)

lemma vprintf_wf: "terminal_wf t \<Longrightarrow> vprintf f args n t = Some (k, t') \<Longrightarrow> terminal_wf t'"
proof (induction f args n t rule: vprintf.induct)
  case (2 p ps args n t)
  then show ?case
    by (auto simp: format_char_wf newline_wf split: if_splits list.splits option.splits) (blast dest: print_conv_wf)
qed simp

section \<open>Properties\<close>

text \<open>The states the console goes through: started on the page, then any sequence of the operations of the header.\<close>

inductive screen_reach :: "terminal \<Rightarrow> bool" where
  start: "length (video_mem t) = 2000 \<Longrightarrow> screen_reach (terminal_initialize bg t)"
| panic: "screen_reach t \<Longrightarrow> screen_reach (terminal_panic bg t)"
| writechar: "screen_reach t \<Longrightarrow> screen_reach (terminal_writechar c colour t)"
| backspace: "screen_reach t \<Longrightarrow> screen_reach (terminal_backspace t)"
| move: "screen_reach t \<Longrightarrow> screen_reach (snd (terminal_move_cursor delta t))"
| printc: "screen_reach t \<Longrightarrow> screen_reach (printc str colour t)"
| print: "screen_reach t \<Longrightarrow> screen_reach (print str t)"
| printf: "screen_reach t \<Longrightarrow> printf format args t = Some (n, t') \<Longrightarrow> screen_reach t'"

text \<open>
  C32. The type of the console state is kept: from the start of the console, through every sequence of
  \<^verbatim>\<open>terminal_writechar\<close>, \<^verbatim>\<open>terminal_backspace\<close>, \<^verbatim>\<open>terminal_move_cursor\<close>, \<^verbatim>\<open>print\<close>, \<^verbatim>\<open>printc\<close>, \<^verbatim>\<open>printf\<close> (with any
  format and any arguments it accepts) and restarts by a panic, the page keeps its 2000 cells and the cursor stays
  at a row below 25 and a column below 80, so every cell that is written is a cell of the page.
\<close>

theorem terminal_state_type:
  "screen_reach t \<Longrightarrow> length (video_mem t) = VGA_WIDTH * VGA_HEIGHT \<and> unat (terminal_row t) < VGA_HEIGHT \<and>
     unat (terminal_col t) < VGA_WIDTH"
proof -
  assume "screen_reach t"
  then have "terminal_wf t"
  proof induction
    case (move t delta)
    then show ?case using move_cursor_cases [of t delta] by (cases "terminal_move_cursor delta t") auto
  next
    case (panic t bg)
    then have "length (video_mem t) = 2000" by (simp add: terminal_wf_def)
    then show ?case unfolding terminal_panic_def by (rule initialize_wf)
  qed (auto simp: initialize_wf writechar_tape backspace_cases print_wf printf_def intro: vprintf_wf)
  then show ?thesis by (simp add: terminal_wf_def VGA_WIDTH_def VGA_HEIGHT_def word_less_nat_alt)
qed

definition example_screen :: terminal where
  "example_screen = \<lparr>video_mem = replicate 2000 0, terminal_row = 24, terminal_col = 79, terminal_color = 15,
     background_color = 0, cursor_register = 1999, terminal_count = 0, cursor_pos = 0\<rparr>"

theorem terminal_state_type_witness:
  "length (video_mem (print [104, 105, 10] (terminal_initialize 0 example_screen))) = VGA_WIDTH * VGA_HEIGHT \<and>
   unat (terminal_row (print [104, 105, 10] (terminal_initialize 0 example_screen))) < VGA_HEIGHT"
  using terminal_state_type [OF screen_reach.print [OF screen_reach.start [of example_screen 0]], of "[104, 105, 10]"]
  by (simp add: example_screen_def)

text \<open>
  C33. Printing refines a tape: the page read as one tape of 2000 cells with one position. A printable character is
  stored at the position with its colour on the background colour, a line feed moves to the next multiple of 80, a backspace blanks the
  cell before the position and stops at the start, and a position that leaves the page drops the first 80 cells and
  adds 80 blanks. \<^verbatim>\<open>printc\<close>, with its bounds tests, its wrapping and its scrolling loops on rows and columns of 16 bits, is this
  tape; \<^verbatim>\<open>print\<close> is \<^verbatim>\<open>printc\<close> in white; and a hardware cursor at the position is left at the position, although its
  registers are written in two bytes.
\<close>

theorem printc_refines_tape:
  assumes "terminal_wf t"
  shows "(let t' = printc str colour t in
      (video_mem t', place t') =
        fold (tape_write (\<lambda>c. vga_entry c (vga_entry_color colour (background_color t))) (vga_entry 32 (terminal_color t))
          (vga_entry 32 (vga_entry_color (terminal_color t) (background_color t)))) (take (strlen str) str) (video_mem t, place t) \<and>
      (if cursor_register t = of_nat (place t) then cursor_register t' = of_nat (place t') else True)) \<and>
    print str t = printc str 15 t"
  using write_all_tape [OF assms, of colour "take (strlen str) str"] by (simp add: print_def printc_def Let_def)

theorem printc_refines_tape_witness:
  "(video_mem (printc [65, 66] 2 example_screen), place (printc [65, 66] 2 example_screen)) =
     (replicate 1919 0 @ [0x0241, 0x0242] @ replicate 79 0x0F20, 1921)"
proof -
  have "terminal_wf example_screen" by (simp add: terminal_wf_def example_screen_def)
  note p = printc_refines_tape [OF this, of "[65, 66]" 2]
  have "place example_screen = 1999" by (simp add: place_def example_screen_def)
  moreover have "(replicate 80 (0xF20 :: u16))[0 := 0x242] = 0x242 # replicate 79 0xF20" by (simp add: numeral_eq_Suc)
  moreover have "replicate 2000 (0::u16) = replicate 1999 0 @ [0]" using replicate_add [of 1999 1 "0 :: u16"] by simp
  ultimately show ?thesis using p
    by (simp add: Let_def example_screen_def tape_write_def tape_settle_def vga_entry_def vga_entry_color_def list_update_append)
qed

text \<open>
  C34. Moving the cursor: a move that would leave the page is refused and changes nothing, for every 32-bit distance; every
  other move leaves the page as it is and puts both the position and the hardware cursor at the requested cell.
\<close>

theorem terminal_move_cursor_exact:
  assumes "terminal_wf t"
  shows "let (r, t') = terminal_move_cursor delta t; p = int (place t) + delta in
    video_mem t' = video_mem t \<and>
    (if 0 \<le> p \<and> p < 2000 then r = Inr () \<and> int (place t') = p \<and> cursor_register t' = word_of_int p
     else r = Inl EINVARG \<and> t' = t)"
proof -
  obtain r t' where m: "terminal_move_cursor delta t = (r, t')" by (cases "terminal_move_cursor delta t") blast
  have "word_of_int (int (place t) + delta) = (of_nat (place t') :: u16)" if "int (place t') = int (place t) + delta"
    using that by (metis of_int_of_nat_eq)
  then show ?thesis using move_cursor_cases [OF assms m] unfolding m Let_def prod.case by presburger
qed

theorem terminal_move_cursor_exact_witness:
  "place (snd (terminal_move_cursor (- 81) example_screen)) = 1918 \<and> fst (terminal_move_cursor 1 example_screen) = Inl EINVARG"
proof -
  have w: "terminal_wf example_screen" "place example_screen = 1999" by (simp_all add: terminal_wf_def place_def example_screen_def)
  show ?thesis
    using terminal_move_cursor_exact [OF w(1), of "- 81"] terminal_move_cursor_exact [OF w(1), of 1] w(2)
    by (auto simp: Let_def split: prod.splits)
qed

text \<open>
  The conversion \<^verbatim>\<open>%B\<close> prints the two characters of its prefix and 32 digits but counts 32 characters; \<^verbatim>\<open>%x\<close> counts the
  prefix and the digits.
\<close>

lemma printf_prefix_counts:
  "printf [37, 66] [ArgInt v] t = Some (32, print (bin_loop 32 v (replicate 33 0)) (print [48, 98] t)) \<and>
   length (take (strlen [48, 98]) [48, 98]) = (2 :: nat) \<and>
   printf [37, 120] [ArgInt v] t = Some (10, print (hex_loop 8 v (replicate 9 0)) (print [48, 120] t))"
  by (simp add: printf_def print_conv_def print_bin_def print_hex_def)

end
