(* ===== verification/Scheduler.thy ===== *)
theory Scheduler
  imports Paging
begin

text \<open>
  Tasks and the scheduler, \<^verbatim>\<open>kernel/task/task.c\<close>, and the timer that drives it,
  \<^verbatim>\<open>kernel/arch/i686/pit.c\<close>. A \<^verbatim>\<open>struct task\<close> is a record in a store indexed by its address, and \<^verbatim>\<open>next\<close> and \<^verbatim>\<open>prev\<close>
  are addresses, so the doubly linked list is the one of the code, with its aliasing. Loops over the list are
  partial functions: \<open>None\<close> is a loop that never ends. \<^verbatim>\<open>task_return\<close>, which drops to ring 3 with the
  saved registers of the current task, is the end of an operation.
\<close>

section \<open>Data\<close>

definition PIT_FREQUENCY_HZ :: u32 where "PIT_FREQUENCY_HZ = 100"
definition INPUT_CLOCK_FREQUENCY :: u32 where "INPUT_CLOCK_FREQUENCY = 1193182"
definition PIT_SLEEP_GUARD_TICKS :: u32 where "PIT_SLEEP_GUARD_TICKS = 2"
definition RORTHOX_PROGRAM_VIRTUAL_ADDRESS :: u32 where "RORTHOX_PROGRAM_VIRTUAL_ADDRESS = 0x400000"
definition RORTHOX_PROGRAM_VIRTUAL_STACK_ADDRESS_START :: u32 where
  "RORTHOX_PROGRAM_VIRTUAL_STACK_ADDRESS_START = 0x3FF000"
definition USER_CODE_SEGMENT :: u32 where "USER_CODE_SEGMENT = 0x1b"
definition USER_DATA_SEGMENT :: u32 where "USER_DATA_SEGMENT = 0x23"

record registers =
  edi :: u32
  esi :: u32
  ebp :: u32
  ebx :: u32
  edx :: u32
  ecx :: u32
  eax :: u32
  ip :: u32
  cs :: u32
  eflags :: u32
  esp :: u32
  ss :: u32

record interrupt_frame =
  frame_edi :: u32
  frame_esi :: u32
  frame_ebp :: u32
  frame_reserved :: u32
  frame_ebx :: u32
  frame_edx :: u32
  frame_ecx :: u32
  frame_eax :: u32
  frame_error_code :: u32
  frame_ip :: u32
  frame_cs :: u32
  frame_flags :: u32
  frame_esp :: u32
  frame_ss :: u32

datatype task_state = TASK_RUNNABLE | TASK_SLEEPING

record task =
  task_id :: u32
  page_directory :: u32
  task_registers :: registers
  task_process :: u32
  burstTime :: int
  remainingTime :: int
  task_next_link :: u32
  task_prev_link :: u32
  task_state :: task_state
  wake_tick :: u32

text \<open>The static variables of the two files, the objects they point to, and \<^verbatim>\<open>kernel_chunk\<close> of \<^verbatim>\<open>kernel.c\<close>.\<close>

record sched =
  task_at :: "u32 \<Rightarrow> task"
  current_task :: u32
  task_count :: u32
  task_tail :: u32
  task_head :: u32
  jiffies :: u32
  kernel_chunk :: u32
  task_mem :: kmem

definition zero_registers :: registers where
  "zero_registers = \<lparr>edi = 0, esi = 0, ebp = 0, ebx = 0, edx = 0, ecx = 0, eax = 0, ip = 0, cs = 0, eflags = 0, esp = 0, ss = 0\<rparr>"

definition zero_task :: task where
  "zero_task = \<lparr>task_id = 0, page_directory = 0, task_registers = zero_registers, task_process = 0, burstTime = 0,
     remainingTime = 0, task_next_link = 0, task_prev_link = 0, task_state = TASK_RUNNABLE, wake_tick = 0\<rparr>"

definition set_task :: "u32 \<Rightarrow> (task \<Rightarrow> task) \<Rightarrow> sched \<Rightarrow> sched" where
  "set_task t f s = s\<lparr>task_at := (task_at s)(t := f (task_at s t))\<rparr>"

section \<open>Creating a task\<close>

text \<open>The entry is \<open>Some\<close> of the entry point in the ELF header, or \<open>None\<close> for a raw binary.\<close>

definition task_init :: "u32 \<Rightarrow> u32 \<Rightarrow> u32 option \<Rightarrow> sched \<Rightarrow> unit result \<times> sched" where
  "task_init task process entry s =
     (let s = set_task task (\<lambda>_. zero_task) s;
          (directory, m) = paging_new_4gb (task_mem s) (ucast (PAGING_IS_PRESENT OR PAGING_IS_WRITEABLE));
          s = set_task task (\<lambda>t. t\<lparr>page_directory := directory\<rparr>) (s\<lparr>task_mem := m\<rparr>)
      in if directory = 0 then (Inl EIO, s)
         else let start = (case entry of Some e \<Rightarrow> e | None \<Rightarrow> RORTHOX_PROGRAM_VIRTUAL_ADDRESS)
              in (Inr (), set_task task (\<lambda>t. t\<lparr>task_registers := (task_registers t)\<lparr>ip := start, ss := USER_DATA_SEGMENT,
                     cs := USER_CODE_SEGMENT, esp := RORTHOX_PROGRAM_VIRTUAL_STACK_ADDRESS_START\<rparr>,
                   task_process := process, task_state := TASK_RUNNABLE, wake_tick := 0\<rparr>) s))"

definition task_new :: "u32 \<Rightarrow> u32 option \<Rightarrow> sched \<Rightarrow> u32 result \<times> sched" where
  "task_new process entry s =
     (let (task, m) = kzalloc (task_mem s) 84; s = s\<lparr>task_mem := m\<rparr>
      in if task = 0 then (Inl ENOMEM, s)
         else case task_init task process entry s of
           (Inl e, s) \<Rightarrow> (Inl e, s\<lparr>task_mem := kfree (task_mem s) task\<rparr>)
         | (Inr _, s) \<Rightarrow>
             (Inr task, set_task task (\<lambda>t. t\<lparr>task_id := task_count s, burstTime := 1000, remainingTime := 1000\<rparr>)
                (s\<lparr>task_count := task_count s + 1\<rparr>)))"

section \<open>The list\<close>

definition task_publish :: "u32 \<Rightarrow> sched \<Rightarrow> sched" where
  "task_publish task s =
     (if task_head s = 0 then s\<lparr>task_head := task, task_tail := task, current_task := task\<rparr>
      else let s = set_task (task_tail s) (\<lambda>t. t\<lparr>task_next_link := task\<rparr>) s;
               s = set_task task (\<lambda>t. t\<lparr>task_prev_link := task_tail s\<rparr>) s
           in s\<lparr>task_tail := task\<rparr>)"

text \<open>The expression \<^verbatim>\<open>task->next ? task->next : task_head\<close>.\<close>

definition following :: "sched \<Rightarrow> u32 \<Rightarrow> u32" where
  "following s task = (if task_next_link (task_at s task) \<noteq> 0 then task_next_link (task_at s task) else task_head s)"

partial_function (option) next_loop :: "sched \<Rightarrow> u32 \<Rightarrow> u32 \<Rightarrow> u32 option" where
  "next_loop s start task =
     (if task = 0 then Some 0
      else if task_state (task_at s task) = TASK_RUNNABLE then Some task
      else if following s task = start then Some 0
      else next_loop s start (following s task))"

definition task_get_next :: "sched \<Rightarrow> u32 option" where
  "task_get_next s =
     (let start = (if current_task s \<noteq> 0 \<and> task_next_link (task_at s (current_task s)) \<noteq> 0
                   then task_next_link (task_at s (current_task s)) else task_head s)
      in next_loop s start start)"

definition task_list_remove :: "u32 \<Rightarrow> sched \<Rightarrow> sched" where
  "task_list_remove task s =
     (let s = (if task_prev_link (task_at s task) \<noteq> 0
               then set_task (task_prev_link (task_at s task)) (\<lambda>t. t\<lparr>task_next_link := task_next_link (task_at s task)\<rparr>) s
               else s);
          s = (if task_next_link (task_at s task) \<noteq> 0
               then set_task (task_next_link (task_at s task)) (\<lambda>t. t\<lparr>task_prev_link := task_prev_link (task_at s task)\<rparr>) s
               else s);
          s = (if task = task_head s then s\<lparr>task_head := task_next_link (task_at s task)\<rparr> else s);
          s = (if task = task_tail s then s\<lparr>task_tail := task_prev_link (task_at s task)\<rparr> else s);
          s = (if task = current_task s then s\<lparr>current_task := following s task\<rparr> else s)
      in set_task task (\<lambda>t. t\<lparr>task_prev_link := 0, task_next_link := 0\<rparr>) s)"

definition task_discard :: "u32 \<Rightarrow> sched \<Rightarrow> sched" where
  "task_discard task s =
     (if task = 0 then s
      else let m = (if page_directory (task_at s task) \<noteq> 0
                    then paging_free_4gb (task_mem s) (page_directory (task_at s task)) else task_mem s)
           in s\<lparr>task_mem := kfree m task\<rparr>)"

definition task_free :: "u32 \<Rightarrow> sched \<Rightarrow> sched" where
  "task_free task s = (if task = 0 then s else task_discard task (task_list_remove task s))"

section \<open>Switching\<close>

definition kernel_page :: "sched \<Rightarrow> sched" where
  "kernel_page s = s\<lparr>task_mem := paging_switch (task_mem s) (kernel_chunk s)\<rparr>"

definition task_switch :: "u32 \<Rightarrow> sched \<Rightarrow> sched" where
  "task_switch task s =
     (let s = s\<lparr>current_task := task\<rparr>
      in s\<lparr>task_mem := paging_switch (task_mem s) (page_directory (task_at s task))\<rparr>)"

definition task_page :: "sched \<Rightarrow> sched" where
  "task_page s = task_switch (current_task s) s"

definition task_page_task :: "u32 \<Rightarrow> sched \<Rightarrow> sched" where
  "task_page_task task s = s\<lparr>task_mem := paging_switch (task_mem s) (page_directory (task_at s task))\<rparr>"

partial_function (option) wake_loop :: "u32 \<Rightarrow> u32 \<Rightarrow> sched \<Rightarrow> sched option" where
  "wake_loop now task s =
     (if task = 0 then Some s
      else let s = (if task_state (task_at s task) = TASK_SLEEPING \<and> now - wake_tick (task_at s task) < 0x80000000
                    then set_task task (\<lambda>t. t\<lparr>task_state := TASK_RUNNABLE\<rparr>) s else s)
           in wake_loop now (task_next_link (task_at s task)) s)"

definition task_wake_sleepers :: "u32 \<Rightarrow> sched \<Rightarrow> sched option" where
  "task_wake_sleepers now s = wake_loop now (task_head s) s"

text \<open>What ends a halt of the idle loop: the timer, or an interrupt that changes no task.\<close>

datatype irq = Timer | Other

text \<open>
  An operation that does not return to its caller stops with a panic, runs the current task in ring 3, or still halts
  when the given interrupts have come.
\<close>

datatype outcome = Panic | Runs sched | Halted sched

text \<open>The timer interrupt in ring 0: \<^verbatim>\<open>pit_tick\<close> counts and wakes.\<close>

definition pit_tick_kernel :: "sched \<Rightarrow> sched option" where
  "pit_tick_kernel s = (let s = s\<lparr>jiffies := jiffies s + 1\<rparr> in task_wake_sleepers (jiffies s) s)"

fun idle_loop :: "irq list \<Rightarrow> sched \<Rightarrow> outcome option" where
  "idle_loop irqs s =
     (case task_get_next s of
        None \<Rightarrow> None
      | Some t \<Rightarrow>
          if t \<noteq> 0 then Some (Runs (task_switch t s))
          else (case irqs of
                  [] \<Rightarrow> Some (Halted s)
                | Timer # irqs \<Rightarrow> (case pit_tick_kernel (kernel_page s) of None \<Rightarrow> None | Some s \<Rightarrow> idle_loop irqs s)
                | Other # irqs \<Rightarrow> idle_loop irqs (kernel_page s)))"

definition task_next :: "irq list \<Rightarrow> sched \<Rightarrow> outcome option" where
  "task_next irqs s =
     (if task_head s = 0 then Some Panic
      else case task_get_next s of
        None \<Rightarrow> None
      | Some t \<Rightarrow> if t \<noteq> 0 then Some (Runs (task_switch t s)) else idle_loop irqs (kernel_page s))"

definition task_sleep_until :: "u32 \<Rightarrow> irq list \<Rightarrow> sched \<Rightarrow> outcome option" where
  "task_sleep_until deadline irqs s =
     (let task = current_task s
      in if task = 0 then Some Panic
         else task_next irqs (set_task task (\<lambda>t. t\<lparr>wake_tick := deadline, task_state := TASK_SLEEPING\<rparr>) s))"

definition task_run_first_ever_task :: "sched \<Rightarrow> outcome" where
  "task_run_first_ever_task s = (if current_task s = 0 then Panic else Runs (task_switch (task_head s) s))"

section \<open>Registers\<close>

definition task_save_state :: "u32 \<Rightarrow> interrupt_frame \<Rightarrow> sched \<Rightarrow> sched" where
  "task_save_state task frame s = set_task task (\<lambda>t. t\<lparr>task_registers :=
     \<lparr>edi = frame_edi frame, esi = frame_esi frame, ebp = frame_ebp frame, ebx = frame_ebx frame, edx = frame_edx frame,
      ecx = frame_ecx frame, eax = frame_eax frame, ip = frame_ip frame, cs = frame_cs frame, eflags = frame_flags frame,
      esp = frame_esp frame, ss = frame_ss frame\<rparr>\<rparr>) s"

text \<open>\<open>None\<close> is the panic without a current task.\<close>

definition task_current_save_state :: "interrupt_frame \<Rightarrow> sched \<Rightarrow> sched option" where
  "task_current_save_state frame s = (if current_task s = 0 then None else Some (task_save_state (current_task s) frame s))"

section \<open>The timer\<close>

definition PIT_DIVISOR :: u32 where
  "PIT_DIVISOR = (INPUT_CLOCK_FREQUENCY + PIT_FREQUENCY_HZ - 1) div PIT_FREQUENCY_HZ"

definition PIT_MS_TO_TICKS :: "u32 \<Rightarrow> u32" where
  "PIT_MS_TO_TICKS ms =
     (ms div 1000) * PIT_FREQUENCY_HZ + ((ms mod 1000) * PIT_FREQUENCY_HZ + 999) div 1000 + PIT_SLEEP_GUARD_TICKS"

definition pit_ms_to_ticks :: "u32 \<Rightarrow> u32" where
  "pit_ms_to_ticks milliseconds = (if milliseconds = 0 then 0 else PIT_MS_TO_TICKS milliseconds)"

definition pit_get_ticks :: "sched \<Rightarrow> u32" where
  "pit_get_ticks s = jiffies s"

text \<open>The bytes written to the command and counter ports.\<close>

definition pit_set_frequency :: "(u16 \<times> u8) list" where
  "pit_set_frequency =
     (let divisor = ucast PIT_DIVISOR :: u16
      in [(0x43, 0x36), (0x40, ucast (divisor AND 0xFF)), (0x40, ucast (drop_bit 8 divisor AND 0xFF))])"

definition pit_tick :: "interrupt_frame \<Rightarrow> irq list \<Rightarrow> sched \<Rightarrow> outcome option" where
  "pit_tick frame irqs s =
     (if frame_cs frame AND 3 \<noteq> 3 then map_option Halted (pit_tick_kernel s)
      else case pit_tick_kernel s of None \<Rightarrow> None | Some s \<Rightarrow> task_next irqs s)"

declare idle_loop.simps [simp del]

section \<open>The list as a list\<close>

definition first_of :: "u32 list \<Rightarrow> u32 \<Rightarrow> u32" where
  "first_of xs d = (case xs of [] \<Rightarrow> d | x # _ \<Rightarrow> x)"

definition last_of :: "u32 list \<Rightarrow> u32 \<Rightarrow> u32" where
  "last_of xs d = (if xs = [] then d else last xs)"

fun linked :: "(u32 \<Rightarrow> task) \<Rightarrow> u32 \<Rightarrow> u32 list \<Rightarrow> u32 \<Rightarrow> bool" where
  "linked m p [] n \<longleftrightarrow> True"
| "linked m p (x # xs) n \<longleftrightarrow> task_prev_link (m x) = p \<and> task_next_link (m x) = first_of xs n \<and> linked m x xs n"

text \<open>The tasks of the scheduler, from the head to the tail.\<close>

definition queue :: "sched \<Rightarrow> u32 list \<Rightarrow> bool" where
  "queue s xs \<longleftrightarrow> distinct xs \<and> 0 \<notin> set xs \<and> linked (task_at s) 0 xs 0 \<and>
     task_head s = first_of xs 0 \<and> task_tail s = last_of xs 0 \<and>
     (if xs = [] then current_task s = 0 else current_task s \<in> set xs)"

text \<open>The order in which tasks are considered: from the one behind the current task round to the current task.\<close>

definition after :: "u32 \<Rightarrow> u32 list \<Rightarrow> u32 list" where
  "after t xs = (case dropWhile (\<lambda>x. x \<noteq> t) xs of [] \<Rightarrow> xs | _ # zs \<Rightarrow> zs @ takeWhile (\<lambda>x. x \<noteq> t) xs @ [t])"

definition runnable :: "sched \<Rightarrow> u32 \<Rightarrow> bool" where
  "runnable s t \<longleftrightarrow> task_state (task_at s t) = TASK_RUNNABLE"

definition first_runnable :: "sched \<Rightarrow> u32 list \<Rightarrow> u32" where
  "first_runnable s xs = (case filter (runnable s) xs of [] \<Rightarrow> 0 | t # _ \<Rightarrow> t)"

lemma first_of_simps [simp]: "first_of [] d = d" "first_of (x # xs) d = x" "first_of (xs @ ys) d = first_of xs (first_of ys d)"
  by (cases xs; simp add: first_of_def)+

lemma last_of_simps [simp]: "last_of [] d = d" "last_of (x # xs) d = last_of xs x" "last_of (xs @ ys) d = last_of ys (last_of xs d)"
  by (auto simp: last_of_def)

lemma linked_append: "linked m p (xs @ ys) n \<longleftrightarrow> linked m p xs (first_of ys n) \<and> linked m (last_of xs p) ys n"
  by (induction xs arbitrary: p) auto

lemma linked_cong:
  "(\<And>x. x \<in> set xs \<Longrightarrow> task_next_link (m' x) = task_next_link (m x) \<and> task_prev_link (m' x) = task_prev_link (m x)) \<Longrightarrow>
     linked m' p xs n = linked m p xs n"
  by (induction xs arbitrary: p) auto

lemma after_split: "t \<notin> set ys \<Longrightarrow> after t (ys @ t # zs) = zs @ ys @ [t]"
  by (simp add: after_def dropWhile_append takeWhile_append)

lemma set_after [simp]: "set (after t xs) = set xs"
proof (cases "t \<in> set xs")
  case True
  then obtain ys zs where "xs = ys @ t # zs" "t \<notin> set ys" by (meson split_list_first)
  then show ?thesis by (auto simp: after_split)
next
  case False
  then have d: "dropWhile (\<lambda>x. x \<noteq> t) xs = []" by (auto simp: dropWhile_eq_Nil_conv)
  show ?thesis unfolding after_def d by simp
qed

lemma set_task_sel [simp]:
  "current_task (set_task t f s) = current_task s" "task_head (set_task t f s) = task_head s" "task_tail (set_task t f s) = task_tail s"
  "jiffies (set_task t f s) = jiffies s" "task_mem (set_task t f s) = task_mem s" "kernel_chunk (set_task t f s) = kernel_chunk s"
  "task_at (set_task t f s) = (task_at s)(t := f (task_at s t))" "task_count (set_task t f s) = task_count s"
  by (simp_all add: set_task_def)

section \<open>The search for the next task\<close>

text \<open>A cycle of tasks: each is followed by the next one, the last by \<open>e\<close>.\<close>

fun ring :: "(u32 \<Rightarrow> u32) \<Rightarrow> u32 list \<Rightarrow> u32 \<Rightarrow> bool" where
  "ring f [] e \<longleftrightarrow> True"
| "ring f (x # xs) e \<longleftrightarrow> f x = first_of xs e \<and> ring f xs e"

lemma ring_append: "ring f (xs @ ys) e \<longleftrightarrow> ring f xs (first_of ys e) \<and> ring f ys e"
  by (induction xs) auto

lemma linked_ring: "linked (task_at s) p xs 0 \<Longrightarrow> 0 \<notin> set xs \<Longrightarrow> ring (following s) xs (task_head s)"
proof (induction xs arbitrary: p)
  case (Cons x xs)
  then show ?case by (cases xs) (auto simp: following_def)
qed simp

lemma next_loop_ring:
  assumes "ring (following s) c (first_of c 0)" "distinct c" "0 \<notin> set c" "c = pre @ x # suf"
  shows "next_loop s (first_of c 0) x = Some (first_runnable s (x # suf))"
  using assms(4)
proof (induction suf arbitrary: pre x)
  case Nil
  then have "following s x = first_of c 0" using assms(1) by (simp add: ring_append)
  then show ?case using assms(3) Nil by (subst next_loop.simps) (auto simp: first_runnable_def runnable_def)
next
  case (Cons y suf)
  have f: "following s x = y" using assms(1) Cons.prems by (simp add: ring_append)
  have ne: "y \<noteq> first_of c 0" using assms(2) Cons.prems by (cases pre) auto
  have "next_loop s (first_of c 0) y = Some (first_runnable s (y # suf))"
    using Cons.IH [of "pre @ [x]" y] Cons.prems by simp
  then show ?case using assms(3) Cons.prems f ne by (subst next_loop.simps) (auto simp: first_runnable_def runnable_def)
qed

lemma queue_current:
  assumes "queue s xs" "xs \<noteq> []"
  obtains ys zs where "xs = ys @ current_task s # zs" "current_task s \<notin> set ys"
proof -
  have "current_task s \<in> set xs" using assms by (simp add: queue_def)
  then show ?thesis using that by (meson split_list_first)
qed

lemma task_get_next_eq:
  assumes "queue s xs"
  shows "task_get_next s = Some (first_runnable s (after (current_task s) xs))"
proof (cases "xs = []")
  case True
  then show ?thesis using assms
    by (simp add: task_get_next_def queue_def after_def first_runnable_def next_loop.simps)
next
  case False
  from queue_current [OF assms False] obtain ys zs where x: "xs = ys @ current_task s # zs" "current_task s \<notin> set ys" .
  let ?u = "current_task s"
  define c where "c = zs @ ys @ [?u]"
  have a: "after ?u xs = c" using x by (simp add: after_split c_def)
  have q: "distinct xs" "0 \<notin> set xs" "linked (task_at s) 0 xs 0" "task_head s = first_of xs 0" using assms by (simp_all add: queue_def)
  have r: "ring (following s) xs (task_head s)" using linked_ring q(2,3) by blast
  have h: "task_head s = first_of (ys @ [?u]) 0" using q(4) x(1) by simp
  have d: "distinct c" "0 \<notin> set c" using q(1,2) x(1) by (auto simp: c_def)
  have k: "ring (following s) c (first_of c 0)"
    using r h unfolding x(1) c_def by (simp add: ring_append)
  have n: "task_next_link (task_at s ?u) = first_of zs 0" using q(3) x(1) by (simp add: linked_append)
  have st: "(if ?u \<noteq> 0 \<and> task_next_link (task_at s ?u) \<noteq> 0 then task_next_link (task_at s ?u) else task_head s) = first_of c 0"
    using n h d(2) by (cases zs) (auto simp: c_def)
  obtain y cs where "c = y # cs" by (cases c) (auto simp: c_def)
  with next_loop_ring [OF k d, of "[]" y cs] st a show ?thesis by (simp add: task_get_next_def Let_def)
qed

section \<open>Linking and unlinking\<close>

lemma linked_set_next:
  assumes "linked m a (ys @ [p]) b" "distinct (ys @ [p])"
  shows "linked (m(p := (m p)\<lparr>task_next_link := c\<rparr>)) a (ys @ [p]) c"
proof -
  have "linked (m(p := (m p)\<lparr>task_next_link := c\<rparr>)) a ys p = linked m a ys p" by (rule linked_cong) (use assms in auto)
  then show ?thesis using assms by (simp add: linked_append)
qed

lemma linked_set_prev:
  assumes "linked m a (n # zs) b" "n \<notin> set zs"
  shows "linked (m(n := (m n)\<lparr>task_prev_link := c\<rparr>)) c (n # zs) b"
proof -
  have "linked (m(n := (m n)\<lparr>task_prev_link := c\<rparr>)) n zs b = linked m n zs b" by (rule linked_cong) (use assms in auto)
  then show ?thesis using assms by simp
qed

lemma linked_other: "t \<notin> set xs \<Longrightarrow> linked (m(t := v)) p xs n = linked m p xs n"
  by (rule linked_cong) auto

lemma task_publish_queue:
  assumes "queue s xs" "t \<noteq> 0" "t \<notin> set xs" "task_next_link (task_at s t) = 0" "task_prev_link (task_at s t) = 0"
  shows "queue (task_publish t s) (xs @ [t])" "current_task (task_publish t s) = (if xs = [] then t else current_task s)"
proof -
  show "current_task (task_publish t s) = (if xs = [] then t else current_task s)"
    using assms by (cases xs) (auto simp: task_publish_def queue_def Let_def)
  show "queue (task_publish t s) (xs @ [t])"
  proof (cases xs rule: rev_cases)
    case Nil
    then show ?thesis using assms by (simp add: task_publish_def queue_def)
  next
    case (snoc ys p)
    let ?m = "(task_at s)(p := (task_at s p)\<lparr>task_next_link := t\<rparr>)"
    have q: "linked (task_at s) 0 (ys @ [p]) 0" "distinct (ys @ [p])" "task_tail s = p" "task_head s \<noteq> 0" "t \<noteq> p"
      using assms(1,3) snoc by (cases ys; auto simp: queue_def)+
    have l: "linked ?m 0 (ys @ [p]) t" using linked_set_next [OF q(1,2)] .
    have "linked (?m(t := (?m t)\<lparr>task_prev_link := p\<rparr>)) 0 (ys @ [p]) t" using l assms(3) snoc by (simp add: linked_other)
    then have "linked (?m(t := (?m t)\<lparr>task_prev_link := p\<rparr>)) 0 (ys @ [p] @ [t]) 0"
      using q(5) assms(4) by (simp add: linked_append)
    moreover have "task_publish t s = s\<lparr>task_at := ?m(t := (?m t)\<lparr>task_prev_link := p\<rparr>), task_tail := t\<rparr>"
      using q(3,4) by (simp add: task_publish_def Let_def set_task_def)
    moreover have "first_of (ys @ [p] @ [t]) 0 = task_head s" "current_task s \<in> set (ys @ [p])" "0 \<notin> set (ys @ [p])"
      using assms(1) snoc by (simp_all add: queue_def)
    ultimately show ?thesis using q(2) assms(2,3) snoc by (simp add: queue_def) blast
  qed
qed

text \<open>Unlinking, with the task between its neighbours.\<close>

lemma unlink_store:
  assumes "linked m 0 (ys @ t # zs) 0" "distinct (ys @ t # zs)" "0 \<notin> set (ys @ t # zs)"
  defines "m1 \<equiv> (if last_of ys 0 \<noteq> 0 then m(last_of ys 0 := (m (last_of ys 0))\<lparr>task_next_link := first_of zs 0\<rparr>) else m)"
  defines "m2 \<equiv> (if first_of zs 0 \<noteq> 0 then m1(first_of zs 0 := (m1 (first_of zs 0))\<lparr>task_prev_link := last_of ys 0\<rparr>) else m1)"
  shows "linked m2 0 (ys @ zs) 0" "m2 t = m t"
proof -
  have l: "linked m 0 ys t" "linked m t zs 0" using assms(1) by (simp_all add: linked_append)
  have a: "linked m1 0 ys (first_of zs 0) \<and> linked m1 t zs 0 \<and> m1 t = m t"
  proof (cases ys rule: rev_cases)
    case Nil
    then show ?thesis using l by (simp add: m1_def)
  next
    case (snoc us p)
    then have p: "last_of ys 0 = p" "p \<noteq> 0" "p \<notin> set zs" "p \<noteq> t" "distinct (us @ [p])" using assms(2,3) by auto
    show ?thesis using l(2) p linked_set_next [OF l(1) [unfolded snoc] p(5)] by (simp add: m1_def linked_other snoc)
  qed
  show "linked m2 0 (ys @ zs) 0"
  proof (cases zs)
    case Nil
    then show ?thesis using a by (simp add: m2_def)
  next
    case (Cons n us)
    then have n: "n \<noteq> 0" "n \<notin> set ys" "n \<noteq> t" "n \<notin> set us" using assms(2,3) by auto
    have "linked m2 (last_of ys 0) zs 0" using linked_set_prev [of m1 t n us 0] a n Cons by (simp add: m2_def)
    moreover have "linked m2 0 ys n" using a n Cons by (simp add: m2_def linked_other)
    ultimately show ?thesis using Cons by (simp add: linked_append)
  qed
  show "m2 t = m t" using a assms(2) by (cases zs) (auto simp: m2_def)
qed

lemma task_list_remove_eq:
  assumes "queue s (ys @ t # zs)"
  shows "queue (task_list_remove t s) (ys @ zs)"
    "current_task (task_list_remove t s) = (if t = current_task s then first_of (zs @ ys) 0 else current_task s)"
    "task_next_link (task_at (task_list_remove t s) t) = 0" "task_prev_link (task_at (task_list_remove t s) t) = 0"
    "task_state (task_at (task_list_remove t s) x) = task_state (task_at s x)"
proof -
  let ?m = "task_at s" and ?p = "last_of ys 0" and ?n = "first_of zs 0"
  define m1 where "m1 = (if ?p \<noteq> 0 then ?m(?p := (?m ?p)\<lparr>task_next_link := ?n\<rparr>) else ?m)"
  define m2 where "m2 = (if ?n \<noteq> 0 then m1(?n := (m1 ?n)\<lparr>task_prev_link := ?p\<rparr>) else m1)"
  have q: "linked ?m 0 (ys @ t # zs) 0" "distinct (ys @ t # zs)" "0 \<notin> set (ys @ t # zs)" "task_head s = first_of ys t"
    "task_tail s = last_of zs t" "current_task s \<in> set (ys @ t # zs)"
    using assms by (simp_all add: queue_def)
  have u: "linked m2 0 (ys @ zs) 0" "m2 t = ?m t" unfolding m2_def m1_def by (rule unlink_store [OF q(1-3)])+
  have tn: "task_prev_link (?m t) = ?p" "task_next_link (?m t) = ?n" using q(1) by (simp_all add: linked_append)
  have pt: "?p \<noteq> t" "?n \<noteq> t" using q(2,3) by (cases ys rule: rev_cases; cases zs; auto)+
  have m1t: "m1 t = ?m t" using pt by (auto simp: m1_def)
  have hd: "t = task_head s \<longleftrightarrow> ys = []" "t = task_tail s \<longleftrightarrow> zs = []"
    using q(2,4,5) by (cases ys; cases zs rule: rev_cases; auto)+
  let ?h = "if ys = [] then ?n else task_head s"
  have h: "?h = first_of (ys @ zs) 0" using q(4) by (cases ys) simp_all
  have f: "(if ?n \<noteq> 0 then ?n else ?h) = first_of (zs @ ys) 0" using q(3,4) h by (cases zs; cases ys) auto
  have e: "task_list_remove t s = s\<lparr>task_at := m2(t := (m2 t)\<lparr>task_prev_link := 0, task_next_link := 0\<rparr>), task_head := ?h,
      task_tail := (if zs = [] then ?p else task_tail s),
      current_task := (if t = current_task s then first_of (zs @ ys) 0 else current_task s)\<rparr>"
  proof -
    define s1 where "s1 = s\<lparr>task_at := m1\<rparr>"
    define s2 where "s2 = s\<lparr>task_at := m2\<rparr>"
    define s3 where "s3 = s2\<lparr>task_head := ?h\<rparr>"
    define s4 where "s4 = s3\<lparr>task_tail := (if zs = [] then ?p else task_tail s)\<rparr>"
    have 1: "(if ?p \<noteq> 0 then set_task ?p (\<lambda>u. u\<lparr>task_next_link := ?n\<rparr>) s else s) = s1"
      by (auto simp: s1_def m1_def set_task_def)
    have 2: "(if ?n \<noteq> 0 then set_task ?n (\<lambda>u. u\<lparr>task_prev_link := ?p\<rparr>) s1 else s1) = s2"
      by (auto simp: s1_def s2_def m2_def set_task_def)
    have 3: "(if t = task_head s2 then s2\<lparr>task_head := ?n\<rparr> else s2) = s3" using hd by (simp add: s2_def s3_def)
    have 4: "(if t = task_tail s3 then s3\<lparr>task_tail := ?p\<rparr> else s3) = s4" using hd by (simp add: s2_def s3_def s4_def)
    have t: "task_at s1 t = ?m t" "task_at s2 t = ?m t" "task_at s3 t = ?m t" "task_at s4 t = ?m t"
      using m1t u(2) by (simp_all add: s1_def s2_def s3_def s4_def)
    have "following s4 t = (if ?n \<noteq> 0 then ?n else ?h)" using t(4) tn(2) by (simp add: following_def) (simp add: s4_def s3_def)
    then have fo: "following s4 t = first_of (zs @ ys) 0" using f by argo
    show ?thesis unfolding task_list_remove_def Let_def tn 1 t 2 3 4 fo
      by (simp add: s4_def s3_def s2_def set_task_def)
  qed
  have l: "linked (m2(t := (m2 t)\<lparr>task_prev_link := 0, task_next_link := 0\<rparr>)) 0 (ys @ zs) 0"
    using u(1) q(2) by (simp add: linked_other)
  define cu where "cu = (if t = current_task s then first_of (zs @ ys) 0 else current_task s)"
  have c: "if ys @ zs = [] then cu = 0 else cu \<in> set (ys @ zs)"
    using q(6) by (cases zs; cases ys) (auto simp: cu_def)
  have tl: "(if zs = [] then ?p else task_tail s) = last_of (ys @ zs) 0" using q(5) by (cases zs) simp_all
  show "queue (task_list_remove t s) (ys @ zs)" unfolding queue_def e cu_def [symmetric] using l c tl h q(2,3) by (auto split: if_splits)
  show "current_task (task_list_remove t s) = (if t = current_task s then first_of (zs @ ys) 0 else current_task s)"
    "task_next_link (task_at (task_list_remove t s) t) = 0" "task_prev_link (task_at (task_list_remove t s) t) = 0"
    unfolding e by simp_all
  show "task_state (task_at (task_list_remove t s) x) = task_state (task_at s x)"
    unfolding e by (simp add: m2_def m1_def)
qed

section \<open>Waking\<close>

definition due :: "u32 \<Rightarrow> task \<Rightarrow> bool" where
  "due now t \<longleftrightarrow> task_state t = TASK_SLEEPING \<and> now - wake_tick t < 0x80000000"

definition woken :: "u32 \<Rightarrow> u32 set \<Rightarrow> (u32 \<Rightarrow> task) \<Rightarrow> u32 \<Rightarrow> task" where
  "woken now X m = (\<lambda>t. if t \<in> X \<and> due now (m t) then (m t)\<lparr>task_state := TASK_RUNNABLE\<rparr> else m t)"

lemma linked_woken [simp]: "linked (woken now X m) p xs n = linked m p xs n"
  by (rule linked_cong) (simp add: woken_def)

lemma wake_loop_eq:
  assumes "linked (task_at s) p xs 0" "0 \<notin> set xs" "distinct xs"
  shows "wake_loop now (first_of xs 0) s = Some (s\<lparr>task_at := woken now (set xs) (task_at s)\<rparr>)"
  using assms
proof (induction xs arbitrary: s p)
  case Nil
  then show ?case by (simp add: wake_loop.simps woken_def)
next
  case (Cons x xs)
  let ?s = "if due now (task_at s x) then set_task x (\<lambda>t. t\<lparr>task_state := TASK_RUNNABLE\<rparr>) s else s"
  have a: "task_at ?s = woken now {x} (task_at s)" by (auto simp: woken_def)
  have n: "task_next_link (task_at ?s x) = first_of xs 0" using Cons.prems by (simp add: a woken_def)
  have l: "linked (task_at ?s) x xs 0" unfolding a using Cons.prems by simp
  have w: "woken now (set xs) (woken now {x} (task_at s)) = woken now (set (x # xs)) (task_at s)"
    using Cons.prems by (auto simp: woken_def due_def)
  have "wake_loop now x s = wake_loop now (task_next_link (task_at ?s x)) ?s"
    using Cons.prems by (subst wake_loop.simps) (simp add: Let_def due_def)
  also have "\<dots> = Some (?s\<lparr>task_at := woken now (set xs) (task_at ?s)\<rparr>)"
    unfolding n using Cons.IH [OF l] Cons.prems by simp
  also have "\<dots> = Some (s\<lparr>task_at := woken now (set (x # xs)) (task_at s)\<rparr>)" unfolding a w by (simp add: set_task_def)
  finally show ?case by simp
qed

lemma pit_tick_kernel_eq:
  assumes "queue s xs"
  shows "pit_tick_kernel s = Some (s\<lparr>jiffies := jiffies s + 1, task_at := woken (jiffies s + 1) (set xs) (task_at s)\<rparr>)"
    "queue (s\<lparr>jiffies := j, task_at := woken now X (task_at s)\<rparr>) xs"
  using assms wake_loop_eq [of "s\<lparr>jiffies := jiffies s + 1\<rparr>" 0 xs "jiffies s + 1"]
  by (auto simp: pit_tick_kernel_def task_wake_sleepers_def queue_def)

section \<open>Scheduling\<close>

lemma first_runnable_cases:
  assumes "t \<in> set xs" "runnable s t"
  obtains as u bs where "xs = as @ u # bs" "first_runnable s xs = u" "runnable s u" "t \<in> set (u # bs)" "\<forall>x \<in> set as. \<not> runnable s x"
proof -
  have "filter (runnable s) xs \<noteq> []" using assms by (auto simp: filter_empty_conv)
  then obtain u us where f: "filter (runnable s) xs = u # us" by (cases "filter (runnable s) xs") auto
  then obtain as bs where "xs = as @ u # bs" "\<forall>x \<in> set as. \<not> runnable s x" "runnable s u" by (auto simp: filter_eq_Cons_iff)
  moreover have "first_runnable s xs = u" using f by (simp add: first_runnable_def)
  ultimately show ?thesis using that assms by fastforce
qed

lemma first_runnable_prefix: "runnable s t \<Longrightarrow> first_runnable s (as @ t # bs) = first_runnable s (as @ [t])"
  by (cases "filter (runnable s) as") (simp_all add: first_runnable_def)

lemma first_runnable_null: "0 \<notin> set xs \<Longrightarrow> first_runnable s xs = 0 \<longleftrightarrow> (\<forall>t \<in> set xs. \<not> runnable s t)"
proof
  assume "0 \<notin> set xs" "first_runnable s xs = 0"
  then show "\<forall>t \<in> set xs. \<not> runnable s t" using first_runnable_cases [of _ xs s] by (metis in_set_conv_decomp)
next
  assume "\<forall>t \<in> set xs. \<not> runnable s t"
  then show "first_runnable s xs = 0" by (simp add: first_runnable_def filter_False)
qed

lemma after_after:
  assumes "distinct xs" "c \<in> set xs" "after c xs = as @ u # rest"
  shows "after u xs = rest @ as @ [u]"
proof -
  obtain ys zs where x: "xs = ys @ c # zs" "c \<notin> set ys" using assms(2) by (meson split_list_first)
  then have e: "zs @ ys @ [c] = as @ u # rest" using assms(3) by (simp add: after_split)
  have k: "after u xs = b @ a @ [u]" if "xs = a @ u # b" for a b
    using that assms(1) by (simp add: after_split)
  from e consider us where "zs = as @ u # us" "rest = us @ ys @ [c]" | us where "as = zs @ us" "ys @ [c] = us @ u # rest"
    by (auto simp: append_eq_append_conv2 append_eq_Cons_conv) blast
  then show ?thesis
  proof cases
    case 1
    then show ?thesis using k [of "ys @ c # as" us] x by simp
  next
    case 2
    then show ?thesis using k [of us "butlast rest @ c # zs"] x by (cases rest rule: rev_cases) (auto simp: after_split)
  qed
qed

lemma task_switch_queue:
  assumes "queue s xs" "t \<in> set xs"
  shows "queue (task_switch t s) xs" "current_task (task_switch t s) = t" "task_at (task_switch t s) = task_at s"
    "jiffies (task_switch t s) = jiffies s"
  using assms by (auto simp: task_switch_def queue_def Let_def)

lemma kernel_page_sel [simp]:
  "queue (kernel_page s) xs = queue s xs" "task_at (kernel_page s) = task_at s" "jiffies (kernel_page s) = jiffies s"
  "task_head (kernel_page s) = task_head s" "current_task (kernel_page s) = current_task s"
  by (simp_all add: kernel_page_def queue_def)

lemma queue_head_null: "queue s xs \<Longrightarrow> task_head s = 0 \<longleftrightarrow> xs = []"
  by (cases xs) (auto simp: queue_def)

lemma get_next_member:
  assumes "queue s xs" "first_runnable s (after (current_task s) xs) \<noteq> 0"
  shows "first_runnable s (after (current_task s) xs) \<in> set xs" "runnable s (first_runnable s (after (current_task s) xs))"
proof -
  have z: "0 \<notin> set (after (current_task s) xs)" using assms(1) by (simp add: queue_def)
  then obtain t where "t \<in> set (after (current_task s) xs)" "runnable s t" using first_runnable_null assms(2) by blast
  from first_runnable_cases [OF this] show "first_runnable s (after (current_task s) xs) \<in> set xs"
    "runnable s (first_runnable s (after (current_task s) xs))"
    by (metis in_set_conv_decomp set_after)+
qed

lemma idle_loop_returns:
  assumes "queue s xs"
  shows "\<exists>s'. queue s' xs \<and> (idle_loop irqs s = Some (Runs s') \<and> runnable s' (current_task s') \<and> xs \<noteq> [] \<or>
    idle_loop irqs s = Some (Halted s') \<and> (\<forall>t \<in> set xs. \<not> runnable s' t))"
  using assms
proof (induction irqs arbitrary: s)
  case Nil
  let ?t = "first_runnable s (after (current_task s) xs)"
  note n = task_get_next_eq [OF Nil]
  show ?case
  proof (cases "?t = 0")
    case True
    then have "\<forall>t \<in> set xs. \<not> runnable s t" using first_runnable_null [of "after (current_task s) xs" s] Nil by (simp add: queue_def)
    then show ?thesis using Nil n True by (subst idle_loop.simps, subst idle_loop.simps) auto
  next
    case False
    note m = get_next_member [OF Nil False]
    have "idle_loop [] s = Some (Runs (task_switch ?t s))" using n False by (simp add: idle_loop.simps)
    then show ?thesis using task_switch_queue [OF Nil m(1)] m by (auto simp: runnable_def)
  qed
next
  case (Cons i irqs)
  let ?t = "first_runnable s (after (current_task s) xs)"
  note n = task_get_next_eq [OF Cons.prems]
  show ?case
  proof (cases "?t = 0")
    case True
    have q: "queue (kernel_page s) xs" using Cons.prems by simp
    note k = pit_tick_kernel_eq [OF q]
    obtain s1 where "idle_loop (i # irqs) s = idle_loop irqs s1" "queue s1 xs"
    proof (cases i)
      case Timer
      then have "idle_loop (i # irqs) s = idle_loop irqs (kernel_page s\<lparr>jiffies := jiffies (kernel_page s) + 1,
          task_at := woken (jiffies (kernel_page s) + 1) (set xs) (task_at (kernel_page s))\<rparr>)"
        using n True k(1) by (simp add: idle_loop.simps [of "Timer # irqs"])
      then show ?thesis using that k(2) by blast
    next
      case Other
      then show ?thesis using that [OF _ q] n True by (simp add: idle_loop.simps [of "Other # irqs"])
    qed
    then show ?thesis using Cons.IH [of s1] by simp
  next
    case False
    note m = get_next_member [OF Cons.prems False]
    have "idle_loop (i # irqs) s = Some (Runs (task_switch ?t s))" using n False by (simp add: idle_loop.simps [of "i # irqs"])
    then show ?thesis using task_switch_queue [OF Cons.prems m(1)] m by (auto simp: runnable_def)
  qed
qed

lemma task_next_returns:
  assumes "queue s xs"
  shows "\<exists>s'. queue s' xs \<and> (task_next irqs s = Some (Runs s') \<and> runnable s' (current_task s') \<and> xs \<noteq> [] \<or>
    task_next irqs s = Some (Halted s') \<and> (\<forall>t \<in> set xs. \<not> runnable s' t) \<or> task_next irqs s = Some Panic \<and> xs = [] \<and> s' = s)"
proof (cases "xs = []")
  case True
  then show ?thesis using assms queue_head_null [OF assms] by (auto simp: task_next_def)
next
  case False
  let ?t = "first_runnable s (after (current_task s) xs)"
  have e: "task_next irqs s = (if ?t \<noteq> 0 then Some (Runs (task_switch ?t s)) else idle_loop irqs (kernel_page s))"
    using task_get_next_eq [OF assms] queue_head_null [OF assms] False by (simp add: task_next_def)
  show ?thesis
  proof (cases "?t = 0")
    case True
    then show ?thesis using e idle_loop_returns [of "kernel_page s" xs irqs] assms by auto
  next
    case n: False
    note m = get_next_member [OF assms n]
    show ?thesis using e n task_switch_queue [OF assms m(1)] m False by (auto simp: runnable_def)
  qed
qed

section \<open>Progress\<close>

text \<open>A number of timer interrupts that all come while a user task runs.\<close>

fun user_ticks :: "nat \<Rightarrow> interrupt_frame \<Rightarrow> sched \<Rightarrow> outcome option" where
  "user_ticks 0 frame s = Some (Runs s)"
| "user_ticks (Suc n) frame s = (case pit_tick frame [] s of Some (Runs s') \<Rightarrow> user_ticks n frame s' | r \<Rightarrow> r)"

lemma tick_progress:
  assumes "queue s xs" "runnable s t" "after (current_task s) xs = as @ t # bs" "frame_cs frame AND 3 = 3"
  shows "\<exists>s'. pit_tick frame irqs s = Some (Runs s') \<and> queue s' xs \<and> runnable s' t \<and>
    (current_task s' = t \<or> (\<exists>as' bs'. after (current_task s') xs = as' @ t # bs' \<and> length as' < length as))"
proof -
  let ?s = "s\<lparr>jiffies := jiffies s + 1, task_at := woken (jiffies s + 1) (set xs) (task_at s)\<rparr>"
  have q: "queue ?s xs" using pit_tick_kernel_eq(2) [OF assms(1)] .
  have r: "runnable ?s t" using assms(2) by (simp add: runnable_def woken_def)
  have tin: "t \<in> set (as @ [t])" by simp
  from first_runnable_cases [OF tin r] obtain a1 u b1 where f: "as @ [t] = a1 @ u # b1" "first_runnable ?s (as @ [t]) = u" "runnable ?s u" .
  have fr: "first_runnable ?s (after (current_task ?s) xs) = u"
    using f(2) first_runnable_prefix [OF r, of as bs] by (simp add: assms(3) del: append_Cons)
  have xs: "distinct xs" "t \<in> set xs" "u \<in> set xs" "0 \<notin> set xs" "current_task s \<in> set xs"
  proof -
    have "set (as @ t # bs) = set xs" using assms(3) by (metis set_after)
    moreover have "u \<in> set (as @ [t])" using f(1) by simp
    ultimately show "t \<in> set xs" "u \<in> set xs" by auto
    then show "distinct xs" "0 \<notin> set xs" "current_task s \<in> set xs" using assms(1) by (auto simp: queue_def split: if_splits)
  qed
  have u0: "u \<noteq> 0" using xs by auto
  have "task_next irqs ?s = Some (Runs (task_switch u ?s))"
    using task_get_next_eq [OF q] fr u0 queue_head_null [OF q] xs(2) by (auto simp: task_next_def)
  then have p: "pit_tick frame irqs s = Some (Runs (task_switch u ?s))"
    using assms(4) pit_tick_kernel_eq(1) [OF assms(1)] by (simp add: pit_tick_def)
  note sw = task_switch_queue [OF q xs(3)]
  have "u = t \<or> (\<exists>as' bs'. after u xs = as' @ t # bs' \<and> length as' < length as)"
  proof (cases b1 rule: rev_cases)
    case Nil
    then show ?thesis using f(1) by simp
  next
    case (snoc b2 y)
    then have "after (current_task s) xs = a1 @ u # b2 @ t # bs" "length b2 < length as" using f(1) assms(3) by auto
    then show ?thesis using after_after [OF xs(1,5), of a1 u "b2 @ t # bs"] by auto
  qed
  then show ?thesis using p sw r by (auto simp: runnable_def)
qed

lemma ticks_reach:
  assumes "queue s xs" "runnable s t" "after (current_task s) xs = as @ t # bs" "frame_cs frame AND 3 = 3"
  shows "\<exists>n s'. 0 < n \<and> n \<le> Suc (length as) \<and> user_ticks n frame s = Some (Runs s') \<and> queue s' xs \<and> current_task s' = t"
  using assms
proof (induction "length as" arbitrary: s as bs rule: less_induct)
  case less
  from tick_progress [OF less.prems] obtain s' where s': "pit_tick frame [] s = Some (Runs s')" "queue s' xs" "runnable s' t"
      "current_task s' = t \<or> (\<exists>as' bs'. after (current_task s') xs = as' @ t # bs' \<and> length as' < length as)" by blast
  show ?case
  proof (cases "current_task s' = t")
    case True
    then have "user_ticks 1 frame s = Some (Runs s')" using s'(1) by simp
    then show ?thesis using s'(2) True by (intro exI [of _ 1]) auto
  next
    case False
    then obtain as' bs' where a: "after (current_task s') xs = as' @ t # bs'" "length as' < length as" using s'(4) by blast
    from less.hyps [OF a(2) s'(2,3) a(1) less.prems(4)] obtain n s2 where
      "0 < n" "n \<le> Suc (length as')" "user_ticks n frame s' = Some (Runs s2)" "queue s2 xs" "current_task s2 = t" by blast
    then show ?thesis using s'(1) a(2) by (intro exI [of _ "Suc n"]) auto
  qed
qed

section \<open>Sleeping\<close>

fun kernel_ticks :: "nat \<Rightarrow> sched \<Rightarrow> sched option" where
  "kernel_ticks 0 s = Some s"
| "kernel_ticks (Suc n) s = (case kernel_ticks n s of None \<Rightarrow> None | Some s \<Rightarrow> pit_tick_kernel s)"

lemma pit_ms_to_ticks_nat:
  assumes "0 < unat ms" "unat ms < 2147483648"
  shows "unat (pit_ms_to_ticks ms) = (unat ms * 100 + 999) div 1000 + 2" "unat (pit_ms_to_ticks ms) < 2147483648"
proof -
  let ?m = "unat ms"
  have d: "unat (ms div 1000) = ?m div 1000" "unat (ms mod 1000) = ?m mod 1000" by (simp_all add: unat_div unat_mod)
  have a: "unat (ms div 1000 * 100) = ?m div 1000 * 100" using d assms by (subst unat_mult_u32) auto
  have b: "unat (ms mod 1000 * 100) = ?m mod 1000 * 100" using d assms by (subst unat_mult_u32) auto
  have c: "unat (ms mod 1000 * 100 + 999) = ?m mod 1000 * 100 + 999" using b by (subst unat_add_u32) auto
  have e: "unat ((ms mod 1000 * 100 + 999) div 1000) = (?m mod 1000 * 100 + 999) div 1000" using c by (simp add: unat_div)
  have e': "(?m mod 1000 * 100 + 999) div 1000 \<le> 100" by simp
  have f: "unat (ms div 1000 * 100 + (ms mod 1000 * 100 + 999) div 1000) = ?m div 1000 * 100 + (?m mod 1000 * 100 + 999) div 1000"
    using a e e' assms by (subst unat_add_u32) auto
  have g: "unat (ms div 1000 * 100 + (ms mod 1000 * 100 + 999) div 1000 + 2) = ?m div 1000 * 100 + (?m mod 1000 * 100 + 999) div 1000 + 2"
    using f e' assms by (subst unat_add_u32) auto
  have "ms \<noteq> 0" using assms(1) by auto
  then have u: "unat (pit_ms_to_ticks ms) = ?m div 1000 * 100 + (?m mod 1000 * 100 + 999) div 1000 + 2"
    using g by (simp add: pit_ms_to_ticks_def PIT_MS_TO_TICKS_def PIT_FREQUENCY_HZ_def PIT_SLEEP_GUARD_TICKS_def)
  have "?m * 100 + 999 = ?m mod 1000 * 100 + 999 + ?m div 1000 * 100 * 1000" using mult_div_mod_eq [of 1000 ?m] by linarith
  then have "(?m * 100 + 999) div 1000 = ?m div 1000 * 100 + (?m mod 1000 * 100 + 999) div 1000" by (metis div_mult_self1 zero_neq_numeral)
  then show "unat (pit_ms_to_ticks ms) = (?m * 100 + 999) div 1000 + 2" using u by simp
  then show "unat (pit_ms_to_ticks ms) < 2147483648" using assms by simp
qed

lemma due_iff:
  assumes "task_state t = TASK_SLEEPING" "wake_tick t = now + d" "unat d < 2147483648" "k < 2147483648" "0 < k"
  shows "due (now + of_nat k) t \<longleftrightarrow> unat d \<le> k"
proof -
  have e: "now + of_nat k - wake_tick t = of_nat k - d" using assms(2) by simp
  have k: "unat (of_nat k :: u32) = k" using assms(4) by (simp add: unat_of_nat_u32)
  show ?thesis
  proof (cases "unat d \<le> k")
    case True
    then have "unat (of_nat k - d) = k - unat d" using k by (simp add: unat_sub_u32)
    then show ?thesis using assms e True by (simp add: due_def word_less_nat_alt)
  next
    case False
    then have "unat (of_nat k - d) = k + 4294967296 - unat d" using k by (simp add: unat_sub_if')
    then show ?thesis using assms e False by (simp add: due_def word_less_nat_alt)
  qed
qed

lemma sleep_ticks:
  assumes "queue s xs" "t \<in> set xs" "task_state (task_at s t) = TASK_SLEEPING" "wake_tick (task_at s t) = jiffies s + d"
    "0 < unat d" "unat d < 2147483648" "k < 2147483648"
  shows "\<exists>s'. kernel_ticks k s = Some s' \<and> queue s' xs \<and> jiffies s' = jiffies s + of_nat k \<and> wake_tick (task_at s' t) = jiffies s + d \<and>
    (runnable s' t \<longleftrightarrow> unat d \<le> k)"
  using assms(7)
proof (induction k)
  case 0
  then show ?case using assms by (auto simp: runnable_def)
next
  case (Suc k)
  then obtain s1 where s1: "kernel_ticks k s = Some s1" "queue s1 xs" "jiffies s1 = jiffies s + of_nat k"
    "wake_tick (task_at s1 t) = jiffies s + d" "runnable s1 t \<longleftrightarrow> unat d \<le> k" by auto
  let ?s = "s1\<lparr>jiffies := jiffies s1 + 1, task_at := woken (jiffies s1 + 1) (set xs) (task_at s1)\<rparr>"
  have k: "kernel_ticks (Suc k) s = Some ?s" "queue ?s xs" using s1 pit_tick_kernel_eq [OF s1(2)] by simp_all
  have j: "jiffies s1 + 1 = jiffies s + of_nat (Suc k)" using s1(3) by simp
  have "runnable ?s t \<longleftrightarrow> unat d \<le> Suc k"
  proof (cases "task_state (task_at s1 t)")
    case TASK_RUNNABLE
    then show ?thesis using s1(5) by (auto simp: runnable_def woken_def)
  next
    case TASK_SLEEPING
    have "due (jiffies s1 + 1) (task_at s1 t) \<longleftrightarrow> unat d \<le> Suc k"
      unfolding j using due_iff [OF TASK_SLEEPING s1(4) assms(6) Suc.prems] by simp
    then show ?thesis using TASK_SLEEPING assms(2) by (simp add: runnable_def woken_def)
  qed
  then show ?case using k j s1(4) by (auto simp: woken_def)
qed

section \<open>Properties\<close>

text \<open>
  The states of the scheduler with the list of its tasks: it starts empty, a new task is added at the end, an ended one is
  taken out, and every other operation keeps the list.
\<close>

inductive sched_run :: "sched \<Rightarrow> u32 list \<Rightarrow> bool" where
  boot: "task_head s = 0 \<Longrightarrow> task_tail s = 0 \<Longrightarrow> current_task s = 0 \<Longrightarrow> sched_run s []"
| publish: "sched_run s xs \<Longrightarrow> t \<noteq> 0 \<Longrightarrow> t \<notin> set xs \<Longrightarrow> task_next_link (task_at s t) = 0 \<Longrightarrow>
    task_prev_link (task_at s t) = 0 \<Longrightarrow> sched_run (task_publish t s) (xs @ [t])"
| remove: "sched_run s xs \<Longrightarrow> t \<in> set xs \<Longrightarrow> sched_run (task_list_remove t s) (remove1 t xs)"
| switch: "sched_run s xs \<Longrightarrow> t \<in> set xs \<Longrightarrow> sched_run (task_switch t s) xs"
| save: "sched_run s xs \<Longrightarrow> sched_run (task_save_state t frame s) xs"
| page: "sched_run s xs \<Longrightarrow> sched_run (kernel_page s) xs"
| "next": "sched_run s xs \<Longrightarrow> task_next irqs s = Some (Runs s') \<Longrightarrow> sched_run s' xs"
| sleep: "sched_run s xs \<Longrightarrow> task_sleep_until deadline irqs s = Some (Runs s') \<Longrightarrow> sched_run s' xs"
| tick: "sched_run s xs \<Longrightarrow> pit_tick frame irqs s = Some r \<Longrightarrow> r = Runs s' \<or> r = Halted s' \<Longrightarrow> sched_run s' xs"

lemma set_task_queue:
  "(\<And>t. task_next_link (f t) = task_next_link t \<and> task_prev_link (f t) = task_prev_link t) \<Longrightarrow> queue (set_task t f s) xs = queue s xs"
  using linked_cong [of xs "task_at (set_task t f s)" "task_at s"] by (simp add: queue_def)

lemma task_next_queue: "queue s xs \<Longrightarrow> task_next irqs s = Some r \<Longrightarrow> r = Runs s' \<or> r = Halted s' \<Longrightarrow> queue s' xs"
  using task_next_returns [of s xs irqs] by auto

text \<open>
  C35. The doubly linked list of tasks refines a list. In every state the scheduler can reach, the addresses in the list
  are distinct and not NULL, \<^verbatim>\<open>next\<close> and \<^verbatim>\<open>prev\<close> of every task point to its neighbours and are NULL at the ends, head and
  tail point to the ends, and the current task is a task of the list as long as there is one. A published task comes last,
  also when the list was empty; a removed one disappears, at either end, in the middle, or alone, and when it was the current task its successor, or the head, takes
  over.
\<close>

theorem task_list_refines:
  assumes "sched_run s xs"
  shows "distinct xs \<and> 0 \<notin> set xs \<and> linked (task_at s) 0 xs 0 \<and> task_head s = first_of xs 0 \<and> task_tail s = last_of xs 0 \<and>
    (if xs = [] then current_task s = 0 else current_task s \<in> set xs)"
proof -
  from assms have "queue s xs"
  proof induction
    case (publish s xs t)
    then show ?case by (simp add: task_publish_queue)
  next
    case (remove s xs t)
    then obtain ys zs where "xs = ys @ t # zs" "t \<notin> set ys" by (meson split_list_first)
    with remove task_list_remove_eq(1) [of s ys t zs] show ?case by (simp add: remove1_append)
  next
    case (sleep s xs deadline irqs s')
    have "queue (set_task (current_task s) (\<lambda>t. t\<lparr>wake_tick := deadline, task_state := TASK_SLEEPING\<rparr>) s) xs"
      using sleep.IH by (simp add: set_task_queue)
    then show ?case using sleep.hyps(2) task_next_queue by (auto simp: task_sleep_until_def Let_def split: if_splits)
  next
    case (tick s xs frame irqs r s')
    note k = pit_tick_kernel_eq [OF tick.IH]
    show ?case using tick.hyps(2,3) k task_next_queue [OF k(2)] by (auto simp: pit_tick_def split: if_splits)
  qed (auto simp: task_switch_queue task_save_state_def set_task_queue intro: task_next_queue, simp add: queue_def)
  then show ?thesis by (simp add: queue_def)
qed

definition example_sched :: sched where
  "example_sched = \<lparr>task_at = (\<lambda>_. zero_task), current_task = 0, task_count = 0, task_tail = 0, task_head = 0,
     jiffies = 0xFFFFFFFF, kernel_chunk = 0, task_mem = kmem_boot\<rparr>"

theorem task_list_refines_witness:
  "linked (task_at (task_publish 0x2000 (task_publish 0x1000 example_sched))) 0 [0x1000, 0x2000] 0 \<and>
   current_task (task_list_remove 0x1000 (task_publish 0x2000 (task_publish 0x1000 example_sched))) \<in> {0x2000}"
proof -
  have a: "sched_run example_sched []" by (rule sched_run.boot) (simp_all add: example_sched_def)
  have b: "sched_run (task_publish 0x1000 example_sched) [0x1000]"
    using sched_run.publish [OF a, of "0x1000"] by (simp add: example_sched_def zero_task_def)
  have c: "sched_run (task_publish 0x2000 (task_publish 0x1000 example_sched)) [0x1000, 0x2000]"
    using sched_run.publish [OF b, of "0x2000"] by (simp add: example_sched_def zero_task_def task_publish_def)
  have d: "sched_run (task_list_remove 0x1000 (task_publish 0x2000 (task_publish 0x1000 example_sched))) [0x2000]"
    using sched_run.remove [OF c, of "0x1000"] by simp
  show ?thesis using task_list_refines [OF c] task_list_refines [OF d] by simp
qed

text \<open>
  C36. The search for the next task and the loop over the sleepers return on every list of tasks, although both follow the links until
  they meet a value: \<^verbatim>\<open>task_get_next\<close> finds the first runnable task behind the current one, round to the current
  one itself, and NULL exactly when no task is runnable; \<^verbatim>\<open>task_wake_sleepers\<close> visits every task, and \<^verbatim>\<open>task_next\<close> decides for every
  sequence of interrupts: it panics only without tasks, runs a runnable task of the list, or still halts with every
  task asleep.
\<close>

theorem task_get_next_returns:
  assumes "queue s xs"
  shows "task_get_next s = Some (first_runnable s (after (current_task s) xs)) \<and>
    (first_runnable s (after (current_task s) xs) = 0 \<longleftrightarrow> (\<forall>t. t \<in> set xs \<longrightarrow> \<not> runnable s t)) \<and>
    task_wake_sleepers now s = Some (s\<lparr>task_at := woken now (set xs) (task_at s)\<rparr>) \<and>
    (case task_next irqs s of
       None \<Rightarrow> False
     | Some Panic \<Rightarrow> xs = []
     | Some (Runs s') \<Rightarrow> queue s' xs \<and> runnable s' (current_task s')
     | Some (Halted s') \<Rightarrow> queue s' xs \<and> (\<forall>t. t \<in> set xs \<longrightarrow> \<not> runnable s' t))"
proof -
  have "0 \<notin> set (after (current_task s) xs)" using assms by (simp add: queue_def)
  moreover have "task_wake_sleepers now s = Some (s\<lparr>task_at := woken now (set xs) (task_at s)\<rparr>)"
    using assms wake_loop_eq [of s 0 xs now] by (simp add: queue_def task_wake_sleepers_def)
  ultimately show ?thesis
    using task_get_next_eq [OF assms] first_runnable_null [of "after (current_task s) xs" s] task_next_returns [OF assms, of irqs] by auto
qed

lemma example_queue: "queue (task_publish 0x2000 (task_publish 0x1000 example_sched)) [0x1000, 0x2000]"
proof -
  have a: "queue example_sched []" by (simp add: queue_def example_sched_def)
  have b: "queue (task_publish 0x1000 example_sched) [0x1000]"
    using task_publish_queue(1) [OF a, of "0x1000"] by (simp add: example_sched_def zero_task_def)
  show ?thesis using task_publish_queue(1) [OF b, of "0x2000"] by (simp add: example_sched_def zero_task_def task_publish_def)
qed

theorem task_get_next_returns_witness:
  "task_get_next (task_publish 0x2000 (task_publish 0x1000 example_sched)) = Some 0x2000"
  using task_get_next_returns [OF example_queue]
  by (simp add: after_def first_runnable_def runnable_def task_publish_def example_sched_def zero_task_def Let_def)


definition example_frame :: interrupt_frame where
  "example_frame = \<lparr>frame_edi = 0, frame_esi = 0, frame_ebp = 0, frame_reserved = 0, frame_ebx = 0, frame_edx = 0, frame_ecx = 0,
     frame_eax = 0, frame_error_code = 0, frame_ip = 0x400000, frame_cs = 0x1b, frame_flags = 0x202, frame_esp = 0x3FF000, frame_ss = 0x23\<rparr>"




end
