(* ===== verification/Spec2Isabelle.thy ===== *)
theory Spec2Isabelle
  imports Paging Keyboard Vfs_Names Vfs_Failstop Terminal Scheduler
begin

text \<open>
  RorthOX: a verification development for the kernel of a 32-bit x86 hobby operating system.
\<close>

end
